(* ===== verification/Xv6_Prelude.thy ===== *)
theory Xv6_Prelude
  imports Main "HOL-Library.Word"
begin

unbundle bit_operations_syntax

text \<open>
  Shared material of the development: the C integer types, the result type of kernel code,
  little-endian byte codecs for the structures the kernel keeps on disk and in pages, and the
  list, array and word lemmas the component theories use.

  Kernel code either returns, calls \<^verbatim>\<open>panic\<close>, goes to sleep on a channel, performs an access
  that C leaves undefined (an index outside an array), or follows a linked structure that never
  ends. The type \<open>outcome\<close> keeps these apart.
\<close>

section \<open>Machine integers\<close>

type_synonym byte = "8 word"
type_synonym ushort = "16 word"
type_synonym uint = "32 word"

section \<open>Results of kernel code\<close>

datatype 'a outcome =
    Ok 'a
  | Panic string    \<comment> \<open>the message given to panic\<close>
  | Sleep string    \<comment> \<open>the caller blocks on this channel\<close>
  | Undef           \<comment> \<open>undefined behaviour of C\<close>
  | Diverge         \<comment> \<open>a loop over a linked structure that does not end\<close>

primrec obind :: "'a outcome \<Rightarrow> ('a \<Rightarrow> 'b outcome) \<Rightarrow> 'b outcome" where
  "obind (Ok x) f = f x"
| "obind (Panic m) f = Panic m"
| "obind (Sleep c) f = Sleep c"
| "obind Undef f = Undef"
| "obind Diverge f = Diverge"

text \<open>A counted loop over a state: the body runs for each index until one run fails.\<close>

primrec ofold :: "('i \<Rightarrow> 's \<Rightarrow> 's outcome) \<Rightarrow> 'i list \<Rightarrow> 's \<Rightarrow> 's outcome" where
  "ofold f [] s = Ok s"
| "ofold f (i # is) s = obind (f i s) (ofold f is)"

definition aget :: "'a list \<Rightarrow> nat \<Rightarrow> 'a outcome" where
  "aget xs i = (if i < length xs then Ok (xs ! i) else Undef)"

definition aset :: "'a list \<Rightarrow> nat \<Rightarrow> 'a \<Rightarrow> 'a list outcome" where
  "aset xs i v = (if i < length xs then Ok (xs[i := v]) else Undef)"

section \<open>Little-endian codecs\<close>

definition u16_bytes :: "ushort \<Rightarrow> byte list" where
  "u16_bytes w = [ucast w, ucast (drop_bit 8 w)]"

definition bytes_u16 :: "byte list \<Rightarrow> ushort" where
  "bytes_u16 bs = ucast (bs ! 0) OR push_bit 8 (ucast (bs ! 1))"

definition u32_bytes :: "uint \<Rightarrow> byte list" where
  "u32_bytes w = [ucast w, ucast (drop_bit 8 w), ucast (drop_bit 16 w), ucast (drop_bit 24 w)]"

definition bytes_u32 :: "byte list \<Rightarrow> uint" where
  "bytes_u32 bs = ucast (bs ! 0) OR push_bit 8 (ucast (bs ! 1))
     OR push_bit 16 (ucast (bs ! 2)) OR push_bit 24 (ucast (bs ! 3))"

text \<open>Overwriting a run of bytes inside a buffer, and reading one.\<close>

definition patch :: "'a list \<Rightarrow> nat \<Rightarrow> 'a list \<Rightarrow> 'a list" where
  "patch xs off ys = take off xs @ ys @ drop (off + length ys) xs"

definition chunk :: "'a list \<Rightarrow> nat \<Rightarrow> nat \<Rightarrow> 'a list" where
  "chunk xs off n = take n (drop off xs)"

named_theorems codec \<open>laws of the byte codecs\<close>

section \<open>Laws of outcome\<close>

lemma obind_eq_Ok_iff: "obind m f = Ok y \<longleftrightarrow> (\<exists>x. m = Ok x \<and> f x = Ok y)"
  by (cases m) auto

lemma obind_OkE [elim]:
  assumes "obind m f = Ok y"
  obtains x where "m = Ok x" and "f x = Ok y"
  using assms by (auto simp: obind_eq_Ok_iff)

lemma obind_assoc: "obind (obind m f) g = obind m (\<lambda>x. obind (f x) g)"
  by (cases m) auto

lemma obind_Ok_right [simp]: "obind m Ok = m"
  by (cases m) auto

lemma obind_cong [fundef_cong]:
  "m = m' \<Longrightarrow> (\<And>x. m' = Ok x \<Longrightarrow> f x = g x) \<Longrightarrow> obind m f = obind m' g"
  by (cases m') auto

lemma ofold_append: "ofold f (xs @ ys) s = obind (ofold f xs s) (ofold f ys)"
  by (induction xs arbitrary: s) (auto simp: obind_assoc intro: obind_cong)

text \<open>The rule for counted loops: an invariant that every round keeps.\<close>

lemma ofold_inv:
  assumes "P 0 s" and "\<And>i s. i < n \<Longrightarrow> P i s \<Longrightarrow> \<exists>s'. f i s = Ok s' \<and> P (Suc i) s'"
  shows "\<exists>s'. ofold f [0..<n] s = Ok s' \<and> P n s'"
  using assms(2)
proof (induction n)
  case 0
  then show ?case using assms(1) by simp
next
  case (Suc n)
  then obtain s1 where "ofold f [0..<n] s = Ok s1" "P n s1" by (metis less_SucI)
  moreover from Suc.prems [of n s1] this(2) obtain s2 where "f n s1 = Ok s2" "P (Suc n) s2" by auto
  ultimately show ?case by (simp add: ofold_append)
qed

lemma aget_Ok [simp]: "aget xs i = Ok v \<longleftrightarrow> i < length xs \<and> v = xs ! i"
  by (auto simp: aget_def)

lemma aset_Ok [simp]: "aset xs i v = Ok ys \<longleftrightarrow> i < length xs \<and> ys = xs[i := v]"
  by (auto simp: aset_def)

section \<open>Laws of the codecs\<close>

lemma length_u16_bytes [simp]: "length (u16_bytes w) = 2"
  by (simp add: u16_bytes_def)

lemma length_u32_bytes [simp]: "length (u32_bytes w) = 4"
  by (simp add: u32_bytes_def)

lemma bytes_u16_u16_bytes [simp, codec]: "bytes_u16 (u16_bytes w) = w"
  by (rule bit_word_eqI)
    (auto simp: bytes_u16_def u16_bytes_def bit_or_iff bit_push_bit_iff bit_ucast_iff bit_drop_bit_eq)

lemma bytes_u32_u32_bytes [simp, codec]: "bytes_u32 (u32_bytes w) = w"
proof (rule bit_word_eqI)
  fix n :: nat
  assume "n < LENGTH(32)"
  then obtain k j where n: "n = 8 * k + j" and "j < 8" and k: "k < 4"
    by (intro that [of "n div 8" "n mod 8"]) auto
  from k consider "k = 0" | "k = 1" | "k = 2" | "k = 3" by fastforce
  then show "bit (bytes_u32 (u32_bytes w)) n = bit w n"
    by cases (use \<open>j < 8\<close> in \<open>auto simp: n bytes_u32_def u32_bytes_def bit_or_iff
        bit_push_bit_iff bit_ucast_iff bit_drop_bit_eq\<close>)
qed

lemma u16_bytes_append [simp, codec]: "bytes_u16 (u16_bytes w @ bs) = w"
  using bytes_u16_u16_bytes [of w] by (simp add: bytes_u16_def u16_bytes_def)

lemma u32_bytes_append [simp, codec]: "bytes_u32 (u32_bytes w @ bs) = w"
  using bytes_u32_u32_bytes [of w] by (simp add: bytes_u32_def u32_bytes_def)

lemma length_patch [simp]:
  "off + length ys \<le> length xs \<Longrightarrow> length (patch xs off ys) = length xs"
  by (simp add: patch_def)

lemma chunk_patch_same [simp, codec]:
  "off + length ys \<le> length xs \<Longrightarrow> n = length ys \<Longrightarrow> chunk (patch xs off ys) off n = ys"
  by (simp add: patch_def chunk_def)

lemma nth_patch:
  "off + length ys \<le> length xs \<Longrightarrow> i < length xs \<Longrightarrow>
   patch xs off ys ! i = (if off \<le> i \<and> i < off + length ys then ys ! (i - off) else xs ! i)"
  by (auto simp: patch_def nth_append)

lemma length_chunk [simp]: "off + n \<le> length xs \<Longrightarrow> length (chunk xs off n) = n"
  by (simp add: chunk_def)

lemma nth_chunk: "off + n \<le> length xs \<Longrightarrow> i < n \<Longrightarrow> chunk xs off n ! i = xs ! (off + i)"
  by (simp add: chunk_def)

lemma chunk_patch_other [simp, codec]:
  assumes "off + length ys \<le> length xs" and "o2 + n \<le> length xs"
    and "o2 + n \<le> off \<or> off + length ys \<le> o2"
  shows "chunk (patch xs off ys) o2 n = chunk xs o2 n"
  by (rule nth_equalityI) (use assms in \<open>auto simp: nth_chunk nth_patch\<close>)

section \<open>Lists as C arrays\<close>

lemma nth_upd: "xs[i := x] ! j = (if i = j \<and> i < length xs then x else xs ! j)"
  by (cases "i < length xs") (auto simp: nth_list_update list_update_beyond)

end
