(* ===== verification/Sleeplock.thy ===== *)
theory Sleeplock
  imports Xv6_Prelude
begin

text \<open>
  Sleep locks (\<^verbatim>\<open>sleeplock.c\<close>), as seen by the one process that runs the code. The spin lock
  inside a sleep lock makes each operation atomic; the field \<^verbatim>\<open>name\<close> is for debugging only. A
  process that finds the lock taken blocks, which is the outcome \<open>Sleep\<close>. The wakeup in
  \<^verbatim>\<open>releasesleep\<close> acts on other processes.
\<close>

record sleeplock =
  sl_locked :: bool
  sl_pid :: int

definition initsleeplock :: sleeplock where
  "initsleeplock = \<lparr>sl_locked = False, sl_pid = 0\<rparr>"

definition acquiresleep :: "int \<Rightarrow> sleeplock \<Rightarrow> sleeplock outcome" where
  "acquiresleep pid lk =
     (if sl_locked lk then Sleep ''sleep lock'' else Ok (lk\<lparr>sl_locked := True, sl_pid := pid\<rparr>))"

definition releasesleep :: "sleeplock \<Rightarrow> sleeplock" where
  "releasesleep lk = lk\<lparr>sl_locked := False, sl_pid := 0\<rparr>"

definition holdingsleep :: "int \<Rightarrow> sleeplock \<Rightarrow> bool" where
  "holdingsleep pid lk \<longleftrightarrow> sl_locked lk \<and> sl_pid lk = pid"

lemma acquiresleep_free [simp]:
  "\<not> sl_locked lk \<Longrightarrow> acquiresleep pid lk = Ok (lk\<lparr>sl_locked := True, sl_pid := pid\<rparr>)"
  by (simp add: acquiresleep_def)

lemma acquiresleep_Ok_iff:
  "acquiresleep pid lk = Ok lk' \<longleftrightarrow> \<not> sl_locked lk \<and> lk' = lk\<lparr>sl_locked := True, sl_pid := pid\<rparr>"
  by (auto simp: acquiresleep_def)

end
