(* ===== verification/Linked_Ring.thy ===== *)
theory Linked_Ring
  imports Main
begin

text \<open>
  Circular doubly linked lists given by two link functions. \<open>dseg nx pv a xs b\<close> says that the
  nodes \<open>xs\<close> lie between \<open>a\<close> and \<open>b\<close>, linked forwards by \<open>nx\<close> and backwards by \<open>pv\<close>; a ring
  with header \<open>h\<close> is \<open>dseg nx pv h xs h\<close>. Unlinking a node and inserting one after the header
  are the updates that the buffer cache performs.
\<close>

primrec dseg :: "('a \<Rightarrow> 'a) \<Rightarrow> ('a \<Rightarrow> 'a) \<Rightarrow> 'a \<Rightarrow> 'a list \<Rightarrow> 'a \<Rightarrow> bool" where
  "dseg nx pv a [] b \<longleftrightarrow> nx a = b \<and> pv b = a"
| "dseg nx pv a (x # xs) b \<longleftrightarrow> nx a = x \<and> pv x = a \<and> dseg nx pv x xs b"

lemma dseg_append [simp]:
  "dseg nx pv a (xs @ y # ys) b \<longleftrightarrow> dseg nx pv a xs y \<and> dseg nx pv y ys b"
  by (induction xs arbitrary: a) auto

lemma dseg_rev: "dseg nx pv a xs b \<longleftrightarrow> dseg pv nx b (rev xs) a"
  by (induction xs arbitrary: a) auto

lemma dseg_next: "dseg nx pv a xs b \<Longrightarrow> nx a = hd (xs @ [b])"
  by (cases xs) auto

lemma dseg_prev: "dseg nx pv a xs b \<Longrightarrow> pv b = last (a # xs)"
  by (induction xs arbitrary: a) auto

lemma dseg_nx_frame: "c \<notin> insert a (set xs) \<Longrightarrow> dseg (nx(c := d)) pv a xs b = dseg nx pv a xs b"
  by (induction xs arbitrary: a) auto

lemma dseg_pv_frame: "c \<notin> insert b (set xs) \<Longrightarrow> dseg nx (pv(c := d)) a xs b = dseg nx pv a xs b"
  by (induction xs arbitrary: a) auto

lemma dseg_relink:
  assumes "dseg nx pv a xs y" and "distinct (a # xs)" and "c \<notin> set xs"
  shows "dseg (nx(pv y := c)) (pv(c := pv y)) a xs c"
  using assms
proof (induction xs arbitrary: a)
  case Nil
  then show ?case by simp
next
  case (Cons x xs)
  then have "pv y = last (x # xs)" by (auto dest: dseg_prev)
  then have "pv y \<in> set (x # xs)" by (metis last_in_set list.distinct(1))
  with Cons show ?case by auto
qed

lemma ring_unlink:
  assumes ring: "dseg nx pv h (xs @ y # ys) h" and dist: "distinct (h # xs @ y # ys)"
  shows "dseg (nx(pv y := nx y)) (pv(nx y := pv y)) h (xs @ ys) h"
proof (cases ys)
  case Nil
  with ring dist dseg_relink [of nx pv h xs y h] show ?thesis by auto
next
  case (Cons z zs)
  with ring have left: "dseg nx pv h xs y" and y: "nx y = z" and right: "dseg nx pv z zs h"
    by auto
  from left have "pv y = last (h # xs)" by (rule dseg_prev)
  then have p: "pv y \<in> set (h # xs)" by (metis last_in_set list.distinct(1))
  have "dseg (nx(pv y := z)) (pv(z := pv y)) h xs z"
    using left dist Cons by (intro dseg_relink) auto
  moreover have "dseg (nx(pv y := z)) (pv(z := pv y)) z zs h"
    using right p dist Cons by (subst dseg_nx_frame, fastforce) (subst dseg_pv_frame, auto)
  ultimately show ?thesis using Cons y by simp
qed

lemma ring_insert:
  assumes ring: "dseg nx pv h xs h" and b: "b \<noteq> h" "b \<notin> set xs" and dist: "distinct (h # xs)"
  shows "dseg (nx(b := nx h, h := b)) (pv(b := h, nx h := b)) h (b # xs) h"
proof (cases xs)
  case Nil
  with ring b show ?thesis by auto
next
  case (Cons z zs)
  with ring have z: "nx h = z" and zs: "dseg nx pv z zs h" by auto
  have "dseg (nx(b := z, h := b)) (pv(b := h, z := b)) z zs h"
  proof -
    have "dseg nx (pv(b := h)) z zs h" using zs b Cons by (subst dseg_pv_frame) auto
    then have "dseg nx (pv(b := h, z := b)) z zs h" using dist Cons by (subst dseg_pv_frame) auto
    then show ?thesis using b dist Cons by (subst dseg_nx_frame, fastforce) (subst dseg_nx_frame, auto)
  qed
  with Cons z b dist show ?thesis by auto
qed

end
