(* ===== verification/Buffer_Cache.thy ===== *)
theory Buffer_Cache
  imports Sleeplock Linked_Ring
begin

text \<open>
  The buffer cache (\<^verbatim>\<open>bio.c\<close>, \<^verbatim>\<open>buf.h\<close>) over the in-memory disk driver (\<^verbatim>\<open>memide.c\<close>).

  A \<^verbatim>\<open>struct buf *\<close> is an index into \<open>bufs\<close>; index \<open>NBUF\<close> is the list head
  \<^verbatim>\<open>bcache.head\<close>. The two bits of \<^verbatim>\<open>flags\<close> are two booleans. The spin lock
  \<^verbatim>\<open>bcache.lock\<close> makes the scan and the relinking atomic. Besides the cache, the state holds
  the disk's blocks and, in order, the writes the disk has performed, from which a crash is
  described later.
\<close>

definition NBUF :: nat where "NBUF = 30"

definition BSIZE :: nat where "BSIZE = 512"

record buf =
  b_valid :: bool          \<comment> \<open>flags and B_VALID\<close>
  b_dirty :: bool          \<comment> \<open>flags and B_DIRTY\<close>
  b_dev :: uint
  b_blockno :: uint
  b_lock :: sleeplock
  b_refcnt :: uint
  b_prev :: nat
  b_next :: nat
  b_data :: "byte list"

record bio =
  bufs :: "buf list"
  disk :: "uint \<Rightarrow> byte list"                 \<comment> \<open>memdisk, by block\<close>
  disksize :: uint
  dwrites :: "(uint \<times> byte list) list"        \<comment> \<open>the block writes done so far\<close>
  mypid :: int                                \<comment> \<open>myproc()->pid\<close>

definition buf0 :: buf where
  "buf0 = \<lparr>b_valid = False, b_dirty = False, b_dev = 0, b_blockno = 0, b_lock = initsleeplock,
     b_refcnt = 0, b_prev = 0, b_next = 0, b_data = replicate BSIZE 0\<rparr>"

definition bupd :: "nat \<Rightarrow> (buf \<Rightarrow> buf) \<Rightarrow> 'a bio_scheme \<Rightarrow> 'a bio_scheme" where
  "bupd i f s = s\<lparr>bufs := (bufs s)[i := f (bufs s ! i)]\<rparr>"

section \<open>The list of buffers\<close>

definition push_front :: "nat \<Rightarrow> buf list \<Rightarrow> buf list" where
  "push_front b bs =
     (let bs = bs[b := (bs ! b)\<lparr>b_next := b_next (bs ! NBUF), b_prev := NBUF\<rparr>];
          f = b_next (bs ! NBUF);
          bs = bs[f := (bs ! f)\<lparr>b_prev := b\<rparr>]
      in bs[NBUF := (bs ! NBUF)\<lparr>b_next := b\<rparr>])"

definition unlink_buf :: "nat \<Rightarrow> buf list \<Rightarrow> buf list" where
  "unlink_buf b bs =
     (let n = b_next (bs ! b);
          bs = bs[n := (bs ! n)\<lparr>b_prev := b_prev (bs ! b)\<rparr>];
          p = b_prev (bs ! b)
      in bs[p := (bs ! p)\<lparr>b_next := b_next (bs ! b)\<rparr>])"

definition binit :: "buf list \<Rightarrow> buf list" where
  "binit bs = fold (\<lambda>b bs. push_front b (bs[b := (bs ! b)\<lparr>b_lock := initsleeplock\<rparr>])) [0..<NBUF]
     (bs[NBUF := (bs ! NBUF)\<lparr>b_prev := NBUF, b_next := NBUF\<rparr>])"

fun scan :: "nat \<Rightarrow> (buf \<Rightarrow> nat) \<Rightarrow> (buf \<Rightarrow> bool) \<Rightarrow> buf list \<Rightarrow> nat \<Rightarrow> nat option outcome" where
  "scan 0 link P bs b = Diverge"
| "scan (Suc fuel) link P bs b =
     (if b = NBUF then Ok None
      else if length bs \<le> b then Undef
      else if P (bs ! b) then Ok (Some b)
      else scan fuel link P bs (link (bs ! b)))"

section \<open>The disk driver\<close>

definition iderw :: "nat \<Rightarrow> 'a bio_scheme \<Rightarrow> 'a bio_scheme outcome" where
  "iderw i s =
     (let b = bufs s ! i in
      if \<not> holdingsleep (mypid s) (b_lock b) then Panic ''iderw: buf not locked''
      else if b_valid b \<and> \<not> b_dirty b then Panic ''iderw: nothing to do''
      else if b_dev b \<noteq> 1 then Panic ''iderw: request not for disk 1''
      else if disksize s \<le> b_blockno b then Panic ''iderw: block out of range''
      else if b_dirty b then
        Ok ((bupd i (\<lambda>b. b\<lparr>b_dirty := False, b_valid := True\<rparr>) s)
          \<lparr>disk := (disk s)(b_blockno b := b_data b),
           dwrites := dwrites s @ [(b_blockno b, b_data b)]\<rparr>)
      else Ok (bupd i (\<lambda>b. b\<lparr>b_data := disk s (b_blockno b), b_valid := True\<rparr>) s))"

section \<open>Operations\<close>

definition bget :: "uint \<Rightarrow> uint \<Rightarrow> 'a bio_scheme \<Rightarrow> (nat \<times> 'a bio_scheme) outcome" where
  "bget dev blockno s =
     obind (scan (Suc NBUF) b_next (\<lambda>b. b_dev b = dev \<and> b_blockno b = blockno)
              (bufs s) (b_next (bufs s ! NBUF))) (\<lambda>r. case r of
       Some b \<Rightarrow>
         (let s = bupd b (\<lambda>b. b\<lparr>b_refcnt := b_refcnt b + 1\<rparr>) s in
          obind (acquiresleep (mypid s) (b_lock (bufs s ! b))) (\<lambda>lk.
          Ok (b, bupd b (\<lambda>b. b\<lparr>b_lock := lk\<rparr>) s)))
     | None \<Rightarrow>
         obind (scan (Suc NBUF) b_prev (\<lambda>b. b_refcnt b = 0 \<and> \<not> b_dirty b)
                  (bufs s) (b_prev (bufs s ! NBUF))) (\<lambda>r. case r of
           Some b \<Rightarrow>
             (let s = bupd b (\<lambda>b. b\<lparr>b_dev := dev, b_blockno := blockno, b_valid := False,
                        b_dirty := False, b_refcnt := 1\<rparr>) s in
              obind (acquiresleep (mypid s) (b_lock (bufs s ! b))) (\<lambda>lk.
              Ok (b, bupd b (\<lambda>b. b\<lparr>b_lock := lk\<rparr>) s)))
         | None \<Rightarrow> Panic ''bget: no buffers''))"

definition bread :: "uint \<Rightarrow> uint \<Rightarrow> 'a bio_scheme \<Rightarrow> (nat \<times> 'a bio_scheme) outcome" where
  "bread dev blockno s =
     obind (bget dev blockno s) (\<lambda>(b, s).
     if \<not> b_valid (bufs s ! b) then obind (iderw b s) (\<lambda>s. Ok (b, s)) else Ok (b, s))"

definition bwrite :: "nat \<Rightarrow> 'a bio_scheme \<Rightarrow> 'a bio_scheme outcome" where
  "bwrite b s =
     (if \<not> holdingsleep (mypid s) (b_lock (bufs s ! b)) then Panic ''bwrite''
      else iderw b (bupd b (\<lambda>b. b\<lparr>b_dirty := True\<rparr>) s))"

definition brelse :: "nat \<Rightarrow> 'a bio_scheme \<Rightarrow> 'a bio_scheme outcome" where
  "brelse b s =
     (if \<not> holdingsleep (mypid s) (b_lock (bufs s ! b)) then Panic ''brelse''
      else
        (let s = bupd b (\<lambda>b. b\<lparr>b_lock := releasesleep (b_lock b)\<rparr>) s;
             s = bupd b (\<lambda>b. b\<lparr>b_refcnt := b_refcnt b - 1\<rparr>) s
         in if b_refcnt (bufs s ! b) = 0
            then Ok (s\<lparr>bufs := push_front b (unlink_buf b (bufs s))\<rparr>)
            else Ok s))"

text \<open>What a client does to the bytes of a buffer it holds.\<close>

definition bset :: "nat \<Rightarrow> byte list \<Rightarrow> 'a bio_scheme \<Rightarrow> 'a bio_scheme" where
  "bset i d s = bupd i (\<lambda>b. b\<lparr>b_data := d\<rparr>) s"

abbreviation bdata :: "'a bio_scheme \<Rightarrow> nat \<Rightarrow> byte list" where
  "bdata s i \<equiv> b_data (bufs s ! i)"

text \<open>The cache after \<^verbatim>\<open>binit\<close> has run on the zero-initialised array.\<close>

definition bcache0 :: "buf list" where
  "bcache0 = binit (replicate (Suc NBUF) buf0)"

section \<open>The list invariant\<close>

abbreviation nexts :: "buf list \<Rightarrow> nat \<Rightarrow> nat" where
  "nexts bs \<equiv> \<lambda>i. b_next (bs ! i)"

abbreviation prevs :: "buf list \<Rightarrow> nat \<Rightarrow> nat" where
  "prevs bs \<equiv> \<lambda>i. b_prev (bs ! i)"

definition ring_of :: "buf list \<Rightarrow> nat list \<Rightarrow> bool" where
  "ring_of bs xs \<longleftrightarrow> length bs = Suc NBUF \<and> distinct xs \<and> set xs \<subseteq> {..<NBUF}
     \<and> dseg (nexts bs) (prevs bs) NBUF xs NBUF"

definition lru :: "buf list \<Rightarrow> nat list \<Rightarrow> bool" where
  "lru bs xs \<longleftrightarrow> ring_of bs xs \<and> set xs = {..<NBUF}"

lemma nexts_update [simp]:
  "i < length bs \<Longrightarrow> nexts (bs[i := b]) = (nexts bs)(i := b_next b)"
  by (auto simp: nth_list_update fun_eq_iff)

lemma prevs_update [simp]:
  "i < length bs \<Longrightarrow> prevs (bs[i := b]) = (prevs bs)(i := b_prev b)"
  by (auto simp: nth_list_update fun_eq_iff)

lemma ring_of_update:
  assumes "i < length bs" and "b_next b = b_next (bs ! i)" and "b_prev b = b_prev (bs ! i)"
  shows "ring_of (bs[i := b]) xs = ring_of bs xs"
proof -
  have "nexts (bs[i := b]) = nexts bs" and "prevs (bs[i := b]) = prevs bs"
    using assms by (auto simp: nth_list_update fun_eq_iff)
  then show ?thesis by (simp add: ring_of_def del: nexts_update prevs_update)
qed

lemma ring_next_le:
  assumes "ring_of bs xs" and "i = NBUF \<or> i \<in> set xs"
  shows "b_next (bs ! i) \<le> NBUF" and "b_prev (bs ! i) \<le> NBUF"
proof -
  let ?ys = "NBUF # xs"
  have 1: "b_next (bs ! i) \<in> set (NBUF # xs)" if "dseg (nexts bs) (prevs bs) a zs NBUF"
    "i \<in> set (a # zs)" "set zs \<subseteq> set xs" for a zs
    using that by (induction zs arbitrary: a) (auto dest: dseg_next)
  have 2: "b_prev (bs ! i) \<in> set (NBUF # xs)" if "dseg (prevs bs) (nexts bs) a zs NBUF"
    "i \<in> set (a # zs)" "set zs \<subseteq> set xs" for a zs
    using that by (induction zs arbitrary: a) (auto dest: dseg_next)
  from assms have "set xs \<subseteq> {..<NBUF}" by (simp add: ring_of_def)
  then have sub: "set (NBUF # xs) \<subseteq> {..NBUF}" by auto
  show "b_next (bs ! i) \<le> NBUF"
    using 1 [of NBUF xs] assms sub by (auto simp: ring_of_def)
  have "dseg (prevs bs) (nexts bs) NBUF (rev xs) NBUF"
    using assms dseg_rev [of "nexts bs" "prevs bs"] by (simp add: ring_of_def)
  then show "b_prev (bs ! i) \<le> NBUF"
    using 2 [of NBUF "rev xs"] assms sub by (auto simp: ring_of_def)
qed

lemma push_front_ring:
  assumes "ring_of bs xs" and "b < NBUF" and "b \<notin> set xs"
  shows "ring_of (push_front b bs) (b # xs)"
proof -
  have f: "b_next (bs ! NBUF) \<le> NBUF" using ring_next_le [OF assms(1), of NBUF] by simp
  have len: "length bs = Suc NBUF" using assms(1) by (simp add: ring_of_def)
  have b: "bs[b := x] ! NBUF = bs ! NBUF" for x using assms(2) by simp
  define n where "n = b_next (bs ! NBUF)"
  have "nexts (push_front b bs) = (nexts bs)(b := n, NBUF := b)"
    using f len assms(2)
    by (auto simp: push_front_def Let_def fun_eq_iff nth_list_update n_def)
  moreover have "prevs (push_front b bs) = (prevs bs)(b := NBUF, n := b)"
    using f len assms(2)
    by (auto simp: push_front_def Let_def fun_eq_iff nth_list_update n_def)
  moreover have "distinct (NBUF # xs)" using assms(1) by (auto simp: ring_of_def)
  ultimately show ?thesis
    using assms ring_insert [of "nexts bs" "prevs bs" NBUF xs b]
    by (simp add: ring_of_def push_front_def Let_def n_def [symmetric])
qed

lemma unlink_buf_ring:
  assumes "ring_of bs (xs @ b # ys)"
  shows "ring_of (unlink_buf b bs) (xs @ ys)"
proof -
  have len: "length bs = Suc NBUF" and b: "b < NBUF"
    and dist: "distinct (NBUF # xs @ b # ys)" using assms by (auto simp: ring_of_def)
  have n: "b_next (bs ! b) \<le> NBUF" and p: "b_prev (bs ! b) \<le> NBUF"
    using ring_next_le [OF assms, of b] by auto
  have seg: "dseg (nexts bs) (prevs bs) NBUF (xs @ b # ys) NBUF" using assms by (simp add: ring_of_def)
  have "b_next (bs ! b) \<noteq> b"
    using seg dist dseg_next [of "nexts bs" "prevs bs" b ys NBUF] by (cases ys) auto
  then have "nexts (unlink_buf b bs) = (nexts bs)(b_prev (bs ! b) := b_next (bs ! b))"
    and "prevs (unlink_buf b bs) = (prevs bs)(b_next (bs ! b) := b_prev (bs ! b))"
    using n p len by (auto simp: unlink_buf_def Let_def fun_eq_iff nth_list_update)
  moreover have "length (unlink_buf b bs) = Suc NBUF"
    using len by (simp add: unlink_buf_def Let_def)
  ultimately show ?thesis
    using ring_unlink [OF seg dist] assms by (auto simp: ring_of_def)
qed

lemma links_frame [simp]:
  "length (push_front b bs) = length bs" "length (unlink_buf b bs) = length bs"
  "b_valid (push_front b bs ! i) = b_valid (bs ! i)" "b_valid (unlink_buf b bs ! i) = b_valid (bs ! i)"
  "b_dirty (push_front b bs ! i) = b_dirty (bs ! i)" "b_dirty (unlink_buf b bs ! i) = b_dirty (bs ! i)"
  "b_dev (push_front b bs ! i) = b_dev (bs ! i)" "b_dev (unlink_buf b bs ! i) = b_dev (bs ! i)"
  "b_blockno (push_front b bs ! i) = b_blockno (bs ! i)"
  "b_blockno (unlink_buf b bs ! i) = b_blockno (bs ! i)"
  "b_lock (push_front b bs ! i) = b_lock (bs ! i)" "b_lock (unlink_buf b bs ! i) = b_lock (bs ! i)"
  "b_refcnt (push_front b bs ! i) = b_refcnt (bs ! i)"
  "b_refcnt (unlink_buf b bs ! i) = b_refcnt (bs ! i)"
  "b_data (push_front b bs ! i) = b_data (bs ! i)" "b_data (unlink_buf b bs ! i) = b_data (bs ! i)"
  by (simp_all add: push_front_def unlink_buf_def Let_def nth_upd)

lemma release_lru:
  assumes "lru bs xs" and "b < NBUF"
  shows "\<exists>ys. lru (push_front b (unlink_buf b bs)) (b # ys)"
proof -
  from assms obtain us vs where xs: "xs = us @ b # vs"
    by (metis lru_def lessThan_iff split_list)
  have "ring_of (unlink_buf b bs) (us @ vs)"
    using assms xs by (auto simp: lru_def intro: unlink_buf_ring)
  then have "ring_of (push_front b (unlink_buf b bs)) (b # us @ vs)"
    using assms xs by (intro push_front_ring) (auto simp: lru_def ring_of_def)
  moreover have "set (b # us @ vs) = {..<NBUF}" using assms xs by (auto simp: lru_def)
  ultimately show ?thesis unfolding lru_def by blast
qed

lemma scan_dseg:
  assumes "dseg (\<lambda>i. link (bs ! i)) pv a xs NBUF" and "NBUF \<notin> set xs"
    and "set xs \<subseteq> {..<length bs}" and "length xs < fuel"
  shows "scan fuel link P bs (link (bs ! a)) = Ok (List.find (\<lambda>i. P (bs ! i)) xs)"
  using assms
proof (induction xs arbitrary: a fuel)
  case Nil
  then show ?case by (cases fuel) auto
next
  case (Cons x xs)
  then obtain f where "fuel = Suc f" by (cases fuel) auto
  with Cons show ?case by auto
qed

lemma lru_length: "lru bs xs \<Longrightarrow> length xs = NBUF"
  by (metis card_lessThan distinct_card lru_def ring_of_def)

lemma scan_next:
  assumes "lru bs xs"
  shows "scan (Suc NBUF) b_next P bs (b_next (bs ! NBUF)) = Ok (List.find (\<lambda>i. P (bs ! i)) xs)"
  using assms lru_length [OF assms]
  by (intro scan_dseg [where pv = "prevs bs"]) (auto simp: lru_def ring_of_def)

lemma scan_prev:
  assumes "lru bs xs"
  shows "scan (Suc NBUF) b_prev P bs (b_prev (bs ! NBUF)) = Ok (List.find (\<lambda>i. P (bs ! i)) (rev xs))"
  using assms lru_length [OF assms] dseg_rev [of "nexts bs" "prevs bs" NBUF xs NBUF]
  by (intro scan_dseg [where pv = "nexts bs"]) (auto simp: lru_def ring_of_def)

lemma find_lru_Some:
  assumes "lru bs xs" and "List.find P xs = Some i"
  shows "i < NBUF" and "P i"
  using assms by (auto simp: find_Some_iff lru_def)

lemma find_lru_ex:
  assumes "lru bs xs" and "i < NBUF" and "P i"
  shows "\<exists>j. List.find P xs = Some j" and "\<exists>j. List.find P (rev xs) = Some j"
proof -
  have "i \<in> set xs" using assms by (simp add: lru_def)
  then show "\<exists>j. List.find P xs = Some j" and "\<exists>j. List.find P (rev xs) = Some j"
    using assms(3) by (metis find_None_iff not_None_eq set_rev)+
qed

end
