(* ===== verification/Cache_Laws.thy ===== *)
theory Cache_Laws
  imports Buffer_Cache
begin

text \<open>
  The invariant of the buffer cache and the contract it offers its clients. \<open>binv s H\<close> holds
  between operations of a process that holds the buffers \<open>H\<close> and no other process holds any:
  the LRU list is well formed, no two buffers cache the same block, a buffer that is neither
  held nor pinned agrees with the disk. \<open>bview s\<close> is the content of the blocks as clients see it
  through the cache.

  The locale \<open>block_cache\<close> states the contract; the client lemmas about reading, overwriting and
  copying blocks are proved once from it. It is interpreted on the definitions of \<open>bio.c\<close>.
\<close>

section \<open>Invariant and views\<close>

definition buf_ok :: "'a bio_scheme \<Rightarrow> bool \<Rightarrow> buf \<Rightarrow> bool" where
  "buf_ok s held b \<longleftrightarrow>
     length (b_data b) = BSIZE \<and>
     (b_valid b \<longleftrightarrow> b_dev b = 1) \<and>
     (b_dev b = 1 \<longrightarrow> b_blockno b < disksize s) \<and>
     (b_dirty b \<longrightarrow> b_valid b) \<and>
     (if held then holdingsleep (mypid s) (b_lock b) \<and> b_refcnt b = 1 \<and> b_valid b
      else \<not> sl_locked (b_lock b) \<and> b_refcnt b = 0 \<and>
           (b_valid b \<and> \<not> b_dirty b \<longrightarrow> b_data b = disk s (b_blockno b)))"

definition binv :: "'a bio_scheme \<Rightarrow> nat set \<Rightarrow> bool" where
  "binv s H \<longleftrightarrow>
     (\<exists>xs. lru (bufs s) xs) \<and> H \<subseteq> {..<NBUF} \<and>
     (\<forall>i < NBUF. buf_ok s (i \<in> H) (bufs s ! i)) \<and>
     (\<forall>i < NBUF. \<forall>j < NBUF. b_dev (bufs s ! i) = 1 \<longrightarrow> b_dev (bufs s ! j) = 1 \<longrightarrow>
        b_blockno (bufs s ! i) = b_blockno (bufs s ! j) \<longrightarrow> i = j) \<and>
     (\<forall>n. length (disk s n) = BSIZE)"

definition cached_at :: "'a bio_scheme \<Rightarrow> uint \<Rightarrow> nat option" where
  "cached_at s n = List.find (\<lambda>i. b_dev (bufs s ! i) = 1 \<and> b_blockno (bufs s ! i) = n) [0..<NBUF]"

definition bview :: "'a bio_scheme \<Rightarrow> uint \<Rightarrow> byte list" where
  "bview s n = (case cached_at s n of Some i \<Rightarrow> bdata s i | None \<Rightarrow> disk s n)"

definition blk :: "'a bio_scheme \<Rightarrow> nat \<Rightarrow> uint" where
  "blk s i = b_blockno (bufs s ! i)"

definition dblocks :: "'a bio_scheme \<Rightarrow> uint set" where
  "dblocks s = {blk s i | i. i < NBUF \<and> b_dirty (bufs s ! i)}"

definition benv :: "'a bio_scheme \<Rightarrow> uint \<times> int \<times> 'a" where
  "benv s = (disksize s, mypid s, bio.more s)"

section \<open>The contract\<close>

locale block_cache =
  fixes bread :: "uint \<Rightarrow> 's \<Rightarrow> (nat \<times> 's) outcome"
    and bwrite :: "nat \<Rightarrow> 's \<Rightarrow> 's outcome"
    and brelse :: "nat \<Rightarrow> 's \<Rightarrow> 's outcome"
    and bset :: "nat \<Rightarrow> byte list \<Rightarrow> 's \<Rightarrow> 's"
    and data :: "'s \<Rightarrow> nat \<Rightarrow> byte list"
    and blk :: "'s \<Rightarrow> nat \<Rightarrow> uint"
    and inv :: "'s \<Rightarrow> nat set \<Rightarrow> bool"
    and view :: "'s \<Rightarrow> uint \<Rightarrow> byte list"
    and disk :: "'s \<Rightarrow> uint \<Rightarrow> byte list"
    and pinned :: "'s \<Rightarrow> uint set"
    and writes :: "'s \<Rightarrow> (uint \<times> byte list) list"
    and size :: "'s \<Rightarrow> uint"
    and env :: "'s \<Rightarrow> 'e"
    and cap :: nat
    and bsz :: nat
  assumes size_env: "env s = env s' \<Longrightarrow> size s = size s'"
    and view_length: "inv s H \<Longrightarrow> length (view s n) = bsz"
    and coherent: "inv s H \<Longrightarrow> n \<notin> blk s ` H \<Longrightarrow> n \<notin> pinned s \<Longrightarrow> view s n = disk s n"
    and bread_ok:
      "inv s H \<Longrightarrow> n < size s \<Longrightarrow> n \<notin> blk s ` H \<Longrightarrow>
       n \<in> pinned s \<or> card (pinned s \<union> blk s ` H) < cap \<Longrightarrow>
       \<exists>b s'. bread n s = Ok (b, s') \<and> b \<notin> H \<and> inv s' (insert b H) \<and> blk s' b = n \<and>
         data s' b = view s n \<and> view s' = view s \<and> disk s' = disk s \<and> pinned s' = pinned s \<and>
         writes s' = writes s \<and> env s' = env s \<and>
         (\<forall>i \<in> H. blk s' i = blk s i \<and> data s' i = data s i)"
    and bset_ok:
      "inv s H \<Longrightarrow> b \<in> H \<Longrightarrow> length d = bsz \<Longrightarrow>
       inv (bset b d s) H \<and> data (bset b d s) b = d \<and> view (bset b d s) = (view s)(blk s b := d) \<and>
       disk (bset b d s) = disk s \<and> pinned (bset b d s) = pinned s \<and>
       writes (bset b d s) = writes s \<and> env (bset b d s) = env s \<and> blk (bset b d s) = blk s \<and>
       (\<forall>i \<in> H - {b}. data (bset b d s) i = data s i)"
    and bwrite_ok:
      "inv s H \<Longrightarrow> b \<in> H \<Longrightarrow>
       \<exists>s'. bwrite b s = Ok s' \<and> inv s' H \<and> view s' = view s \<and>
         disk s' = (disk s)(blk s b := data s b) \<and> pinned s' = pinned s - {blk s b} \<and>
         writes s' = writes s @ [(blk s b, data s b)] \<and> env s' = env s \<and> blk s' = blk s \<and>
         data s' = data s"
    and brelse_ok:
      "inv s H \<Longrightarrow> b \<in> H \<Longrightarrow> blk s b \<in> pinned s \<or> data s b = disk s (blk s b) \<Longrightarrow>
       \<exists>s'. brelse b s = Ok s' \<and> inv s' (H - {b}) \<and> view s' = view s \<and> disk s' = disk s \<and>
         pinned s' = pinned s \<and> writes s' = writes s \<and> env s' = env s \<and> blk s' = blk s \<and>
         data s' = data s"
    and blk_inj: "inv s H \<Longrightarrow> i \<in> H \<Longrightarrow> j \<in> H \<Longrightarrow> blk s i = blk s j \<Longrightarrow> i = j"
begin

text \<open>Reading a block and releasing it again changes nothing a client can see.\<close>

lemma read_release:
  assumes "inv s {}" and "n < size s" and "card (pinned s) < cap"
  obtains b s1 s2 where "bread n s = Ok (b, s1)" and "brelse b s1 = Ok s2" and "data s1 b = view s n"
    and "inv s2 {}" and "view s2 = view s" and "disk s2 = disk s" and "pinned s2 = pinned s"
    and "writes s2 = writes s" and "env s1 = env s" and "env s2 = env s"
proof -
  from bread_ok [OF assms(1,2)] assms(3) obtain b s1 where r: "bread n s = Ok (b, s1)"
      "inv s1 {b}" "blk s1 b = n" "data s1 b = view s n" "view s1 = view s" "disk s1 = disk s"
      "pinned s1 = pinned s" "writes s1 = writes s" "env s1 = env s"
    by auto
  from coherent [OF assms(1)] r have "blk s1 b \<in> pinned s1 \<or> data s1 b = disk s1 (blk s1 b)" by auto
  from brelse_ok [OF r(2) _ this] r that show thesis by auto
qed

text \<open>Read a block, replace its content and write it through.\<close>

lemma overwrite_block:
  assumes "inv s {}" and "n < size s" and "card (pinned s) < cap"
    and f: "\<And>d. length d = bsz \<Longrightarrow> length (f d) = bsz"
  obtains b s1 s2 s3 where "bread n s = Ok (b, s1)" and "data s1 b = view s n" and "env s1 = env s"
    and "bwrite b (bset b (f (view s n)) s1) = Ok s2" and "brelse b s2 = Ok s3"
    and "inv s3 {}" and "view s3 = (view s)(n := f (view s n))"
    and "disk s3 = (disk s)(n := f (view s n))" and "pinned s3 = pinned s - {n}"
    and "writes s3 = writes s @ [(n, f (view s n))]" and "env s3 = env s"
proof -
  let ?d = "f (view s n)"
  from bread_ok [OF assms(1,2)] assms(3) obtain b s1 where r: "bread n s = Ok (b, s1)"
      "inv s1 {b}" "blk s1 b = n" "data s1 b = view s n" "view s1 = view s" "disk s1 = disk s"
      "pinned s1 = pinned s" "writes s1 = writes s" "env s1 = env s"
    by auto
  have "length ?d = bsz" using f view_length [OF assms(1)] by blast
  from bset_ok [OF r(2) _ this, of b] have t: "inv (bset b ?d s1) {b}" "data (bset b ?d s1) b = ?d"
      "view (bset b ?d s1) = (view s)(n := ?d)" "disk (bset b ?d s1) = disk s"
      "pinned (bset b ?d s1) = pinned s" "writes (bset b ?d s1) = writes s"
      "env (bset b ?d s1) = env s" "blk (bset b ?d s1) b = n"
    using r by auto
  from bwrite_ok [OF t(1), of b] t obtain s2 where w: "bwrite b (bset b ?d s1) = Ok s2" "inv s2 {b}"
      "view s2 = (view s)(n := ?d)" "disk s2 = (disk s)(n := ?d)" "pinned s2 = pinned s - {n}"
      "writes s2 = writes s @ [(n, ?d)]" "env s2 = env s" "blk s2 b = n" "data s2 b = ?d"
    by auto
  from brelse_ok [OF w(2), of b] w r that show thesis by auto
qed

text \<open>Copy one block over another, through two buffers, in either order of the reads.\<close>

lemma copy_block:
  assumes "inv s {}" and "src < size s" and "dst < size s" and "src \<noteq> dst"
    and room: "card (pinned s) < cap" "dst \<in> pinned s \<or> card (insert src (pinned s)) < cap"
  obtains b1 s1 b2 s2 s3 s4 s5 where "bread src s = Ok (b1, s1)" and "bread dst s1 = Ok (b2, s2)"
    and "data s2 b1 = view s src" and "env s1 = env s" and "env s2 = env s"
    and "bwrite b2 (bset b2 (view s src) s2) = Ok s3" and "env s3 = env s"
    and "brelse b1 s3 = Ok s4" and "env s4 = env s" and "brelse b2 s4 = Ok s5"
    and "inv s5 {}" and "view s5 = (view s)(dst := view s src)"
    and "disk s5 = (disk s)(dst := view s src)" and "pinned s5 = pinned s - {dst}"
    and "writes s5 = writes s @ [(dst, view s src)]" and "env s5 = env s"
proof -
  let ?d = "view s src"
  obtain b1 s1 where r: "bread src s = Ok (b1, s1)"
      "inv s1 {b1}" "blk s1 b1 = src" "data s1 b1 = ?d" "view s1 = view s" "disk s1 = disk s"
      "pinned s1 = pinned s" "writes s1 = writes s" "env s1 = env s"
    using bread_ok [OF assms(1,2)] room(1) by auto
  have "dst < size s1" using assms(3) size_env [OF r(9)] by simp
  from bread_ok [OF r(2) this] r room(2) assms(4) obtain b2 s2 where q: "bread dst s1 = Ok (b2, s2)"
      "b2 \<noteq> b1" "inv s2 {b1, b2}" "blk s2 b2 = dst" "view s2 = view s" "disk s2 = disk s"
      "pinned s2 = pinned s" "writes s2 = writes s" "env s2 = env s" "blk s2 b1 = src"
      "data s2 b1 = ?d"
    by (auto simp: insert_commute Un_insert_right)
  have l: "length ?d = bsz" by (rule view_length [OF assms(1)])
  from bset_ok [OF q(3) _ l, of b2] have t: "inv (bset b2 ?d s2) {b1, b2}"
      "data (bset b2 ?d s2) b2 = ?d" "data (bset b2 ?d s2) b1 = ?d"
      "view (bset b2 ?d s2) = (view s)(dst := ?d)" "disk (bset b2 ?d s2) = disk s"
      "pinned (bset b2 ?d s2) = pinned s" "writes (bset b2 ?d s2) = writes s"
      "env (bset b2 ?d s2) = env s" "blk (bset b2 ?d s2) = blk s2"
    using q by auto
  from bwrite_ok [OF t(1), of b2] t q obtain s3 where w: "bwrite b2 (bset b2 ?d s2) = Ok s3"
      "inv s3 {b1, b2}" "view s3 = (view s)(dst := ?d)" "disk s3 = (disk s)(dst := ?d)"
      "pinned s3 = pinned s - {dst}" "writes s3 = writes s @ [(dst, ?d)]" "env s3 = env s"
      "blk s3 b1 = src" "blk s3 b2 = dst" "data s3 b1 = ?d" "data s3 b2 = ?d"
    by auto
  have "blk s3 b1 \<in> pinned s3 \<or> data s3 b1 = disk s3 (blk s3 b1)"
    using coherent [OF assms(1), of src] w assms(4) by auto
  from brelse_ok [OF w(2) _ this] w q(2) obtain s4 where x: "brelse b1 s3 = Ok s4" "inv s4 {b2}"
      "view s4 = view s3" "disk s4 = disk s3" "pinned s4 = pinned s3" "writes s4 = writes s3"
      "env s4 = env s3" "blk s4 b2 = dst" "data s4 b2 = ?d"
    by (auto simp: insert_Diff_if)
  from brelse_ok [OF x(2), of b2] x w r q that show thesis by auto
qed

lemma copy_block_dst_first:
  assumes "inv s {}" and "src < size s" and "dst < size s" and "src \<noteq> dst"
    and room: "card (pinned s) < cap" "src \<in> pinned s \<or> card (insert dst (pinned s)) < cap"
  obtains b1 s1 b2 s2 s3 s4 s5 where "bread dst s = Ok (b1, s1)" and "bread src s1 = Ok (b2, s2)"
    and "data s2 b2 = view s src" and "env s1 = env s" and "env s2 = env s"
    and "bwrite b1 (bset b1 (view s src) s2) = Ok s3" and "env s3 = env s"
    and "brelse b2 s3 = Ok s4" and "env s4 = env s" and "brelse b1 s4 = Ok s5"
    and "inv s5 {}" and "view s5 = (view s)(dst := view s src)"
    and "disk s5 = (disk s)(dst := view s src)" and "pinned s5 = pinned s - {dst}"
    and "writes s5 = writes s @ [(dst, view s src)]" and "env s5 = env s"
proof -
  let ?d = "view s src"
  obtain b1 s1 where r: "bread dst s = Ok (b1, s1)"
      "inv s1 {b1}" "blk s1 b1 = dst" "view s1 = view s" "disk s1 = disk s"
      "pinned s1 = pinned s" "writes s1 = writes s" "env s1 = env s"
    using bread_ok [OF assms(1,3)] room(1) by auto
  have "src < size s1" using assms(2) size_env [OF r(8)] by simp
  from bread_ok [OF r(2) this] r room(2) assms(4) obtain b2 s2 where q: "bread src s1 = Ok (b2, s2)"
      "b2 \<noteq> b1" "inv s2 {b1, b2}" "blk s2 b2 = src" "view s2 = view s" "disk s2 = disk s"
      "pinned s2 = pinned s" "writes s2 = writes s" "env s2 = env s" "blk s2 b1 = dst"
      "data s2 b2 = ?d"
    by (auto simp: insert_commute Un_insert_right)
  have l: "length ?d = bsz" by (rule view_length [OF assms(1)])
  from bset_ok [OF q(3) _ l, of b1] q have t: "inv (bset b1 ?d s2) {b1, b2}"
      "data (bset b1 ?d s2) b2 = ?d" "data (bset b1 ?d s2) b1 = ?d"
      "view (bset b1 ?d s2) = (view s)(dst := ?d)" "disk (bset b1 ?d s2) = disk s"
      "pinned (bset b1 ?d s2) = pinned s" "writes (bset b1 ?d s2) = writes s"
      "env (bset b1 ?d s2) = env s" "blk (bset b1 ?d s2) = blk s2"
    by auto
  from bwrite_ok [OF t(1), of b1] t q obtain s3 where w: "bwrite b1 (bset b1 ?d s2) = Ok s3"
      "inv s3 {b1, b2}" "view s3 = (view s)(dst := ?d)" "disk s3 = (disk s)(dst := ?d)"
      "pinned s3 = pinned s - {dst}" "writes s3 = writes s @ [(dst, ?d)]" "env s3 = env s"
      "blk s3 b2 = src" "blk s3 b1 = dst" "data s3 b1 = ?d" "data s3 b2 = ?d"
    by auto
  have "blk s3 b2 \<in> pinned s3 \<or> data s3 b2 = disk s3 (blk s3 b2)"
    using coherent [OF assms(1), of src] w assms(4) by auto
  from brelse_ok [OF w(2) _ this] w q(2) obtain s4 where x: "brelse b2 s3 = Ok s4" "inv s4 {b1}"
      "view s4 = view s3" "disk s4 = disk s3" "pinned s4 = pinned s3" "writes s4 = writes s3"
      "env s4 = env s3" "blk s4 b1 = dst" "data s4 b1 = ?d"
    by (auto simp: insert_Diff_if)
  from brelse_ok [OF x(2), of b1] x w r q that show thesis by auto
qed

end

section \<open>The cache keeps the contract\<close>

lemma binvD:
  assumes "binv s H"
  shows "\<exists>xs. lru (bufs s) xs" and "H \<subseteq> {..<NBUF}" and "length (bufs s) = Suc NBUF"
    and "\<And>i. i < NBUF \<Longrightarrow> buf_ok s (i \<in> H) (bufs s ! i)"
    and "\<And>i j. i < NBUF \<Longrightarrow> j < NBUF \<Longrightarrow> b_dev (bufs s ! i) = 1 \<Longrightarrow> b_dev (bufs s ! j) = 1 \<Longrightarrow>
           b_blockno (bufs s ! i) = b_blockno (bufs s ! j) \<Longrightarrow> i = j"
    and "\<And>n. length (disk s n) = BSIZE"
  using assms unfolding binv_def lru_def ring_of_def by blast+

lemma held_ok:
  assumes "binv s H" and "i \<in> H"
  shows "i < NBUF" and "b_dev (bufs s ! i) = 1" and "b_valid (bufs s ! i)"
    and "holdingsleep (mypid s) (b_lock (bufs s ! i))" and "b_refcnt (bufs s ! i) = 1"
    and "b_blockno (bufs s ! i) < disksize s"
  using binvD(2,4) [OF assms(1)] assms(2) by (force simp: buf_ok_def)+

lemma bview_cached:
  assumes "binv s H" and "i < NBUF" and "b_dev (bufs s ! i) = 1"
  shows "cached_at s (blk s i) = Some i" and "bview s (blk s i) = bdata s i"
proof -
  have "\<exists>j. cached_at s (blk s i) = Some j"
    using assms(2,3) unfolding cached_at_def blk_def
    by (metis (mono_tags, lifting) atLeast0LessThan find_None_iff lessThan_iff not_None_eq set_upt)
  then obtain j where j: "cached_at s (blk s i) = Some j" by blast
  then have "j < NBUF" and "b_dev (bufs s ! j) = 1" and "b_blockno (bufs s ! j) = blk s i"
    unfolding cached_at_def by (auto simp: find_Some_iff)
  then have "j = i" using binvD(5) [OF assms(1)] assms(2,3) by (simp add: blk_def)
  with j show "cached_at s (blk s i) = Some i" and "bview s (blk s i) = bdata s i"
    by (simp_all add: bview_def)
qed

lemma bview_uncached:
  assumes "\<And>i. i < NBUF \<Longrightarrow> b_dev (bufs s ! i) = 1 \<Longrightarrow> blk s i \<noteq> n"
  shows "bview s n = disk s n"
proof -
  have "cached_at s n = None" using assms by (auto simp: cached_at_def find_None_iff blk_def)
  then show ?thesis by (simp add: bview_def)
qed

text \<open>
  Two states whose buffers cache the same blocks with the same content have the same view.
\<close>

lemma bview_cong:
  assumes "\<And>i. i < NBUF \<Longrightarrow> b_dev (bufs s ! i) = b_dev (bufs t ! i)"
    and "\<And>i. i < NBUF \<Longrightarrow> b_dev (bufs s ! i) = 1 \<Longrightarrow> blk s i = blk t i"
    and "\<And>i. i < NBUF \<Longrightarrow> b_dev (bufs s ! i) = 1 \<Longrightarrow> bdata s i = bdata t i"
    and "\<And>n. (\<And>i. i < NBUF \<Longrightarrow> b_dev (bufs s ! i) = 1 \<Longrightarrow> blk s i \<noteq> n) \<Longrightarrow> disk s n = disk t n"
    and "binv s H" and "binv t H'"
  shows "bview s = bview t"
proof
  fix n
  show "bview s n = bview t n"
  proof (cases "\<exists>i < NBUF. b_dev (bufs s ! i) = 1 \<and> blk s i = n")
    case True
    then obtain i where "i < NBUF" "b_dev (bufs s ! i) = 1" "blk s i = n" by blast
    then show ?thesis
      using bview_cached(2) [OF assms(5)] bview_cached(2) [OF assms(6)] assms(1-3) by metis
  next
    case False
    then show ?thesis using bview_uncached [of s n] bview_uncached [of t n] assms(1,2,4) by metis
  qed
qed

lemma lru_update:
  assumes "lru bs xs" and "i < NBUF" and "b_next b = b_next (bs ! i)" and "b_prev b = b_prev (bs ! i)"
  shows "lru (bs[i := b]) xs"
  using assms ring_of_update [of i bs b xs] by (auto simp: lru_def ring_of_def)

lemma binv_update:
  assumes inv: "binv s H" and i: "i < NBUF" and H': "H' \<subseteq> {..<NBUF}" "H' - {i} = H - {i}"
    and links: "b_next b = b_next (bufs s ! i)" "b_prev b = b_prev (bufs s ! i)"
    and t: "bufs t = (bufs s)[i := b]" "disksize t = disksize s" "mypid t = mypid s"
    and d: "\<And>n. disk t n \<noteq> disk s n \<Longrightarrow> b_dev b = 1 \<and> n = b_blockno b" "\<And>n. length (disk t n) = BSIZE"
    and ok: "buf_ok t (i \<in> H') b"
    and uniq: "\<And>j. j < NBUF \<Longrightarrow> j \<noteq> i \<Longrightarrow> b_dev b = 1 \<Longrightarrow> b_dev (bufs s ! j) = 1 \<Longrightarrow>
                 b_blockno (bufs s ! j) \<noteq> b_blockno b"
  shows "binv t H'"
proof -
  note I = binvD [OF inv]
  have sel: "bufs t ! j = (if j = i then b else bufs s ! j)" if "j < NBUF" for j
    using that i I(3) t(1) by (simp add: nth_list_update)
  obtain xs where "lru (bufs s) xs" using I(1) by blast
  then have "lru (bufs t) xs" unfolding t(1) using i links by (rule lru_update)
  then have "\<exists>xs. lru (bufs t) xs" ..
  moreover have "buf_ok t (j \<in> H') (bufs t ! j)" if j: "j < NBUF" for j
  proof (cases "j = i")
    case True
    with ok sel j show ?thesis by simp
  next
    case False
    have "buf_ok s (j \<in> H) (bufs s ! j)" using I(4) j by blast
    moreover have "(j \<in> H') = (j \<in> H)" using H'(2) False by blast
    moreover have "disk t (b_blockno (bufs s ! j)) = disk s (b_blockno (bufs s ! j))"
      if "b_dev (bufs s ! j) = 1"
      using d(1) [of "b_blockno (bufs s ! j)"] uniq [OF j False _ that] by blast
    ultimately show ?thesis using False sel j t by (auto simp: buf_ok_def)
  qed
  moreover have "j = k" if "j < NBUF" "k < NBUF" "b_dev (bufs t ! j) = 1" "b_dev (bufs t ! k) = 1"
    "b_blockno (bufs t ! j) = b_blockno (bufs t ! k)" for j k
    using that sel [OF that(1)] sel [OF that(2)] I(5) [OF that(1,2)] uniq [of j] uniq [of k]
    by (cases "j = i"; cases "k = i") auto
  ultimately show ?thesis using H'(1) d(2) unfolding binv_def by simp
qed

lemma room_ex:
  assumes inv: "binv s H" and room: "card (dblocks s \<union> blk s ` H) < NBUF"
  shows "\<exists>i < NBUF. i \<notin> H \<and> \<not> b_dirty (bufs s ! i)"
proof (rule ccontr)
  assume "\<not> ?thesis"
  then have all: "i \<in> H \<or> b_dirty (bufs s ! i)" if "i < NBUF" for i using that by blast
  have dev: "b_dev (bufs s ! i) = 1" if "i < NBUF" for i
    using all [OF that] binvD(4) [OF inv that] unfolding buf_ok_def by argo
  have "inj_on (blk s) {..<NBUF}"
    using binvD(5) [OF inv] dev by (auto simp: inj_on_def blk_def)
  then have "card (blk s ` {..<NBUF}) = NBUF" by (simp add: card_image)
  moreover have "blk s ` {..<NBUF} \<subseteq> dblocks s \<union> blk s ` H"
    using all by (auto simp: dblocks_def)
  ultimately have "NBUF \<le> card (dblocks s \<union> blk s ` H)"
    by (metis card_mono finite_code)
  with room show False by simp
qed

declare scan.simps [simp del]

lemma find_SomeD: "List.find P xs = Some x \<Longrightarrow> x \<in> set xs \<and> P x"
  by (auto simp: find_Some_iff)

lemma bufs_bupd [simp]: "bufs (bupd i f s) = (bufs s)[i := f (bufs s ! i)]"
  "disk (bupd i f s) = disk s" "disksize (bupd i f s) = disksize s" "dwrites (bupd i f s) = dwrites s"
  "mypid (bupd i f s) = mypid s" "bio.more (bupd i f s) = bio.more s"
  by (simp_all add: bupd_def)

lemma bupd_bupd [simp]: "i < length (bufs s) \<Longrightarrow> bupd i f (bupd i g s) = bupd i (\<lambda>b. f (g b)) s"
  by (simp add: bupd_def)

definition taken :: "int \<Rightarrow> sleeplock" where
  "taken pid = \<lparr>sl_locked = True, sl_pid = pid\<rparr>"

lemma taken_eq [simp]: "lk\<lparr>sl_locked := True, sl_pid := p\<rparr> = taken p"
  by (cases lk) (simp add: taken_def)

lemma holdingsleep_taken [simp]: "holdingsleep p (taken p)"
  by (simp add: holdingsleep_def taken_def)

lemma bupd_cong: "f (bufs s ! i) = g (bufs s ! i) \<Longrightarrow> bupd i f s = bupd i g s"
  by (simp add: bupd_def)

lemma bread_hit:
  assumes inv: "binv s H" and i: "i < NBUF" "i \<notin> H" "b_dev (bufs s ! i) = 1"
  shows "bread 1 (blk s i) s = Ok (i, bupd i (\<lambda>b. b\<lparr>b_refcnt := 1, b_lock := taken (mypid s)\<rparr>) s)"
proof -
  note I = binvD [OF inv]
  obtain xs where xs: "lru (bufs s) xs" using I(1) by blast
  let ?P = "\<lambda>b. b_dev b = 1 \<and> b_blockno b = blk s i"
  obtain j where j: "List.find (\<lambda>j. ?P (bufs s ! j)) xs = Some j"
    using find_lru_ex(1) [OF xs i(1), of "\<lambda>j. ?P (bufs s ! j)"] i(3) by (auto simp: blk_def)
  have "j = i" using find_lru_Some [OF xs j] I(5) [of j i] i by (simp add: blk_def)
  then have sc: "scan (Suc NBUF) b_next ?P (bufs s) (b_next (bufs s ! NBUF)) = Ok (Some i)"
    using scan_next [OF xs, of ?P] j by simp
  have ok: "b_refcnt (bufs s ! i) = 0" "\<not> sl_locked (b_lock (bufs s ! i))" "b_valid (bufs s ! i)"
    using I(4) [OF i(1)] i(2,3) by (auto simp: buf_ok_def)
  have "i < length (bufs s)" using I(3) i(1) by simp
  then show ?thesis
    using ok i by (simp add: bread_def bget_def sc Let_def cong: bupd_cong)
qed

lemma bread_miss:
  assumes inv: "binv s H" and n: "n < disksize s" "\<And>i. i < NBUF \<Longrightarrow> b_dev (bufs s ! i) = 1 \<Longrightarrow> blk s i \<noteq> n"
    and room: "card (dblocks s \<union> blk s ` H) < NBUF"
  obtains i where "i < NBUF" and "i \<notin> H" and "\<not> b_dirty (bufs s ! i)"
    and "bread 1 n s = Ok (i, bupd i (\<lambda>b. b\<lparr>b_dev := 1, b_blockno := n, b_valid := True,
      b_dirty := False, b_refcnt := 1, b_lock := taken (mypid s), b_data := disk s n\<rparr>) s)"
proof -
  note I = binvD [OF inv]
  obtain xs where xs: "lru (bufs s) xs" using I(1) by blast
  let ?P = "\<lambda>b. b_dev b = 1 \<and> b_blockno b = n" and ?Q = "\<lambda>b. b_refcnt b = 0 \<and> \<not> b_dirty b"
  have "List.find (\<lambda>j. ?P (bufs s ! j)) xs = None"
    using n(2) xs by (auto simp: find_None_iff lru_def blk_def)
  then have sc: "scan (Suc NBUF) b_next ?P (bufs s) (b_next (bufs s ! NBUF)) = Ok None"
    using scan_next [OF xs, of ?P] by simp
  from room_ex [OF inv room] obtain k where "k < NBUF" "k \<notin> H" "\<not> b_dirty (bufs s ! k)" by blast
  moreover from this have "b_refcnt (bufs s ! k) = 0" using I(4) by (auto simp: buf_ok_def)
  ultimately obtain i where i: "List.find (\<lambda>j. ?Q (bufs s ! j)) (rev xs) = Some i"
    using find_lru_ex(2) [OF xs, of k "\<lambda>j. ?Q (bufs s ! j)"] by auto
  then have "i \<in> set xs" "?Q (bufs s ! i)" using find_SomeD by fastforce+
  then have ib: "i < NBUF" and q: "?Q (bufs s ! i)" using xs by (auto simp: lru_def)
  have "i \<notin> H" using I(4) [OF ib] q by (auto simp: buf_ok_def)
  then have ul: "\<not> sl_locked (b_lock (bufs s ! i))" using I(4) [OF ib] by (auto simp: buf_ok_def)
  have sp: "scan (Suc NBUF) b_prev ?Q (bufs s) (b_prev (bufs s ! NBUF)) = Ok (Some i)"
    using scan_prev [OF xs, of ?Q] i by simp
  have len: "i < length (bufs s)" using I(3) ib by simp
  have "bread 1 n s = Ok (i, bupd i (\<lambda>b. b\<lparr>b_dev := 1, b_blockno := n, b_valid := True,
      b_dirty := False, b_refcnt := 1, b_lock := taken (mypid s), b_data := disk s n\<rparr>) s)"
    using len ul n(1)
    by (simp add: bread_def bget_def sc sp Let_def iderw_def not_le) (auto intro: bupd_cong)
  with that ib \<open>i \<notin> H\<close> q show thesis by blast
qed


lemma bread_bio_ok:
  assumes inv: "binv s H" and n: "n < disksize s" "n \<notin> blk s ` H"
    and room: "n \<in> dblocks s \<or> card (dblocks s \<union> blk s ` H) < NBUF"
  shows "\<exists>b s'. bread 1 n s = Ok (b, s') \<and> b \<notin> H \<and> binv s' (insert b H) \<and> blk s' b = n \<and>
     bdata s' b = bview s n \<and> bview s' = bview s \<and> disk s' = disk s \<and> dblocks s' = dblocks s \<and>
     dwrites s' = dwrites s \<and> benv s' = benv s \<and>
     (\<forall>i \<in> H. blk s' i = blk s i \<and> bdata s' i = bdata s i)"
proof (cases "\<exists>i < NBUF. b_dev (bufs s ! i) = 1 \<and> blk s i = n")
  case True
  then obtain i where i: "i < NBUF" "b_dev (bufs s ! i) = 1" "blk s i = n" by blast
  note I = binvD [OF inv]
  have iH: "i \<notin> H" using n(2) i(3) by auto
  let ?f = "\<lambda>b. b\<lparr>b_refcnt := 1, b_lock := taken (mypid s)\<rparr>"
  define t where "t = bupd i ?f s"
  have sel: "bufs t ! j = (if j = i then ?f (bufs s ! i) else bufs s ! j)" for j
    using i(1) I(3) by (simp add: nth_upd t_def)
  have inv': "binv t (insert i H)"
  proof (rule binv_update [OF inv i(1)])
    show "bufs t = (bufs s)[i := ?f (bufs s ! i)]" by (simp add: t_def)
    show "buf_ok t (i \<in> insert i H) (?f (bufs s ! i))"
      using I(4) [OF i(1)] i iH by (simp add: buf_ok_def t_def)
    show "b_blockno (bufs s ! j) \<noteq> b_blockno (?f (bufs s ! i))"
      if "j < NBUF" "j \<noteq> i" "b_dev (bufs s ! j) = 1" for j
      using that I(5) [of j i] i by auto
  qed (use I i in \<open>auto simp: t_def\<close>)
  have "bview t = bview s"
    by (rule bview_cong [OF _ _ _ _ inv' inv], auto simp: sel blk_def, simp add: t_def)
  moreover have "dblocks t = dblocks s" by (auto simp: dblocks_def sel blk_def)
  moreover have "bdata t i = bview s n" using bview_cached(2) [OF inv i(1,2)] i(3) sel by simp
  ultimately show ?thesis
    using bread_hit [OF inv i(1) iH i(2), folded t_def] i(3) iH inv' sel
    by (intro exI [of _ i] exI [of _ t]) (auto simp: blk_def benv_def t_def)
next
  case False
  have "n \<notin> dblocks s"
    using False binvD(4) [OF inv] by (force simp: dblocks_def buf_ok_def)
  with False room obtain i where i: "i < NBUF" "i \<notin> H" "\<not> b_dirty (bufs s ! i)"
    and eq: "bread 1 n s = Ok (i, bupd i (\<lambda>b. b\<lparr>b_dev := 1, b_blockno := n, b_valid := True,
      b_dirty := False, b_refcnt := 1, b_lock := taken (mypid s), b_data := disk s n\<rparr>) s)"
    using bread_miss [OF inv n(1)] by blast
  note I = binvD [OF inv]
  let ?f = "\<lambda>b. b\<lparr>b_dev := 1, b_blockno := n, b_valid := True,
      b_dirty := False, b_refcnt := 1, b_lock := taken (mypid s), b_data := disk s n\<rparr>"
  define t where "t = bupd i ?f s"
  have sel: "bufs t ! j = (if j = i then ?f (bufs s ! i) else bufs s ! j)" for j
    using i(1) I(3) by (simp add: nth_upd t_def)
  have inv': "binv t (insert i H)"
  proof (rule binv_update [OF inv i(1)])
    show "bufs t = (bufs s)[i := ?f (bufs s ! i)]" by (simp add: t_def)
    show "buf_ok t (i \<in> insert i H) (?f (bufs s ! i))"
      using I(6) n(1) by (simp add: buf_ok_def t_def)
    show "b_blockno (bufs s ! j) \<noteq> b_blockno (?f (bufs s ! i))"
      if "j < NBUF" "j \<noteq> i" "b_dev (bufs s ! j) = 1" for j
      using that False by (auto simp: blk_def)
  qed (use I i in \<open>auto simp: t_def\<close>)
  have v: "bview t m = bview s m" for m
  proof (cases "\<exists>j < NBUF. b_dev (bufs t ! j) = 1 \<and> blk t j = m")
    case True
    then obtain j where j: "j < NBUF" "b_dev (bufs t ! j) = 1" "blk t j = m" by blast
    show ?thesis
    proof (cases "j = i")
      case True
      then have "m = n" using j sel by (simp add: blk_def)
      then show ?thesis
        using bview_cached(2) [OF inv' j(1,2)] bview_uncached [of s n] False True j sel by auto
    next
      case False
      then show ?thesis
        using bview_cached(2) [OF inv' j(1,2)] bview_cached(2) [OF inv j(1)] j sel
        by (auto simp: blk_def)
    qed
  next
    case none: False
    then have "m \<noteq> n" using i(1) sel by (force simp: blk_def)
    have "bview t m = disk t m" using none by (intro bview_uncached) auto
    also have "\<dots> = disk s m" by (simp add: t_def)
    finally have "bview t m = disk s m" .
    moreover have "bview s m = disk s m"
    proof (cases "b_dev (bufs s ! i) = 1 \<and> blk s i = m")
      case True
      then have "bview s m = bdata s i" using bview_cached(2) [OF inv i(1)] by auto
      then show ?thesis using I(4) [OF i(1)] i True by (auto simp: buf_ok_def blk_def)
    next
      case False
      show ?thesis
      proof (rule bview_uncached, rule notI)
        fix k
        assume k: "k < NBUF" "b_dev (bufs s ! k) = 1" "blk s k = m"
        then have "bufs t ! k = bufs s ! k" using False sel by auto
        with k none show False by (metis blk_def)
      qed
    qed
    ultimately show ?thesis by simp
  qed
  have "dblocks t = dblocks s" using i(3) sel by (force simp: dblocks_def blk_def)
  moreover have "bdata t i = bview s n" using bview_uncached [of s n] False sel by auto
  ultimately show ?thesis
    using eq [folded t_def] i inv' sel v by (intro exI [of _ i] exI [of _ t]) (auto simp: blk_def benv_def t_def)
qed


lemma bset_bio_ok:
  assumes inv: "binv s H" and b: "b \<in> H" and len: "length d = BSIZE"
  shows "binv (bset b d s) H \<and> bdata (bset b d s) b = d \<and> bview (bset b d s) = (bview s)(blk s b := d) \<and>
     disk (bset b d s) = disk s \<and> dblocks (bset b d s) = dblocks s \<and>
     dwrites (bset b d s) = dwrites s \<and> benv (bset b d s) = benv s \<and> blk (bset b d s) = blk s \<and>
     (\<forall>i \<in> H - {b}. bdata (bset b d s) i = bdata s i)"
proof -
  note I = binvD [OF inv] and h = held_ok [OF inv b]
  define t where "t = bset b d s"
  let ?f = "\<lambda>b. b\<lparr>b_data := d\<rparr>"
  have sel: "bufs t ! j = (if j = b then ?f (bufs s ! b) else bufs s ! j)" for j
    using h(1) I(3) by (simp add: nth_upd t_def bset_def)
  have env: "disk t = disk s" "dwrites t = dwrites s" "benv t = benv s" "disksize t = disksize s"
    by (simp_all add: t_def bset_def benv_def)
  have inv': "binv t H"
  proof (rule binv_update [OF inv h(1)])
    show "bufs t = (bufs s)[b := ?f (bufs s ! b)]" by (simp add: t_def bset_def)
    show "buf_ok t (b \<in> H) (?f (bufs s ! b))"
      using I(4) [OF h(1)] b h len by (simp add: buf_ok_def t_def bset_def)
    show "b_blockno (bufs s ! j) \<noteq> b_blockno (?f (bufs s ! b))"
      if "j < NBUF" "j \<noteq> b" "b_dev (bufs s ! j) = 1" for j
      using that I(5) [of j b] h by auto
  qed (use I in \<open>auto simp: t_def bset_def\<close>)
  have blk: "blk t = blk s" using sel by (auto simp: blk_def fun_eq_iff)
  have "bview t m = ((bview s)(blk s b := d)) m" for m
  proof (cases "\<exists>j < NBUF. b_dev (bufs s ! j) = 1 \<and> blk s j = m")
    case True
    then obtain j where j: "j < NBUF" "b_dev (bufs s ! j) = 1" "blk s j = m" by blast
    moreover have "b_dev (bufs t ! j) = 1" using j(2) sel by auto
    moreover have "(m = blk s b) = (j = b)" using I(5) [OF j(1) h(1) j(2) h(2)] j(3) by (auto simp: blk_def)
    ultimately show ?thesis
      using bview_cached(2) [OF inv' j(1)] bview_cached(2) [OF inv j(1)] blk sel by auto
  next
    case False
    then have "bview s m = disk s m" by (intro bview_uncached) blast
    moreover have "bview t m = disk t m" using False sel blk by (intro bview_uncached) (auto split: if_splits)
    moreover have "m \<noteq> blk s b" using False h by blast
    ultimately show ?thesis using env by simp
  qed
  moreover have "b_dirty (bufs t ! j) = b_dirty (bufs s ! j)" for j using sel by simp
  then have "dblocks t = dblocks s" using blk by (simp add: dblocks_def)
  ultimately show ?thesis
    using inv' env blk sel by (fold t_def) auto
qed

lemma bwrite_bio_ok:
  assumes inv: "binv s H" and b: "b \<in> H"
  shows "\<exists>s'. bwrite b s = Ok s' \<and> binv s' H \<and> bview s' = bview s \<and>
     disk s' = (disk s)(blk s b := bdata s b) \<and> dblocks s' = dblocks s - {blk s b} \<and>
     dwrites s' = dwrites s @ [(blk s b, bdata s b)] \<and> benv s' = benv s \<and> blk s' = blk s \<and>
     bdata s' = bdata s"
proof -
  note I = binvD [OF inv] and h = held_ok [OF inv b]
  let ?f = "\<lambda>b. b\<lparr>b_dirty := False, b_valid := True\<rparr>"
  define t where "t = (bupd b ?f s)\<lparr>disk := (disk s)(blk s b := bdata s b),
    dwrites := dwrites s @ [(blk s b, bdata s b)]\<rparr>"
  have len: "b < length (bufs s)" using h(1) I(3) by simp
  have "bwrite b s = Ok t"
    using h len by (simp add: bwrite_def iderw_def Let_def t_def blk_def bupd_def not_le)
  have sel: "bufs t ! j = (if j = b then ?f (bufs s ! b) else bufs s ! j)" for j
    using len by (simp add: nth_upd t_def)
  have inv': "binv t H"
  proof (rule binv_update [OF inv h(1)])
    show "bufs t = (bufs s)[b := ?f (bufs s ! b)]" by (simp add: t_def)
    show "buf_ok t (b \<in> H) (?f (bufs s ! b))"
      using I(4) [OF h(1)] b h by (simp add: buf_ok_def t_def)
    show "b_blockno (bufs s ! j) \<noteq> b_blockno (?f (bufs s ! b))"
      if "j < NBUF" "j \<noteq> b" "b_dev (bufs s ! j) = 1" for j
      using that I(5) [of j b] h by auto
    show "b_dev (?f (bufs s ! b)) = 1 \<and> n = b_blockno (?f (bufs s ! b))" if "disk t n \<noteq> disk s n" for n
      using that h by (auto simp: t_def blk_def split: if_splits)
    show "length (disk t n) = BSIZE" for n
      using I(4) [OF h(1)] I(6) by (simp add: t_def buf_ok_def)
  qed (use I in \<open>auto simp: t_def\<close>)
  have "bview t = bview s"
  proof (rule bview_cong [OF _ _ _ _ inv' inv])
    show "disk t n = disk s n" if "\<And>i. i < NBUF \<Longrightarrow> b_dev (bufs t ! i) = 1 \<Longrightarrow> blk t i \<noteq> n" for n
      using that [of b] h sel by (auto simp: t_def blk_def)
  qed (auto simp: sel blk_def)
  moreover have "dblocks t = dblocks s - {blk s b}"
  proof -
    have "blk s i \<noteq> blk s b" if "i < NBUF" "i \<noteq> b" "b_dirty (bufs s ! i)" for i
      using I(4) [OF that(1)] I(5) [OF that(1) h(1)] that h(2) by (auto simp: buf_ok_def blk_def)
    moreover have "dblocks t = {blk s i | i. i < NBUF \<and> i \<noteq> b \<and> b_dirty (bufs s ! i)}"
      unfolding dblocks_def using sel by (auto simp: blk_def)
    ultimately show ?thesis by (auto simp: dblocks_def)
  qed
  ultimately show ?thesis
    using \<open>bwrite b s = Ok t\<close> inv' sel by (auto simp: t_def benv_def blk_def fun_eq_iff)
qed

lemma brelse_bio_ok:
  assumes inv: "binv s H" and b: "b \<in> H" and coh: "blk s b \<in> dblocks s \<or> bdata s b = disk s (blk s b)"
  shows "\<exists>s'. brelse b s = Ok s' \<and> binv s' (H - {b}) \<and> bview s' = bview s \<and> disk s' = disk s \<and>
     dblocks s' = dblocks s \<and> dwrites s' = dwrites s \<and> benv s' = benv s \<and> blk s' = blk s \<and>
     bdata s' = bdata s"
proof -
  note I = binvD [OF inv] and h = held_ok [OF inv b]
  let ?f = "\<lambda>b. b\<lparr>b_lock := releasesleep (b_lock b), b_refcnt := 0\<rparr>"
  define u where "u = bupd b ?f s"
  define t where "t = u\<lparr>bufs := push_front b (unlink_buf b (bufs u))\<rparr>"
  have len: "b < length (bufs s)" using h(1) I(3) by simp
  have eq: "brelse b s = Ok t"
    using h len by (simp add: brelse_def Let_def t_def u_def bupd_def)
  have sel: "bufs u ! j = (if j = b then ?f (bufs s ! b) else bufs s ! j)" for j
    using len by (simp add: nth_upd u_def)
  have dirty: "b_dirty (bufs s ! b) \<or> bdata s b = disk s (blk s b)"
  proof -
    have "b_dirty (bufs s ! b)" if "blk s b \<in> dblocks s"
    proof -
      from that obtain i where i: "i < NBUF" "b_dirty (bufs s ! i)" "blk s i = blk s b"
        unfolding dblocks_def by auto
      then have "b_dev (bufs s ! i) = 1" using I(4) [OF i(1)] by (auto simp: buf_ok_def)
      then have "i = b" using I(5) [OF i(1) h(1)] i(3) h(2) by (simp add: blk_def)
      with i(2) show ?thesis by simp
    qed
    with coh show ?thesis by blast
  qed
  have inv': "binv u (H - {b})"
  proof (rule binv_update [OF inv h(1)])
    show "bufs u = (bufs s)[b := ?f (bufs s ! b)]" by (simp add: u_def)
    show "buf_ok u (b \<in> H - {b}) (?f (bufs s ! b))"
      using I(4) [OF h(1)] b dirty by (auto simp: buf_ok_def u_def releasesleep_def blk_def)
    show "b_blockno (bufs s ! j) \<noteq> b_blockno (?f (bufs s ! b))"
      if "j < NBUF" "j \<noteq> b" "b_dev (bufs s ! j) = 1" for j
      using that I(5) [of j b] h by auto
  qed (use I in \<open>auto simp: u_def\<close>)
  have tu: "b_dev (bufs t ! j) = b_dev (bufs u ! j)" "blk t j = blk u j" "bdata t j = bdata u j"
    "b_dirty (bufs t ! j) = b_dirty (bufs u ! j)" "buf_ok t h (bufs t ! j) = buf_ok u h (bufs u ! j)"
    "disk t = disk u" for j h
    by (simp_all add: t_def blk_def buf_ok_def)
  have "\<exists>xs. lru (bufs t) xs"
    using binvD(1) [OF inv'] release_lru [OF _ h(1)] by (auto simp: t_def)
  with inv' have inv'': "binv t (H - {b})"
    unfolding binv_def tu blk_def [symmetric] by simp
  have us: "b_dev (bufs u ! j) = b_dev (bufs s ! j)" "blk u j = blk s j" "bdata u j = bdata s j"
    "b_dirty (bufs u ! j) = b_dirty (bufs s ! j)" "disk u = disk s" for j
    using sel [of j] by (simp_all add: blk_def u_def)
  have "bview t = bview s"
    by (rule bview_cong [OF _ _ _ _ inv'' inv]) (simp_all add: tu us)
  moreover have "dblocks t = dblocks s" by (simp add: dblocks_def tu us)
  moreover have "dwrites t = dwrites s" "benv t = benv s" by (simp_all add: t_def u_def benv_def)
  ultimately show ?thesis
    using eq inv'' by (intro exI [of _ t]) (simp add: tu us fun_eq_iff)
qed

interpretation bc: block_cache "bread 1" bwrite brelse bset bdata blk binv bview disk dblocks dwrites
  disksize benv NBUF BSIZE
proof unfold_locales
  fix s :: "'a bio_scheme" and H n
  assume inv: "binv s H"
  show "length (bview s n) = BSIZE"
    using binvD(4,6) [OF inv] bview_cached(2) [OF inv] bview_uncached [of s n]
    by (cases "\<exists>i < NBUF. b_dev (bufs s ! i) = 1 \<and> blk s i = n") (auto simp: buf_ok_def)
  assume n: "n \<notin> blk s ` H" "n \<notin> dblocks s"
  show "bview s n = disk s n"
  proof (cases "\<exists>i < NBUF. b_dev (bufs s ! i) = 1 \<and> blk s i = n")
    case True
    then obtain i where i: "i < NBUF" "b_dev (bufs s ! i) = 1" "blk s i = n" by blast
    moreover have "i \<notin> H" "\<not> b_dirty (bufs s ! i)" using n i by (auto simp: dblocks_def)
    ultimately show ?thesis
      using bview_cached(2) [OF inv i(1,2)] binvD(4) [OF inv i(1)] by (auto simp: buf_ok_def blk_def)
  next
    case False
    then show ?thesis by (intro bview_uncached) blast
  qed
next
  show "blk s i = blk s j \<Longrightarrow> i = j" if "binv s H" "i \<in> H" "j \<in> H" for s :: "'a bio_scheme" and H i j
    using binvD(5) [OF that(1)] held_ok [OF that(1)] that(2,3) by (auto simp: blk_def)
next
  fix s :: "'a bio_scheme" and H b d
  assume "binv s H" and "b \<in> H"
  then show "length d = BSIZE \<Longrightarrow> binv (bset b d s) H \<and> bdata (bset b d s) b = d \<and>
       bview (bset b d s) = (bview s)(blk s b := d) \<and>
       disk (bset b d s) = disk s \<and> dblocks (bset b d s) = dblocks s \<and>
       dwrites (bset b d s) = dwrites s \<and> benv (bset b d s) = benv s \<and> blk (bset b d s) = blk s \<and>
       (\<forall>i \<in> H - {b}. bdata (bset b d s) i = bdata s i)"
    by (rule bset_bio_ok)
qed (rule bread_bio_ok bwrite_bio_ok brelse_bio_ok, assumption+ | simp add: benv_def)+

section \<open>The cache at boot\<close>

abbreviation binit_step :: "nat \<Rightarrow> buf list \<Rightarrow> buf list" where
  "binit_step b bs \<equiv> push_front b (bs[b := (bs ! b)\<lparr>b_lock := initsleeplock\<rparr>])"

lemma binit_ring:
  assumes "ring_of bs []" and "n \<le> NBUF"
  shows "ring_of (fold binit_step [0..<n] bs) (rev [0..<n])"
  using assms(2)
proof (induction n)
  case 0
  then show ?case using assms(1) by simp
next
  case (Suc n)
  let ?bs = "fold binit_step [0..<n] bs"
  have r: "ring_of ?bs (rev [0..<n])" using Suc by simp
  then have "n < length ?bs" using Suc.prems by (simp add: ring_of_def)
  then have "ring_of (?bs[n := (?bs ! n)\<lparr>b_lock := initsleeplock\<rparr>]) (rev [0..<n])"
    using r ring_of_update by auto
  then have "ring_of (binit_step n ?bs) (n # rev [0..<n])"
    using Suc.prems by (intro push_front_ring) auto
  then show ?case by simp
qed

lemma binit_lru:
  assumes "length bs = Suc NBUF"
  shows "lru (binit bs) (rev [0..<NBUF])"
proof -
  have "ring_of (bs[NBUF := (bs ! NBUF)\<lparr>b_prev := NBUF, b_next := NBUF\<rparr>]) []"
    using assms by (simp add: ring_of_def)
  from binit_ring [OF this order_refl] show ?thesis
    by (auto simp: lru_def binit_def)
qed

text \<open>Up to its links, every buffer of the initial cache is a zeroed one.\<close>

definition unlinked :: "buf \<Rightarrow> buf" where
  "unlinked b = b\<lparr>b_prev := 0, b_next := 0\<rparr>"

lemma unlinked_push_front [simp]: "unlinked (push_front b bs ! i) = unlinked (bs ! i)"
  by (simp add: push_front_def unlinked_def Let_def nth_upd)

lemma unlinked_binit_steps:
  assumes "\<And>i. i \<le> NBUF \<Longrightarrow> unlinked (bs ! i) = buf0"
  shows "i \<le> NBUF \<Longrightarrow> unlinked (fold binit_step [0..<n] bs ! i) = buf0"
proof (induction n arbitrary: i)
  case 0
  then show ?case using assms by simp
next
  case (Suc n)
  have "unlinked (b\<lparr>b_lock := initsleeplock\<rparr>) = buf0" if "unlinked b = buf0" for b
    using that by (cases b) (simp add: unlinked_def buf0_def)
  with Suc show ?case by (auto simp: nth_upd)
qed

lemma bcache0_buf: "i \<le> NBUF \<Longrightarrow> unlinked (bcache0 ! i) = buf0"
  unfolding bcache0_def binit_def
proof (rule unlinked_binit_steps)
  fix i
  assume "i \<le> NBUF"
  then have "replicate (Suc NBUF) buf0 ! i = buf0" and "replicate (Suc NBUF) buf0 ! NBUF = buf0"
    by (simp_all del: replicate_Suc)
  then show "unlinked ((replicate (Suc NBUF) buf0)
      [NBUF := (replicate (Suc NBUF) buf0 ! NBUF)\<lparr>b_prev := NBUF, b_next := NBUF\<rparr>] ! i) = buf0"
    by (simp add: nth_upd del: replicate_Suc) (simp add: unlinked_def buf0_def)
qed

lemma bcache0_sel:
  assumes "i \<le> NBUF"
  shows "b_valid (bcache0 ! i) = False" "b_dirty (bcache0 ! i) = False" "b_dev (bcache0 ! i) = 0"
    "b_refcnt (bcache0 ! i) = 0" "b_lock (bcache0 ! i) = initsleeplock"
    "b_data (bcache0 ! i) = replicate BSIZE 0"
  using bcache0_buf [OF assms] by (cases "bcache0 ! i"; simp add: unlinked_def buf0_def)+

lemma bcache0_binv:
  assumes "bufs s = bcache0" and "\<And>n. length (disk s n) = BSIZE"
  shows "binv s {}" and "bview s = disk s" and "dblocks s = {}"
proof -
  have "lru (bufs s) (rev [0..<NBUF])" using assms(1) binit_lru by (simp add: bcache0_def)
  then have "\<exists>xs. lru (bufs s) xs" ..
  then show "binv s {}"
    using assms by (simp add: binv_def buf_ok_def bcache0_sel initsleeplock_def)
  show "bview s = disk s"
    using bview_uncached [of s] assms(1) by (fastforce simp: bcache0_sel)
  show "dblocks s = {}" using assms(1) by (simp add: dblocks_def bcache0_sel)
qed

end
