(* ===== verification/Fs_Layout.thy ===== *)
theory Fs_Layout
  imports Cache_Laws
begin

text \<open>
  The on-disk format (\<^verbatim>\<open>fs.h\<close>): the super block and how it is read (\<^verbatim>\<open>readsb\<close> of
  \<^verbatim>\<open>fs.c\<close>). Structures are laid out in little-endian order without padding, as the x86
  ABI does for them.
\<close>

definition ROOTINO :: uint where "ROOTINO = 1"

record superblock =
  sb_size :: uint
  sb_nblocks :: uint
  sb_ninodes :: uint
  sb_nlog :: uint
  sb_logstart :: uint
  sb_inodestart :: uint
  sb_bmapstart :: uint

definition sb_bytes :: "superblock \<Rightarrow> byte list" where
  "sb_bytes sb = u32_bytes (sb_size sb) @ u32_bytes (sb_nblocks sb) @ u32_bytes (sb_ninodes sb) @
     u32_bytes (sb_nlog sb) @ u32_bytes (sb_logstart sb) @ u32_bytes (sb_inodestart sb) @
     u32_bytes (sb_bmapstart sb)"

definition word_at :: "byte list \<Rightarrow> nat \<Rightarrow> uint" where
  "word_at d off = bytes_u32 (chunk d off 4)"

definition bytes_sb :: "byte list \<Rightarrow> superblock" where
  "bytes_sb d = \<lparr>sb_size = word_at d 0, sb_nblocks = word_at d 4, sb_ninodes = word_at d 8,
     sb_nlog = word_at d 12, sb_logstart = word_at d 16, sb_inodestart = word_at d 20,
     sb_bmapstart = word_at d 24\<rparr>"

definition readsb :: "uint \<Rightarrow> 'a bio_scheme \<Rightarrow> (superblock \<times> 'a bio_scheme) outcome" where
  "readsb dev s =
     obind (bread dev 1 s) (\<lambda>(bp, s).
     let sb = bytes_sb (bdata s bp) in
     obind (brelse bp s) (\<lambda>s. Ok (sb, s)))"

lemma bytes_sb_sb_bytes [simp, codec]: "bytes_sb (sb_bytes sb @ rest) = sb"
proof -
  have drop: "drop n (u32_bytes w @ ys) = (if n < 4 then drop n (u32_bytes w) @ ys else drop (n - 4) ys)"
    for n w and ys :: "byte list"
    by simp
  have "word_at (u32_bytes w @ ys) 0 = w" for w ys by (simp add: word_at_def chunk_def)
  moreover have "word_at (u32_bytes w @ ys) n = word_at ys (n - 4)" if "4 \<le> n" for w ys n
    using that by (simp add: word_at_def chunk_def)
  ultimately show ?thesis by (simp add: bytes_sb_def sb_bytes_def)
qed

lemma word_at_patch_same [simp, codec]:
  "off + 4 \<le> length d \<Longrightarrow> word_at (patch d off (u32_bytes w)) off = w"
  by (simp add: word_at_def)

lemma word_at_patch_other [simp, codec]:
  "off + length ys \<le> length d \<Longrightarrow> o2 + 4 \<le> length d \<Longrightarrow> o2 + 4 \<le> off \<or> off + length ys \<le> o2 \<Longrightarrow>
   word_at (patch d off ys) o2 = word_at d o2"
  by (simp add: word_at_def)

lemma readsb_ok:
  assumes "binv s {}" and "1 < disksize s" and "card (dblocks s) < NBUF"
  obtains s' where "readsb 1 s = Ok (bytes_sb (bview s 1), s')" and "binv s' {}"
    and "bview s' = bview s" and "disk s' = disk s" and "dblocks s' = dblocks s"
    and "dwrites s' = dwrites s" and "benv s' = benv s"
proof -
  from bc.read_release [OF assms] obtain b s1 s2 where r: "bread 1 1 s = Ok (b, s1)"
    "brelse b s1 = Ok s2" "bdata s1 b = bview s 1" "binv s2 {}" "bview s2 = bview s"
    "disk s2 = disk s" "dblocks s2 = dblocks s" "dwrites s2 = dwrites s" "benv s2 = benv s"
    by metis
  with that show thesis by (simp add: readsb_def)
qed

end
