(* ===== verification/Log.thy ===== *)
theory Log
  imports Fs_Layout
begin

text \<open>
  The redo log (\<^verbatim>\<open>log.c\<close>). The in-memory \<^verbatim>\<open>struct log\<close> extends the state of the buffer
  cache. Block numbers are words; \<^verbatim>\<open>lh.n\<close>, \<^verbatim>\<open>size\<close> and \<^verbatim>\<open>outstanding\<close> are C
  integers. The spin lock \<^verbatim>\<open>log.lock\<close> makes each function atomic up to its sleep; one call of
  \<open>begin_op\<close> is one round of its waiting loop.
\<close>

definition MAXOPBLOCKS :: int where "MAXOPBLOCKS = 10"

definition LOGSIZE :: nat where "LOGSIZE = 30"

record log = bio +
  log_start :: uint
  log_size :: int
  log_outstanding :: int
  log_committing :: bool
  log_dev :: uint
  lh_n :: int
  lh_block :: "uint list"

section \<open>Reading and writing the header\<close>

definition head_n :: "byte list \<Rightarrow> int" where
  "head_n d = sint (word_at d 0)"

definition head_block :: "byte list \<Rightarrow> nat \<Rightarrow> uint" where
  "head_block d i = word_at d (4 + 4 * i)"

definition read_head :: "'a log_scheme \<Rightarrow> 'a log_scheme outcome" where
  "read_head s =
     obind (bread (log_dev s) (log_start s) s) (\<lambda>(buf, s).
     let d = bdata s buf; s = s\<lparr>lh_n := head_n d\<rparr> in
     obind (ofold (\<lambda>i bl. aset bl i (head_block d i)) [0..<nat (lh_n s)] (lh_block s)) (\<lambda>bl.
     brelse buf (s\<lparr>lh_block := bl\<rparr>)))"

definition put_head :: "int \<Rightarrow> uint list \<Rightarrow> byte list \<Rightarrow> byte list outcome" where
  "put_head n bl d =
     ofold (\<lambda>i d. obind (aget bl i) (\<lambda>b. Ok (patch d (4 + 4 * i) (u32_bytes b)))) [0..<nat n]
       (patch d 0 (u32_bytes (word_of_int n)))"

definition write_head :: "'a log_scheme \<Rightarrow> 'a log_scheme outcome" where
  "write_head s =
     obind (bread (log_dev s) (log_start s) s) (\<lambda>(buf, s).
     obind (put_head (lh_n s) (lh_block s) (bdata s buf)) (\<lambda>d.
     obind (bwrite buf (bset buf d s)) (\<lambda>s.
     brelse buf s)))"

section \<open>Commit and recovery\<close>

definition install_step :: "nat \<Rightarrow> 'a log_scheme \<Rightarrow> 'a log_scheme outcome" where
  "install_step tail s =
     obind (bread (log_dev s) (log_start s + of_nat tail + 1) s) (\<lambda>(lbuf, s).
     obind (aget (lh_block s) tail) (\<lambda>bn.
     obind (bread (log_dev s) bn s) (\<lambda>(dbuf, s).
     obind (bwrite dbuf (bset dbuf (bdata s lbuf) s)) (\<lambda>s.
     obind (brelse lbuf s) (\<lambda>s.
     brelse dbuf s)))))"

definition install_trans :: "'a log_scheme \<Rightarrow> 'a log_scheme outcome" where
  "install_trans s = ofold install_step [0..<nat (lh_n s)] s"

definition write_log_step :: "nat \<Rightarrow> 'a log_scheme \<Rightarrow> 'a log_scheme outcome" where
  "write_log_step tail s =
     obind (bread (log_dev s) (log_start s + of_nat tail + 1) s) (\<lambda>(to, s).
     obind (aget (lh_block s) tail) (\<lambda>bn.
     obind (bread (log_dev s) bn s) (\<lambda>(from, s).
     obind (bwrite to (bset to (bdata s from) s)) (\<lambda>s.
     obind (brelse from s) (\<lambda>s.
     brelse to s)))))"

definition write_log :: "'a log_scheme \<Rightarrow> 'a log_scheme outcome" where
  "write_log s = ofold write_log_step [0..<nat (lh_n s)] s"

definition commit :: "'a log_scheme \<Rightarrow> 'a log_scheme outcome" where
  "commit s =
     (if 0 < lh_n s then
        obind (write_log s) (\<lambda>s.
        obind (write_head s) (\<lambda>s.
        obind (install_trans s) (\<lambda>s.
        write_head (s\<lparr>lh_n := 0\<rparr>))))
      else Ok s)"

definition recover_from_log :: "'a log_scheme \<Rightarrow> 'a log_scheme outcome" where
  "recover_from_log s =
     obind (read_head s) (\<lambda>s.
     obind (install_trans s) (\<lambda>s.
     write_head (s\<lparr>lh_n := 0\<rparr>)))"

definition initlog :: "uint \<Rightarrow> 'a log_scheme \<Rightarrow> 'a log_scheme outcome" where
  "initlog dev s =
     (if BSIZE \<le> 4 + 4 * LOGSIZE then Panic ''initlog: too big logheader''
      else
        obind (readsb dev s) (\<lambda>(sb, s).
        recover_from_log (s\<lparr>log_start := sb_logstart sb, log_size := sint (sb_nlog sb), log_dev := dev\<rparr>)))"

section \<open>Transactions\<close>

definition begin_op :: "'a log_scheme \<Rightarrow> 'a log_scheme outcome" where
  "begin_op s =
     (if log_committing s then Sleep ''log''
      else if int LOGSIZE < lh_n s + (log_outstanding s + 1) * MAXOPBLOCKS then Sleep ''log''
      else Ok (s\<lparr>log_outstanding := log_outstanding s + 1\<rparr>))"

definition end_op :: "'a log_scheme \<Rightarrow> 'a log_scheme outcome" where
  "end_op s =
     (let s = s\<lparr>log_outstanding := log_outstanding s - 1\<rparr> in
      if log_committing s then Panic ''log.committing''
      else if log_outstanding s = 0 then
        obind (commit (s\<lparr>log_committing := True\<rparr>)) (\<lambda>s. Ok (s\<lparr>log_committing := False\<rparr>))
      else Ok s)"

definition log_slot :: "uint \<Rightarrow> uint list \<Rightarrow> nat" where
  "log_slot b bl = length (takeWhile (\<lambda>x. x \<noteq> b) bl)"

definition log_write :: "nat \<Rightarrow> 'a log_scheme \<Rightarrow> 'a log_scheme outcome" where
  "log_write b s =
     (if int LOGSIZE \<le> lh_n s \<or> log_size s - 1 \<le> lh_n s then Panic ''too big a transaction''
      else if log_outstanding s < 1 then Panic ''log_write outside of trans''
      else
        (let bn = b_blockno (bufs s ! b);
             i = log_slot bn (take (nat (lh_n s)) (lh_block s))
         in obind (aset (lh_block s) i bn) (\<lambda>bl.
            Ok (bupd b (\<lambda>b. b\<lparr>b_dirty := True\<rparr>)
              (s\<lparr>lh_block := bl, lh_n := (if int i = lh_n s then lh_n s + 1 else lh_n s)\<rparr>)))))"

end
