(* ===== verification/Log_Recovery.thy ===== *)
theory Log_Recovery
  imports Log
begin

text \<open>
  What committing and recovering do to the disk, and that a crash between any two block writes
  leaves either the state before the transaction or the state after it. A block write of the
  disk is taken to be atomic.
\<close>

section \<open>Sequences of block writes\<close>

definition replay :: "(uint \<Rightarrow> byte list) \<Rightarrow> (uint \<times> byte list) list \<Rightarrow> uint \<Rightarrow> byte list" where
  "replay d ws = fold (\<lambda>(b, v) d. d(b := v)) ws d"

definition wrote :: "'a bio_scheme \<Rightarrow> 'a bio_scheme \<Rightarrow> (uint \<times> byte list) list \<Rightarrow> bool" where
  "wrote s s' ws \<longleftrightarrow> binv s' {} \<and> disk s' = replay (disk s) ws \<and> bview s' = replay (bview s) ws \<and>
     dblocks s' = dblocks s - fst ` set ws \<and> dwrites s' = dwrites s @ ws \<and> benv s' = benv s"

lemma replay_Nil [simp]: "replay d [] = d"
  by (simp add: replay_def)

lemma replay_Cons [simp]: "replay d ((b, v) # ws) = replay (d(b := v)) ws"
  by (simp add: replay_def)

lemma replay_append [simp]: "replay d (xs @ ys) = replay (replay d xs) ys"
  by (simp add: replay_def)

lemma replay_other: "x \<notin> fst ` set ws \<Longrightarrow> replay d ws x = d x"
  by (induction ws arbitrary: d) auto

lemma replay_hit:
  assumes "distinct (map fst ws)" and "(b, v) \<in> set ws"
  shows "replay d ws b = v"
  using assms by (induction ws arbitrary: d) (auto simp: replay_other)

lemma replay_same: "(\<And>b v. (b, v) \<in> set ws \<Longrightarrow> v = d b) \<Longrightarrow> replay d ws = d"
proof (induction ws arbitrary: d)
  case (Cons w ws)
  then have "snd w = d (fst w)" by (metis list.set_intros(1) prod.collapse)
  then have "d(fst w := snd w) = d" by simp
  with Cons show ?case by (cases w) auto
qed simp

lemma wroteD:
  assumes "wrote s s' ws"
  shows "binv s' {}" "disk s' = replay (disk s) ws" "bview s' = replay (bview s) ws"
    "dblocks s' = dblocks s - fst ` set ws" "dwrites s' = dwrites s @ ws" "benv s' = benv s"
  using assms by (auto simp: wrote_def)

lemma wrote_refl: "binv s {} \<Longrightarrow> wrote s s []"
  by (simp add: wrote_def)

lemma wrote_trans: "wrote s t ws \<Longrightarrow> wrote t u xs \<Longrightarrow> wrote s u (ws @ xs)"
  by (auto simp: wrote_def)

section \<open>The log region\<close>

definition log_region :: "uint \<Rightarrow> int \<Rightarrow> uint set" where
  "log_region st sz = {st + of_nat i | i. int i < sz}"

definition log_geo :: "'a log_scheme \<Rightarrow> bool" where
  "log_geo s \<longleftrightarrow> log_dev s = 1 \<and> 0 < log_size s \<and>
     unat (log_start s) + nat (log_size s) \<le> unat (disksize s)"

text \<open>The blocks named by a header of length \<open>n\<close> fit the log and lie outside it.\<close>

definition head_ok :: "'a log_scheme \<Rightarrow> int \<Rightarrow> (nat \<Rightarrow> uint) \<Rightarrow> bool" where
  "head_ok s n bl \<longleftrightarrow> 0 \<le> n \<and> n \<le> int LOGSIZE \<and> n < log_size s \<and>
     (\<forall>i < nat n. bl i < disksize s \<and> bl i \<notin> log_region (log_start s) (log_size s))"

lemma benv_log:
  assumes "benv s = benv t"
  shows "log_start s = log_start t" "log_size s = log_size t" "log_outstanding s = log_outstanding t"
    "log_committing s = log_committing t" "log_dev s = log_dev t" "lh_n s = lh_n t"
    "lh_block s = lh_block t" "disksize s = disksize t" "mypid s = mypid t" "log.more s = log.more t"
  using assms by (cases s; cases t; simp add: benv_def)+

lemma log_geo_cong: "benv s = benv t \<Longrightarrow> log_geo s = log_geo t"
  using benv_log [of s t] by (simp add: log_geo_def)

lemma head_ok_cong: "benv s = benv t \<Longrightarrow> head_ok s = head_ok t"
  using benv_log [of s t] by (simp add: head_ok_def fun_eq_iff)

lemma log_unat:
  assumes "log_geo s" and "int i < log_size s"
  shows "unat (log_start s + of_nat i) = unat (log_start s) + i"
proof -
  have "unat (log_start s) + i < 2 ^ 32"
    using assms unsigned_less [of "disksize s", where ?'a = nat] unfolding log_geo_def by auto
  then show ?thesis by (simp add: unat_word_ariths unat_of_nat)
qed

lemma log_blocks:
  assumes "log_geo s" and "int i < log_size s"
  shows "log_start s + of_nat i < disksize s"
    and "log_start s + of_nat i \<in> log_region (log_start s) (log_size s)"
    and "int j < log_size s \<Longrightarrow> log_start s + of_nat i = log_start s + of_nat j \<longleftrightarrow> i = j"
proof -
  show "log_start s + of_nat i < disksize s"
    using log_unat [OF assms] assms unfolding word_less_nat_alt log_geo_def by linarith
  show "log_start s + of_nat i \<in> log_region (log_start s) (log_size s)"
    using assms by (auto simp: log_region_def)
  show "log_start s + of_nat i = log_start s + of_nat j \<longleftrightarrow> i = j" if "int j < log_size s"
    using log_unat [OF assms] log_unat [OF assms(1) that] by (metis add_left_cancel)
qed

lemma head_in_region: "log_geo s \<Longrightarrow> log_start s \<in> log_region (log_start s) (log_size s)"
  using log_blocks(2) [of s 0] by (simp add: log_geo_def)

abbreviation logblk :: "'a log_scheme \<Rightarrow> nat \<Rightarrow> uint" where
  "logblk s i \<equiv> log_start s + of_nat i + 1"

lemma logblk:
  assumes "log_geo s" and "int i + 1 < log_size s"
  shows "logblk s i < disksize s" and "logblk s i \<in> log_region (log_start s) (log_size s)"
    and "logblk s i \<noteq> log_start s"
    and "int j + 1 < log_size s \<Longrightarrow> logblk s i = logblk s j \<longleftrightarrow> i = j"
  using log_blocks(1,2) [OF assms(1), of "Suc i"] log_blocks(3) [OF assms(1), of "Suc i" 0]
    log_blocks(3) [OF assms(1), of "Suc i" "Suc j"] assms(2)
  by (simp_all add: ac_simps log_geo_def)

section \<open>The header\<close>

lemma put_head_ok:
  assumes "0 \<le> n" and "n \<le> int LOGSIZE" and "length bl = LOGSIZE" and "length d = BSIZE"
  obtains d' where "put_head n bl d = Ok d'" and "length d' = BSIZE" and "head_n d' = n"
    and "\<And>i. i < nat n \<Longrightarrow> head_block d' i = bl ! i"
proof -
  let ?P = "\<lambda>k d'. length d' = BSIZE \<and> head_n d' = n \<and> (\<forall>i < k. head_block d' i = bl ! i)"
  have n: "sint (word_of_int n :: uint) = n"
    using assms(1,2) by (simp add: LOGSIZE_def sint_sbintrunc' signed_take_bit_int_eq_self)
  have "\<exists>d'. ofold (\<lambda>i d. obind (aget bl i) (\<lambda>b. Ok (patch d (4 + 4 * i) (u32_bytes b)))) [0..<nat n]
       (patch d 0 (u32_bytes (word_of_int n))) = Ok d' \<and> ?P (nat n) d'"
  proof (rule ofold_inv)
    show "?P 0 (patch d 0 (u32_bytes (word_of_int n)))"
      using assms(4) n by (simp add: BSIZE_def head_n_def)
  next
    fix i d1
    assume i: "i < nat n" and "?P i d1"
    moreover from i have "i < LOGSIZE" using assms(2) by linarith
    moreover have "4 + 4 * i + 4 \<le> BSIZE" using \<open>i < LOGSIZE\<close> by (simp add: LOGSIZE_def BSIZE_def)
    ultimately show "\<exists>d2. obind (aget bl i) (\<lambda>b. Ok (patch d1 (4 + 4 * i) (u32_bytes b))) = Ok d2 \<and> ?P (Suc i) d2"
      using assms(3) by (auto simp: aget_def head_n_def head_block_def less_Suc_eq)
  qed
  with that show thesis by (auto simp: put_head_def)
qed

lemma write_head_ok:
  assumes geo: "log_geo s" and inv: "binv s {}" and room: "card (dblocks s) < NBUF"
    and n: "0 \<le> lh_n s" "lh_n s \<le> int LOGSIZE" and len: "length (lh_block s) = LOGSIZE"
  obtains s' h where "write_head s = Ok s'" and "wrote s s' [(log_start s, h)]" and "length h = BSIZE"
    and "head_n h = lh_n s" and "\<And>i. i < nat (lh_n s) \<Longrightarrow> head_block h i = lh_block s ! i"
proof -
  define f where "f = (\<lambda>d. case put_head (lh_n s) (lh_block s) d of Ok d' \<Rightarrow> d' | _ \<Rightarrow> d)"
  have st: "log_start s < disksize s"
    using log_blocks(1) [OF geo, of 0] geo by (simp add: log_geo_def)
  have f: "length (f d) = BSIZE" if "length d = BSIZE" for d
    by (rule put_head_ok [OF n len that]) (simp add: f_def)
  obtain b s1 s2 s3 where o: "bread 1 (log_start s) s = Ok (b, s1)" "bdata s1 b = bview s (log_start s)"
      "benv s1 = benv s" "bwrite b (bset b (f (bview s (log_start s))) s1) = Ok s2" "brelse b s2 = Ok s3"
      "binv s3 {}" "bview s3 = (bview s)(log_start s := f (bview s (log_start s)))"
      "disk s3 = (disk s)(log_start s := f (bview s (log_start s)))"
      "dblocks s3 = dblocks s - {log_start s}"
      "dwrites s3 = dwrites s @ [(log_start s, f (bview s (log_start s)))]" "benv s3 = benv s"
    by (rule bc.overwrite_block [where f = f, OF inv st room]) (erule f, rule that)
  have "length (bview s (log_start s)) = BSIZE" by (rule bc.view_length [OF inv])
  from put_head_ok [OF n len this] obtain h where h: "put_head (lh_n s) (lh_block s) (bview s (log_start s)) = Ok h"
      "length h = BSIZE" "head_n h = lh_n s" "\<And>i. i < nat (lh_n s) \<Longrightarrow> head_block h i = lh_block s ! i"
    by blast
  have "write_head s = Ok s3"
    using o h(1) geo benv_log(6,7) [OF o(3)] by (simp add: write_head_def log_geo_def f_def)
  moreover have "wrote s s3 [(log_start s, h)]" using o h(1) by (simp add: wrote_def f_def)
  ultimately show thesis using that h by blast
qed

section \<open>The copying loops\<close>

lemma install_step_ok:
  assumes geo: "log_geo s" and inv: "binv s {}" and i: "int i + 1 < log_size s" "i < length (lh_block s)"
    and dst: "lh_block s ! i < disksize s" "lh_block s ! i \<notin> log_region (log_start s) (log_size s)"
    and room: "card (dblocks s) < NBUF"
      "lh_block s ! i \<in> dblocks s \<or> card (insert (logblk s i) (dblocks s)) < NBUF"
  obtains s' where "install_step i s = Ok s'"
    and "wrote s s' [(lh_block s ! i, bview s (logblk s i))]"
proof -
  note l = logblk [OF geo i(1)]
  have ne: "logblk s i \<noteq> lh_block s ! i" using dst(2) l(2) by auto
  obtain b1 s1 b2 s2 s3 s4 s5 where o: "bread 1 (logblk s i) s = Ok (b1, s1)"
      "bread 1 (lh_block s ! i) s1 = Ok (b2, s2)" "bdata s2 b1 = bview s (logblk s i)"
      "benv s1 = benv s" "benv s2 = benv s" "bwrite b2 (bset b2 (bview s (logblk s i)) s2) = Ok s3"
      "benv s3 = benv s" "brelse b1 s3 = Ok s4" "benv s4 = benv s" "brelse b2 s4 = Ok s5" "binv s5 {}"
      "bview s5 = (bview s)(lh_block s ! i := bview s (logblk s i))"
      "disk s5 = (disk s)(lh_block s ! i := bview s (logblk s i))"
      "dblocks s5 = dblocks s - {lh_block s ! i}"
      "dwrites s5 = dwrites s @ [(lh_block s ! i, bview s (logblk s i))]" "benv s5 = benv s"
    by (rule bc.copy_block [OF inv l(1) dst(1) ne room]) (rule that)
  have "install_step i s = Ok s5"
    using o i geo benv_log(5,7) [OF o(4)] benv_log(5) [OF o(5)]
    by (simp add: install_step_def log_geo_def aget_def)
  moreover have "wrote s s5 [(lh_block s ! i, bview s (logblk s i))]"
    using o by (simp add: wrote_def)
  ultimately show thesis using that by blast
qed

lemma write_log_step_ok:
  assumes geo: "log_geo s" and inv: "binv s {}" and i: "int i + 1 < log_size s" "i < length (lh_block s)"
    and src: "lh_block s ! i < disksize s" "lh_block s ! i \<notin> log_region (log_start s) (log_size s)"
    and room: "card (dblocks s) < NBUF"
      "lh_block s ! i \<in> dblocks s \<or> card (insert (logblk s i) (dblocks s)) < NBUF"
  obtains s' where "write_log_step i s = Ok s'"
    and "wrote s s' [(logblk s i, bview s (lh_block s ! i))]"
proof -
  note l = logblk [OF geo i(1)]
  have ne: "lh_block s ! i \<noteq> logblk s i" using src(2) l(2) by auto
  obtain b1 s1 b2 s2 s3 s4 s5 where o: "bread 1 (logblk s i) s = Ok (b1, s1)"
      "bread 1 (lh_block s ! i) s1 = Ok (b2, s2)" "bdata s2 b2 = bview s (lh_block s ! i)"
      "benv s1 = benv s" "benv s2 = benv s" "bwrite b1 (bset b1 (bview s (lh_block s ! i)) s2) = Ok s3"
      "benv s3 = benv s" "brelse b2 s3 = Ok s4" "benv s4 = benv s" "brelse b1 s4 = Ok s5" "binv s5 {}"
      "bview s5 = (bview s)(logblk s i := bview s (lh_block s ! i))"
      "disk s5 = (disk s)(logblk s i := bview s (lh_block s ! i))"
      "dblocks s5 = dblocks s - {logblk s i}"
      "dwrites s5 = dwrites s @ [(logblk s i, bview s (lh_block s ! i))]" "benv s5 = benv s"
    by (rule bc.copy_block_dst_first [OF inv src(1) l(1) ne room]) (rule that)
  have "write_log_step i s = Ok s5"
    using o i geo benv_log(5,7) [OF o(4)] benv_log(5) [OF o(5)]
    by (simp add: write_log_step_def log_geo_def aget_def)
  moreover have "wrote s s5 [(logblk s i, bview s (lh_block s ! i))]"
    using o by (simp add: wrote_def)
  ultimately show thesis using that by blast
qed

text \<open>
  Room for the copies: either every block to be installed is pinned, or nothing is.
\<close>

definition copy_room :: "'a log_scheme \<Rightarrow> bool" where
  "copy_room s \<longleftrightarrow> card (dblocks s) < NBUF \<and>
     (set (take (nat (lh_n s)) (lh_block s)) \<subseteq> dblocks s \<or> Suc (card (dblocks s)) < NBUF)"

lemma room_at:
  assumes "copy_room s" and "i < nat (lh_n s)" and "i < length (lh_block s)"
  shows "lh_block s ! i \<in> dblocks s \<or> Suc (card (dblocks s)) < NBUF"
proof -
  have "lh_block s ! i \<in> set (take (nat (lh_n s)) (lh_block s))"
    using assms(2,3) by (metis in_set_conv_nth length_take min_less_iff_conj nth_take)
  then show ?thesis using assms(1) unfolding copy_room_def by auto
qed

definition install_writes :: "'a log_scheme \<Rightarrow> nat \<Rightarrow> (uint \<times> byte list) list" where
  "install_writes s k = map (\<lambda>i. (lh_block s ! i, bview s (logblk s i))) [0..<k]"

definition log_writes :: "'a log_scheme \<Rightarrow> nat \<Rightarrow> (uint \<times> byte list) list" where
  "log_writes s k = map (\<lambda>i. (logblk s i, bview s (lh_block s ! i))) [0..<k]"

lemma install_writes_Suc [simp]:
  "install_writes s (Suc k) = install_writes s k @ [(lh_block s ! k, bview s (logblk s k))]"
  by (simp add: install_writes_def)

lemma log_writes_Suc [simp]:
  "log_writes s (Suc k) = log_writes s k @ [(logblk s k, bview s (lh_block s ! k))]"
  by (simp add: log_writes_def)

lemma fst_install_writes: "fst ` set (install_writes s k) = (\<lambda>i. lh_block s ! i) ` {..<k}"
  by (auto simp: install_writes_def image_image)

lemma fst_log_writes: "fst ` set (log_writes s k) = logblk s ` {..<k}"
  by (auto simp: log_writes_def image_image)

lemma install_trans_ok:
  assumes geo: "log_geo s" and inv: "binv s {}" and hd: "head_ok s (lh_n s) ((!) (lh_block s))"
    and len: "length (lh_block s) = LOGSIZE" and room: "copy_room s"
  obtains s' where "install_trans s = Ok s'" and "wrote s s' (install_writes s (nat (lh_n s)))"
proof -
  let ?n = "nat (lh_n s)"
  have "\<exists>s'. ofold install_step [0..<?n] s = Ok s' \<and> wrote s s' (install_writes s ?n)"
  proof (rule ofold_inv)
    show "wrote s s (install_writes s 0)" using inv by (simp add: install_writes_def wrote_refl)
  next
    fix i t
    assume i: "i < ?n" and w: "wrote s t (install_writes s i)"
    note W = wroteD [OF w] and e = benv_log [OF wroteD(6) [OF w]]
    have il: "i < LOGSIZE" and sz: "int i + 1 < log_size s"
      and b: "lh_block s ! i < disksize s" "lh_block s ! i \<notin> log_region (log_start s) (log_size s)"
      using hd i by (auto simp: head_ok_def)
    have keep: "bview t (logblk s i) = bview s (logblk s i)"
      unfolding W(3)
    proof (rule replay_other)
      have "lh_block s ! j \<noteq> logblk s i" if "j < i" for j
        using hd i that logblk(2) [OF geo sz] unfolding head_ok_def by (metis less_trans)
      then show "logblk s i \<notin> fst ` set (install_writes s i)"
        unfolding fst_install_writes by (metis imageE lessThan_iff)
    qed
    have sub: "dblocks t \<subseteq> dblocks s" using W(4) by blast
    have c: "card (dblocks t) \<le> card (dblocks s)" using sub by (intro card_mono) auto
    have r1: "card (dblocks t) < NBUF" using c room by (simp add: copy_room_def)
    have r2: "lh_block t ! i \<in> dblocks t \<or> card (insert (logblk t i) (dblocks t)) < NBUF"
    proof (cases "lh_block s ! i \<in> dblocks t")
      case True
      then show ?thesis using e by simp
    next
      case False
      have ins: "card (insert (logblk t i) (dblocks t)) \<le> Suc (card (dblocks t))"
        by (rule card_insert_le_m1) auto
      show ?thesis
      proof (cases "lh_block s ! i \<in> dblocks s")
        case True
        then have "card (dblocks t) < card (dblocks s)"
          using sub False by (intro psubset_card_mono) auto
        then show ?thesis using ins room by (simp add: copy_room_def)
      next
        case no: False
        have "Suc (card (dblocks s)) < NBUF" using room_at [OF room i] no il len by simp
        then show ?thesis using ins c by simp
      qed
    qed
    have "log_geo t" using geo log_geo_cong [OF W(6)] by simp
    from install_step_ok [OF this W(1) _ _ _ _ r1 r2] e sz il len b obtain u
      where "install_step i t = Ok u" "wrote t u [(lh_block s ! i, bview s (logblk s i))]"
      using keep by metis
    then show "\<exists>u. install_step i t = Ok u \<and> wrote s u (install_writes s (Suc i))"
      using wrote_trans [OF w] by (intro exI [of _ u]) simp
  qed
  with that show thesis by (auto simp: install_trans_def)
qed

lemma write_log_ok:
  assumes geo: "log_geo s" and inv: "binv s {}" and hd: "head_ok s (lh_n s) ((!) (lh_block s))"
    and len: "length (lh_block s) = LOGSIZE" and room: "copy_room s"
  obtains s' where "write_log s = Ok s'" and "wrote s s' (log_writes s (nat (lh_n s)))"
proof -
  let ?n = "nat (lh_n s)"
  have "\<exists>s'. ofold write_log_step [0..<?n] s = Ok s' \<and> wrote s s' (log_writes s ?n)"
  proof (rule ofold_inv)
    show "wrote s s (log_writes s 0)" using inv by (simp add: log_writes_def wrote_refl)
  next
    fix i t
    assume i: "i < ?n" and w: "wrote s t (log_writes s i)"
    note W = wroteD [OF w] and e = benv_log [OF wroteD(6) [OF w]]
    have il: "i < LOGSIZE" and sz: "int i + 1 < log_size s"
      and b: "lh_block s ! i < disksize s" "lh_block s ! i \<notin> log_region (log_start s) (log_size s)"
      using hd i by (auto simp: head_ok_def)
    have out: "lh_block s ! i \<notin> fst ` set (log_writes s i)"
      unfolding fst_log_writes
    proof
      assume "lh_block s ! i \<in> logblk s ` {..<i}"
      then obtain j where "lh_block s ! i = logblk s j" and "j < i" by blast
      then show False using b(2) logblk(2) [OF geo, of j] sz by simp
    qed
    then have keep: "bview t (lh_block s ! i) = bview s (lh_block s ! i)"
      unfolding W(3) by (rule replay_other)
    have c: "card (dblocks t) \<le> card (dblocks s)" using W(4) by (intro card_mono) auto
    have r1: "card (dblocks t) < NBUF" using c room by (simp add: copy_room_def)
    have "lh_block s ! i \<in> dblocks s \<or> Suc (card (dblocks s)) < NBUF"
      using room_at [OF room i] il len by simp
    then have "lh_block s ! i \<in> dblocks t \<or> card (insert (logblk t i) (dblocks t)) < NBUF"
    proof
      assume "lh_block s ! i \<in> dblocks s"
      with out W(4) show ?thesis by blast
    next
      assume "Suc (card (dblocks s)) < NBUF"
      moreover have "card (insert (logblk t i) (dblocks t)) \<le> Suc (card (dblocks t))"
        by (rule card_insert_le_m1) auto
      ultimately show ?thesis using c by linarith
    qed
    then have r2: "lh_block t ! i \<in> dblocks t \<or> card (insert (logblk t i) (dblocks t)) < NBUF"
      unfolding e(7) .
    have "log_geo t" using geo log_geo_cong [OF W(6)] by simp
    from write_log_step_ok [OF this W(1) _ _ _ _ r1 r2] e sz il len b obtain u
      where "write_log_step i t = Ok u" "wrote t u [(logblk s i, bview s (lh_block s ! i))]"
      using keep by metis
    then show "\<exists>u. write_log_step i t = Ok u \<and> wrote s u (log_writes s (Suc i))"
      using wrote_trans [OF w] by (intro exI [of _ u]) simp
  qed
  with that show thesis by (auto simp: write_log_def)
qed

section \<open>Committing a transaction\<close>

text \<open>
  The log between operations: the in-memory header names the pinned blocks, each once, and the
  header on disk is empty.
\<close>

definition log_ok :: "'a log_scheme \<Rightarrow> bool" where
  "log_ok s \<longleftrightarrow> log_geo s \<and> binv s {} \<and> head_ok s (lh_n s) ((!) (lh_block s)) \<and>
     lh_n s < int NBUF \<and> length (lh_block s) = LOGSIZE \<and>
     distinct (take (nat (lh_n s)) (lh_block s)) \<and>
     dblocks s = set (take (nat (lh_n s)) (lh_block s)) \<and> head_n (disk s (log_start s)) = 0"

definition home_writes :: "'a log_scheme \<Rightarrow> (uint \<times> byte list) list" where
  "home_writes s = map (\<lambda>i. (lh_block s ! i, bview s (lh_block s ! i))) [0..<nat (lh_n s)]"

definition commit_writes :: "'a log_scheme \<Rightarrow> byte list \<Rightarrow> byte list \<Rightarrow> (uint \<times> byte list) list" where
  "commit_writes s h h0 = log_writes s (nat (lh_n s)) @ (log_start s, h) # home_writes s @ [(log_start s, h0)]"

lemma cache_cong:
  assumes "bufs s = bufs t" "disk s = disk t" "disksize s = disksize t" "mypid s = mypid t"
  shows "binv s H = binv t H" "bview s = bview t" "dblocks s = dblocks t"
proof -
  show "binv s H = binv t H" using assms by (simp add: binv_def buf_ok_def)
  show "bview s = bview t"
    using assms by (intro ext) (simp add: bview_def cached_at_def split: option.splits)
  show "dblocks s = dblocks t" using assms by (simp add: dblocks_def blk_def)
qed

lemma lh_n_frame [simp]:
  "binv (s\<lparr>lh_n := k\<rparr>) H = binv s H" "bview (s\<lparr>lh_n := k\<rparr>) = bview s"
  "dblocks (s\<lparr>lh_n := k\<rparr>) = dblocks s" "log_geo (s\<lparr>lh_n := k\<rparr>) = log_geo s"
  by (rule cache_cong; simp)+ (simp add: log_geo_def)

lemma wrote_lh_n:
  assumes "wrote s t ws"
  shows "wrote (s\<lparr>lh_n := k\<rparr>) (t\<lparr>lh_n := k\<rparr>) ws"
proof -
  have "benv (t\<lparr>lh_n := k\<rparr>) = benv (s\<lparr>lh_n := k\<rparr>)"
    using wroteD(6) [OF assms] by (cases s; cases t) (simp add: benv_def)
  then show ?thesis using wroteD [OF assms] by (simp add: wrote_def)
qed

lemma replay_const:
  "replay d (map (\<lambda>i. (f i, v (f i))) is) x = (if x \<in> f ` set is then v x else d x)"
  by (induction "is" arbitrary: d) auto

lemma replay_inj:
  assumes "inj_on f (set is)" and "distinct is" and "i \<in> set is"
  shows "replay d (map (\<lambda>i. (f i, v i)) is) (f i) = v i"
proof (rule replay_hit)
  show "distinct (map fst (map (\<lambda>i. (f i, v i)) is))"
    using assms(1,2) by (simp add: distinct_map comp_def)
qed (use assms(3) in auto)

lemma log_okD:
  assumes "log_ok s"
  shows "log_geo s" "binv s {}" "head_ok s (lh_n s) ((!) (lh_block s))" "length (lh_block s) = LOGSIZE"
    "dblocks s = (!) (lh_block s) ` {..<nat (lh_n s)}" "card (dblocks s) < NBUF" "copy_room s"
    "0 \<le> lh_n s" "lh_n s \<le> int LOGSIZE" "lh_n s < log_size s" "head_n (disk s (log_start s)) = 0"
    "dblocks s \<inter> log_region (log_start s) (log_size s) = {}"
proof -
  let ?n = "nat (lh_n s)"
  show "log_geo s" "binv s {}" and hd: "head_ok s (lh_n s) ((!) (lh_block s))"
    and len: "length (lh_block s) = LOGSIZE" and "head_n (disk s (log_start s)) = 0"
    using assms by (auto simp: log_ok_def)
  show n: "0 \<le> lh_n s" "lh_n s \<le> int LOGSIZE" "lh_n s < log_size s" using hd by (auto simp: head_ok_def)
  have d: "dblocks s = set (take ?n (lh_block s))" using assms by (auto simp: log_ok_def)
  have "take ?n (lh_block s) = map ((!) (lh_block s)) [0..<?n]"
    using n(2) len by (intro nth_equalityI) auto
  then show d': "dblocks s = (!) (lh_block s) ` {..<?n}" unfolding d by (auto simp: atLeast0LessThan)
  have "card (dblocks s) \<le> ?n" unfolding d' using card_image_le [of "{..<?n}"] by simp
  then show "card (dblocks s) < NBUF" using assms n(1) by (auto simp: log_ok_def)
  then show "copy_room s" unfolding copy_room_def d by simp
  show "dblocks s \<inter> log_region (log_start s) (log_size s) = {}"
    using hd unfolding d' head_ok_def by auto
qed

lemma log_writes_out:
  assumes "log_geo s" and "lh_n s < log_size s" and "x \<notin> log_region (log_start s) (log_size s) \<or> x = log_start s"
  shows "x \<notin> fst ` set (take k (log_writes s (nat (lh_n s))))"
proof
  assume "x \<in> fst ` set (take k (log_writes s (nat (lh_n s))))"
  then have "x \<in> fst ` set (log_writes s (nat (lh_n s)))" using set_take_subset by force
  then obtain i where i: "i < nat (lh_n s)" and x: "x = logblk s i" unfolding fst_log_writes by blast
  then have "int i + 1 < log_size s" using assms(2) by linarith
  from logblk(2,3) [OF assms(1) this] show False using assms(3) x by simp
qed

lemma replay_log_writes:
  assumes "log_geo s" and "lh_n s < log_size s" and "i < nat (lh_n s)"
  shows "replay d (log_writes s (nat (lh_n s))) (logblk s i) = bview s (lh_block s ! i)"
  unfolding log_writes_def
proof (rule replay_inj)
  show "inj_on (logblk s) (set [0..<nat (lh_n s)])"
  proof (rule inj_onI)
    fix a b
    assume *: "a \<in> set [0..<nat (lh_n s)]" "b \<in> set [0..<nat (lh_n s)]" "logblk s a = logblk s b"
    then have "int a + 1 < log_size s" "int b + 1 < log_size s" using assms(2) by auto
    from logblk(4) [OF assms(1) this] * show "a = b" by blast
  qed
qed (use assms(3) in auto)


lemma install_writes_home:
  assumes "benv t = benv s" and "\<And>i. i < nat (lh_n s) \<Longrightarrow> bview t (logblk s i) = bview s (lh_block s ! i)"
  shows "install_writes t (nat (lh_n s)) = home_writes s"
  using assms benv_log [OF assms(1)] by (simp add: install_writes_def home_writes_def)

lemma commit_writes_ok:
  assumes ok: "log_ok s" and pos: "0 < lh_n s"
  obtains s' h h0 where "commit s = Ok s'" and "wrote (s\<lparr>lh_n := 0\<rparr>) s' (commit_writes s h h0)"
    and "head_n h = lh_n s" and "\<And>i. i < nat (lh_n s) \<Longrightarrow> head_block h i = lh_block s ! i"
    and "head_n h0 = 0" and "length h = BSIZE" and "length h0 = BSIZE"
proof -
  note D = log_okD [OF ok]
  let ?n = "nat (lh_n s)"
  let ?R = "log_region (log_start s) (log_size s)"
  obtain s1 where c1: "write_log s = Ok s1" and w1: "wrote s s1 (log_writes s ?n)"
    by (rule write_log_ok [OF D(1-4,7)]) (rule that)
  note e1 = benv_log [OF wroteD(6) [OF w1]]
  have g1: "log_geo s1" using D(1) log_geo_cong [OF wroteD(6) [OF w1]] by simp
  have "fst ` set (log_writes s ?n) \<inter> dblocks s = {}"
    using log_writes_out [OF D(1,10), of _ ?n] D(12) by (auto simp: log_writes_def)
  then have d1: "dblocks s1 = dblocks s" using wroteD(4) [OF w1] by auto
  obtain s2 h where c2: "write_head s1 = Ok s2" and w2: "wrote s1 s2 [(log_start s1, h)]"
      and h: "length h = BSIZE" "head_n h = lh_n s1" "\<And>i. i < nat (lh_n s1) \<Longrightarrow> head_block h i = lh_block s1 ! i"
    by (rule write_head_ok [OF g1 wroteD(1) [OF w1]]) (use D d1 e1 in auto)
  have w12: "wrote s s2 (log_writes s ?n @ [(log_start s, h)])"
    using wrote_trans [OF w1 w2] e1 by simp
  note e2 = benv_log [OF wroteD(6) [OF w12]]
  have d2: "dblocks s2 = dblocks s" using wroteD(4) [OF w2] d1 D(12) head_in_region [OF D(1)] e1 by auto
  have v2: "bview s2 (logblk s i) = bview s (lh_block s ! i)" if "i < ?n" for i
    using that logblk(3) [OF D(1), of i] D(10)
    by (simp add: wroteD(3) [OF w12] replay_log_writes [OF D(1,10)])
  have g2: "log_geo s2" using D(1) log_geo_cong [OF wroteD(6) [OF w12]] by simp
  have r2: "copy_room s2" using D(7) d2 e2 by (simp add: copy_room_def)
  have h2: "head_ok s2 (lh_n s2) ((!) (lh_block s2))"
    using D(3) head_ok_cong [OF wroteD(6) [OF w12]] e2 by simp
  obtain s3 where c3: "install_trans s2 = Ok s3" and w3: "wrote s2 s3 (install_writes s2 (nat (lh_n s2)))"
    by (rule install_trans_ok [OF g2 wroteD(1) [OF w12] h2 _ r2]) (use D e2 in auto)
  have w123: "wrote s s3 (log_writes s ?n @ (log_start s, h) # home_writes s)"
    using wrote_trans [OF w12 w3] install_writes_home [OF wroteD(6) [OF w12] v2] e2 by simp
  note e3 = benv_log [OF wroteD(6) [OF w123]] and w3' = wrote_lh_n [OF w123, of 0]
  have g3: "log_geo (s3\<lparr>lh_n := 0\<rparr>)" using D(1) log_geo_cong [OF wroteD(6) [OF w123]] by simp
  have "card (dblocks s3) \<le> card (dblocks s)" using wroteD(4) [OF w123] by (intro card_mono) (auto simp: finite_code)
  then have r3: "card (dblocks (s3\<lparr>lh_n := 0\<rparr>)) < NBUF" using D(6) by simp
  obtain s4 h0 where c4: "write_head (s3\<lparr>lh_n := 0\<rparr>) = Ok s4" and h0: "length h0 = BSIZE" "head_n h0 = 0"
      and w4: "wrote (s3\<lparr>lh_n := 0\<rparr>) s4 [(log_start s, h0)]"
    by (rule write_head_ok [OF g3 wroteD(1) [OF w3'] r3]) (use D e3 in auto)
  have "wrote (s\<lparr>lh_n := 0\<rparr>) s4 (commit_writes s h h0)"
    using wrote_trans [OF w3' w4] by (simp add: commit_writes_def)
  moreover have "commit s = Ok s4" using pos c1 c2 c3 c4 by (simp add: commit_def)
  ultimately show thesis using that h h0 e1 by auto
qed

section \<open>Recovery\<close>

text \<open>What recovery does to a disk image, as a function of the image alone.\<close>

definition recover_writes :: "uint \<Rightarrow> (uint \<Rightarrow> byte list) \<Rightarrow> (uint \<times> byte list) list" where
  "recover_writes st d = map (\<lambda>i. (head_block (d st) i, d (st + of_nat i + 1))) [0..<nat (head_n (d st))]"

definition recovered :: "uint \<Rightarrow> (uint \<Rightarrow> byte list) \<Rightarrow> uint \<Rightarrow> byte list" where
  "recovered st d = replay d (recover_writes st d)"

text \<open>A state just after booting on the disk \<open>d\<close>, with the log set up by \<open>initlog\<close>.\<close>

definition rebooted :: "'a log_scheme \<Rightarrow> (uint \<Rightarrow> byte list) \<Rightarrow> 'a log_scheme" where
  "rebooted s d = s\<lparr>bufs := bcache0, disk := d, lh_n := 0, lh_block := replicate LOGSIZE 0,
     log_outstanding := 0, log_committing := False\<rparr>"

lemma lh_block_frame [simp]:
  "binv (s\<lparr>lh_block := bl\<rparr>) H = binv s H" "bview (s\<lparr>lh_block := bl\<rparr>) = bview s"
  "dblocks (s\<lparr>lh_block := bl\<rparr>) = dblocks s" "log_geo (s\<lparr>lh_block := bl\<rparr>) = log_geo s"
  by (rule cache_cong; simp)+ (simp add: log_geo_def)

lemma set_head_ok:
  assumes "n \<le> length bl"
  obtains bl' where "ofold (\<lambda>i bl. aset bl i (f i)) [0..<n] bl = Ok bl'" and "length bl' = length bl"
    and "\<And>i. i < n \<Longrightarrow> bl' ! i = f i"
proof -
  have "\<exists>bl'. ofold (\<lambda>i bl. aset bl i (f i)) [0..<n] bl = Ok bl' \<and>
      length bl' = length bl \<and> (\<forall>i < n. bl' ! i = f i)"
  proof (rule ofold_inv)
    fix i xs
    assume "i < n" and "length xs = length bl \<and> (\<forall>j < i. xs ! j = f j)"
    then show "\<exists>ys. aset xs i (f i) = Ok ys \<and> length ys = length bl \<and> (\<forall>j < Suc i. ys ! j = f j)"
      using assms by (auto simp: aset_def less_Suc_eq)
  qed simp
  with that show thesis by blast
qed

lemma head_swap: "s\<lparr>lh_n := k, lh_block := bl\<rparr> = s\<lparr>lh_block := bl, lh_n := k\<rparr>"
  by (cases s) simp

lemma brelse_frame:
  "brelse b (s\<lparr>lh_block := bl, lh_n := k\<rparr>) = obind (brelse b s) (\<lambda>s. Ok (s\<lparr>lh_block := bl, lh_n := k\<rparr>))"
  by (simp add: brelse_def bupd_def Let_def)

lemma read_head_ok:
  assumes geo: "log_geo s" and inv: "binv s {}" and room: "card (dblocks s) < NBUF"
    and n: "head_n (bview s (log_start s)) \<le> int LOGSIZE" and len: "length (lh_block s) = LOGSIZE"
  obtains s' bl where "read_head s = Ok s'" and "length bl = LOGSIZE"
    and "\<And>i. i < nat (head_n (bview s (log_start s))) \<Longrightarrow> bl ! i = head_block (bview s (log_start s)) i"
    and "wrote (s\<lparr>lh_block := bl, lh_n := head_n (bview s (log_start s))\<rparr>) s' []"
proof -
  let ?d = "bview s (log_start s)"
  have st: "log_start s < disksize s"
    using log_blocks(1) [OF geo, of 0] geo by (simp add: log_geo_def)
  obtain b s1 s2 where o: "bread 1 (log_start s) s = Ok (b, s1)" "brelse b s1 = Ok s2"
      "bdata s1 b = ?d" "binv s2 {}" "bview s2 = bview s" "disk s2 = disk s" "dblocks s2 = dblocks s"
      "dwrites s2 = dwrites s" "benv s1 = benv s" "benv s2 = benv s"
    by (rule bc.read_release [OF inv st room]) (rule that)
  have "nat (head_n ?d) \<le> length (lh_block s)" using n len by simp
  then obtain bl where
      bl: "ofold (\<lambda>i bl. aset bl i (head_block ?d i)) [0..<nat (head_n ?d)] (lh_block s) = Ok bl"
        "length bl = LOGSIZE" "\<And>i. i < nat (head_n ?d) \<Longrightarrow> bl ! i = head_block ?d i"
    by (rule set_head_ok [where f = "head_block ?d"]) (rule that, use len in auto)
  have "read_head s = brelse b (s1\<lparr>lh_block := bl, lh_n := head_n ?d\<rparr>)"
    using geo o(1,3) benv_log [OF o(9)] bl(1) by (simp add: read_head_def log_geo_def head_swap)
  then have "read_head s = Ok (s2\<lparr>lh_block := bl, lh_n := head_n ?d\<rparr>)"
    using o(2) by (simp add: brelse_frame)
  moreover have "benv (s2\<lparr>lh_block := bl, lh_n := head_n ?d\<rparr>) = benv (s\<lparr>lh_block := bl, lh_n := head_n ?d\<rparr>)"
    using o(10) by (cases s; cases s2) (simp add: benv_def)
  ultimately show thesis using that [OF _ bl(2,3)] o by (simp add: wrote_def)
qed

lemma recover_ok:
  assumes geo: "log_geo s" and b: "bufs s = bcache0" "\<And>n. length (disk s n) = BSIZE"
    and hd: "head_ok s (head_n (disk s (log_start s))) (head_block (disk s (log_start s)))"
    and len: "length (lh_block s) = LOGSIZE"
  obtains s' bl h0 where "recover_from_log s = Ok s'" and "length bl = LOGSIZE" and "head_n h0 = 0"
    and "wrote (s\<lparr>lh_block := bl, lh_n := 0\<rparr>) s' (recover_writes (log_start s) (disk s) @ [(log_start s, h0)])"
proof -
  let ?d = "disk s (log_start s)"
  note B = bcache0_binv [OF b]
  have n: "0 \<le> head_n ?d" "head_n ?d \<le> int LOGSIZE" using hd by (auto simp: head_ok_def)
  obtain s1 bl where c1: "read_head s = Ok s1" and bl: "length bl = LOGSIZE"
      "\<And>i. i < nat (head_n ?d) \<Longrightarrow> bl ! i = head_block ?d i"
      and w1: "wrote (s\<lparr>lh_block := bl, lh_n := head_n ?d\<rparr>) s1 []"
    by (rule read_head_ok [OF geo B(1)]) (use B n len in \<open>auto simp: NBUF_def\<close>)
  note W1 = wroteD [OF w1] and e1 = benv_log [OF wroteD(6) [OF w1], simplified]
  have g1: "log_geo s1" using geo log_geo_cong [OF W1(6)] by simp
  have h1: "head_ok s1 (lh_n s1) ((!) (lh_block s1))" using hd bl e1 by (simp add: head_ok_def)
  have r1: "copy_room s1" using W1(4) B(3) by (simp add: copy_room_def NBUF_def)
  obtain s2 where c2: "install_trans s1 = Ok s2" and w2: "wrote s1 s2 (install_writes s1 (nat (lh_n s1)))"
    by (rule install_trans_ok [OF g1 W1(1) h1 _ r1]) (use bl(1) e1 in auto)
  have "install_writes s1 (nat (lh_n s1)) = recover_writes (log_start s) (disk s)"
    using e1 bl W1(3) B(2) by (simp add: install_writes_def recover_writes_def)
  then have w12: "wrote (s\<lparr>lh_block := bl, lh_n := head_n ?d\<rparr>) s2 (recover_writes (log_start s) (disk s))"
    using wrote_trans [OF w1 w2] by simp
  have w2': "wrote (s\<lparr>lh_block := bl, lh_n := 0\<rparr>) (s2\<lparr>lh_n := 0\<rparr>) (recover_writes (log_start s) (disk s))"
    using wrote_lh_n [OF w12, of 0] by simp
  note W2 = wroteD [OF w2'] and e2 = benv_log [OF wroteD(6) [OF w2'], simplified]
  have g2: "log_geo (s2\<lparr>lh_n := 0\<rparr>)" using geo log_geo_cong [OF W2(6)] by simp
  obtain s3 h0 where c3: "write_head (s2\<lparr>lh_n := 0\<rparr>) = Ok s3" and h0: "head_n h0 = 0"
      and w3: "wrote (s2\<lparr>lh_n := 0\<rparr>) s3 [(log_start s, h0)]"
    by (rule write_head_ok [OF g2 W2(1)]) (use B(3) W2(4) bl(1) e2 in \<open>auto simp: NBUF_def\<close>)
  have "recover_from_log s = Ok s3" using c1 c2 c3 by (simp add: recover_from_log_def)
  then show thesis using that [OF _ bl(1) h0] wrote_trans [OF w2' w3] by simp
qed


section \<open>Crashes\<close>

lemma recovered_empty: "head_n (d st) \<le> 0 \<Longrightarrow> recovered st d = d"
  by (simp add: recovered_def recover_writes_def)

lemma recovered_home:
  assumes "head_n (d st) = n" and "\<And>i. i < nat n \<Longrightarrow> head_block (d st) i = f i"
    and "\<And>i. i < nat n \<Longrightarrow> d (st + of_nat i + 1) = v (f i)"
  shows "recovered st d x = (if x \<in> f ` {..<nat n} then v x else d x)"
proof -
  have "recover_writes st d = map (\<lambda>i. (f i, v (f i))) [0..<nat n]"
    using assms by (simp add: recover_writes_def)
  then show ?thesis by (simp add: recovered_def replay_const atLeast0LessThan)
qed

text \<open>
  The disk after the first \<open>k\<close> block writes of a commit: with at most \<open>lh_n\<close> of them the header is
  still empty, and from the header write on recovery completes the transaction.
\<close>

lemma crash_before:
  assumes ok: "log_ok s" and k: "k \<le> nat (lh_n s)" and x: "x \<notin> log_region (log_start s) (log_size s)"
  shows "recovered (log_start s) (replay (disk s) (take k (commit_writes s h h0))) x = disk s x"
proof -
  note D = log_okD [OF ok]
  let ?L = "take k (log_writes s (nat (lh_n s)))"
  have t: "take k (commit_writes s h h0) = ?L" using k by (simp add: commit_writes_def log_writes_def)
  have "replay (disk s) ?L (log_start s) = disk s (log_start s)"
    by (rule replay_other) (rule log_writes_out [OF D(1,10)], simp)
  then have "recovered (log_start s) (replay (disk s) ?L) = replay (disk s) ?L"
    by (intro recovered_empty) (simp add: D(11))
  moreover have "replay (disk s) ?L x = disk s x"
    by (rule replay_other) (rule log_writes_out [OF D(1,10)], use x in simp)
  ultimately show ?thesis unfolding t by simp
qed

lemma crash_after:
  assumes ok: "log_ok s" and k: "nat (lh_n s) < k" and x: "x \<notin> log_region (log_start s) (log_size s)"
    and h: "head_n h = lh_n s" "\<And>i. i < nat (lh_n s) \<Longrightarrow> head_block h i = lh_block s ! i" "head_n h0 = 0"
  shows "recovered (log_start s) (replay (disk s) (take k (commit_writes s h h0))) x = bview s x"
proof -
  note D = log_okD [OF ok]
  let ?n = "nat (lh_n s)" and ?st = "log_start s" and ?f = "(!) (lh_block s)"
  define j where "j = k - Suc ?n"
  define e where "e = (replay (disk s) (log_writes s ?n))(?st := h)"
  define H where "H = take j (home_writes s)"
  have H: "H = map (\<lambda>i. (?f i, bview s (?f i))) [0..<min j ?n]" 
    by (cases "j \<le> ?n") (simp_all add: H_def home_writes_def take_map take_upt)
  have reg: "?f i \<notin> log_region ?st (log_size s)" if "i < ?n" for i using D(3) that by (simp add: head_ok_def)
  have kj: "k - length (log_writes s ?n) = Suc j" using k by (simp add: j_def log_writes_def)
  have t: "take k (commit_writes s h h0) =
      log_writes s ?n @ (?st, h) # H @ take (j - length (home_writes s)) [(?st, h0)]"
    using k kj by (simp add: commit_writes_def take_Cons' H_def log_writes_def)
  have eH: "replay e H y = (if y \<in> ?f ` {..<min j ?n} then bview s y else e y)" for y
    unfolding H replay_const by (simp add: atLeast0LessThan)
  have inR: "replay e H y = e y" if "y \<in> log_region ?st (log_size s)" for y
    using that reg unfolding eH by auto
  have x_st: "x \<noteq> ?st" using x head_in_region [OF D(1)] by auto
  have ex: "e x = disk s x"
    using x_st replay_other log_writes_out [OF D(1,10), of x ?n] x by (simp add: e_def log_writes_def)
  have view: "bview s x = disk s x" if "x \<notin> ?f ` {..<?n}"
    using bc.coherent [OF D(2)] that D(5) by simp
  show ?thesis
  proof (cases "j \<le> ?n")
    case True
    then have t': "take k (commit_writes s h h0) = log_writes s ?n @ (?st, h) # H"
      unfolding t by (simp add: home_writes_def)
    have st: "replay e H ?st = h" using inR [OF head_in_region [OF D(1)]] by (simp add: e_def)
    have lb: "replay e H (?st + of_nat i + 1) = bview s (?f i)" if "i < ?n" for i
    proof -
      have "int i + 1 < log_size s" using that D(10) by linarith
      note l = logblk(2,3) [OF D(1) this]
      show ?thesis using inR [OF l(1)] l(2) replay_log_writes [OF D(1,10) that] by (simp add: e_def)
    qed
    have "recovered ?st (replay e H) x = (if x \<in> ?f ` {..<?n} then bview s x else replay e H x)"
      by (rule recovered_home) (use st h lb in auto)
    also have "\<dots> = bview s x" using view ex unfolding eH by auto
    finally show ?thesis unfolding t' by (simp add: e_def)
  next
    case False
    then have t': "replay (disk s) (take k (commit_writes s h h0)) = (replay e H)(?st := h0)"
      unfolding t by (simp add: home_writes_def e_def)
    have "recovered ?st ((replay e H)(?st := h0)) = (replay e H)(?st := h0)"
      by (rule recovered_empty) (simp add: h)
    moreover have "replay e H x = bview s x" using False view ex unfolding eH by auto
    ultimately show ?thesis unfolding t' using x_st by simp
  qed
qed


lemma replay_in: "replay d ws x = d x \<or> (x, replay d ws x) \<in> set ws"
proof (induction ws rule: rev_induct)
  case (snoc w ws)
  then show ?case by (cases w) auto
qed simp

lemma replay_base: "x \<in> fst ` set ws \<Longrightarrow> replay d ws x = replay d' ws x"
proof (induction ws rule: rev_induct)
  case (snoc w ws)
  then show ?case by (cases w) auto
qed simp

lemma replay_length:
  assumes "\<And>n. length (d n) = BSIZE" and "\<And>n v. (n, v) \<in> set ws \<Longrightarrow> length v = BSIZE"
  shows "length (replay d ws x) = BSIZE"
  using replay_in [of d ws x] assms by metis

lemma commit_writes_length:
  assumes "binv s {}" and "length h = BSIZE" and "length h0 = BSIZE" and "(n, v) \<in> set (commit_writes s h h0)"
  shows "length v = BSIZE"
  using assms bc.view_length [OF assms(1)]
  by (auto simp: commit_writes_def log_writes_def home_writes_def)

lemma commit_writes_head:
  assumes ok: "log_ok s" and "(log_start s, v) \<in> set (commit_writes s h h0)"
  shows "v = h \<or> v = h0"
proof -
  note D = log_okD [OF ok]
  have "(log_start s, v) \<notin> set (log_writes s (nat (lh_n s)))"
    using log_writes_out [OF D(1,10), of "log_start s" "nat (lh_n s)"] by (force simp: log_writes_def)
  moreover have "(log_start s, v) \<notin> set (home_writes s)"
    using D(3) head_in_region [OF D(1)] unfolding head_ok_def home_writes_def by auto
  ultimately show ?thesis using assms(2) by (auto simp: commit_writes_def)
qed

lemma rebooted_simps [simp]:
  "log_start (rebooted s d) = log_start s" "log_size (rebooted s d) = log_size s"
  "disk (rebooted s d) = d" "disksize (rebooted s d) = disksize s" "bufs (rebooted s d) = bcache0"
  "length (lh_block (rebooted s d)) = LOGSIZE" "log_geo (rebooted s d) = log_geo s"
  by (simp_all add: rebooted_def log_geo_def)

lemma recover_rebooted:
  assumes "log_geo s" and "\<And>n. length (d n) = BSIZE" and "head_ok s (head_n (d (log_start s))) (head_block (d (log_start s)))"
  obtains r where "recover_from_log (rebooted s d) = Ok r" and "log_ok r" and "lh_n r = 0" 
    and "disk r = (recovered (log_start s) d)(log_start s := disk r (log_start s))"
proof -
  let ?s = "rebooted s d"
  have hd: "head_ok ?s (head_n (d (log_start s))) (head_block (d (log_start s)))"
    using assms(3) by (simp add: head_ok_def)
  obtain r bl h0 where r: "recover_from_log ?s = Ok r" "length bl = LOGSIZE" "head_n h0 = 0"
      "wrote (?s\<lparr>lh_block := bl, lh_n := 0\<rparr>) r (recover_writes (log_start s) d @ [(log_start s, h0)])"
    by (rule recover_ok [of ?s]) (use assms hd in auto)
  note W = wroteD [OF r(4)] and e = benv_log [OF wroteD(6) [OF r(4)], simplified]
  have B: "dblocks ?s = {}" by (rule bcache0_binv(3)) (use assms in auto)
  have dr: "disk r = (recovered (log_start s) d)(log_start s := h0)" using W(2) by (simp add: recovered_def)
  have "log_geo r" using assms(1) log_geo_cong [OF W(6)] by simp
  moreover have "0 < log_size s" using assms(1) by (simp add: log_geo_def)
  ultimately have "log_ok r" using W B r(2,3) e by (simp add: log_ok_def head_ok_def NBUF_def)
  then show thesis using that r(1) dr e by simp
qed

lemma commit_crash:
  assumes ok: "log_ok s" and "0 < lh_n s"
  obtains s' ws r where "commit s = Ok s'" and "dwrites s' = dwrites s @ ws"
    and "disk s' = replay (disk s) ws"
    and "recover_from_log (rebooted s (replay (disk s) (take k ws))) = Ok r" and "log_ok r" and "lh_n r = 0"
    and "\<And>x. x \<notin> log_region (log_start s) (log_size s) \<Longrightarrow>
           disk r x = (if k \<le> nat (lh_n s) then disk s x else bview s x)"
proof -
  note D = log_okD [OF ok]
  obtain s' h h0 where c: "commit s = Ok s'" and w: "wrote (s\<lparr>lh_n := 0\<rparr>) s' (commit_writes s h h0)"
      and h: "head_n h = lh_n s" "\<And>i. i < nat (lh_n s) \<Longrightarrow> head_block h i = lh_block s ! i"
      "head_n h0 = 0" "length h = BSIZE" "length h0 = BSIZE"
    using commit_writes_ok [OF assms] by metis
  define d where "d = replay (disk s) (take k (commit_writes s h h0))"
  have dl: "length (d n) = BSIZE" for n
    unfolding d_def
    by (rule replay_length) (use commit_writes_length [OF D(2) h(4,5)] D(2) in \<open>auto simp: binv_def dest: in_set_takeD\<close>)
  have hd: "head_ok s (head_n (d (log_start s))) (head_block (d (log_start s)))"
  proof -
    have "d (log_start s) = disk s (log_start s) \<or> d (log_start s) = h \<or> d (log_start s) = h0"
      using replay_in [of "disk s" "take k (commit_writes s h h0)" "log_start s"]
        commit_writes_head [OF ok] in_set_takeD unfolding d_def by metis
    then show ?thesis using D(1,3,11) h(1-3) by (auto simp: head_ok_def log_geo_def)
  qed
  obtain r where r: "recover_from_log (rebooted s d) = Ok r" "log_ok r" "lh_n r = 0"
      "disk r = (recovered (log_start s) d)(log_start s := disk r (log_start s))"
    by (rule recover_rebooted [where d = d, OF D(1) dl hd]) (rule that)
  have "disk r x = (if k \<le> nat (lh_n s) then disk s x else bview s x)"
    if x: "x \<notin> log_region (log_start s) (log_size s)" for x
  proof -
    have "x \<noteq> log_start s" using x head_in_region [OF D(1)] by auto
    then have "disk r x = recovered (log_start s) d x" using r(4) by (metis fun_upd_other)
    then show ?thesis
      using crash_before [OF ok _ x] crash_after [OF ok _ x h(1-3)] by (simp add: d_def)
  qed
  with that [OF c] wroteD(2,5) [OF w] r show thesis unfolding d_def by simp
qed


text \<open>A crash during recovery is harmless: recovering again gives the same disk.\<close>

lemma recover_writes_cong:
  assumes "d' st = d st" and "\<And>i. i < nat (head_n (d st)) \<Longrightarrow> d' (st + of_nat i + 1) = d (st + of_nat i + 1)"
  shows "recover_writes st d' = recover_writes st d"
  using assms by (simp add: recover_writes_def)

lemma recovery_crash:
  assumes geo: "log_geo s" and hd: "head_ok s (head_n (d (log_start s))) (head_block (d (log_start s)))"
    and h0: "head_n h0 = 0" and x: "x \<noteq> log_start s"
  shows "recovered (log_start s) (replay d (take k (recover_writes (log_start s) d @ [(log_start s, h0)]))) x
       = recovered (log_start s) d x"
proof -
  let ?st = "log_start s" and ?n = "nat (head_n (d (log_start s)))"
  let ?R = "recover_writes (log_start s) d"
  have out: "y \<notin> fst ` set ?R" if "y \<in> log_region ?st (log_size s)" for y
    using hd that unfolding head_ok_def recover_writes_def by auto
  show ?thesis
  proof (cases "k \<le> length ?R")
    case True
    let ?d = "replay d (take k ?R)"
    have keep: "?d y = d y" if "y \<in> log_region ?st (log_size s)" for y
      using out [OF that] by (intro replay_other) (meson image_mono set_take_subset subsetD)
    have "recover_writes ?st ?d = ?R"
    proof (rule recover_writes_cong)
      show "?d ?st = d ?st" by (rule keep [OF head_in_region [OF geo]])
      show "?d (?st + of_nat i + 1) = d (?st + of_nat i + 1)" if "i < ?n" for i
      proof (rule keep)
        have "int i + 1 < log_size s" using hd that unfolding head_ok_def by linarith
        then show "?st + of_nat i + 1 \<in> log_region ?st (log_size s)" by (rule logblk(2) [OF geo])
      qed
    qed
    then have "recovered ?st ?d x = replay ?d ?R x" by (simp add: recovered_def)
    also have "\<dots> = replay d ?R x"
    proof (cases "x \<in> fst ` set ?R")
      case True
      then show ?thesis by (rule replay_base)
    next
      case False
      moreover from this have "x \<notin> fst ` set (take k ?R)" by (meson image_mono set_take_subset subsetD)
      ultimately show ?thesis by (simp add: replay_other)
    qed
    finally show ?thesis using True by (simp add: recovered_def)
  next
    case False
    then have "take k (?R @ [(?st, h0)]) = ?R @ [(?st, h0)]" by simp
    then show ?thesis using x h0 by (simp add: recovered_empty) (simp add: recovered_def)
  qed
qed

end
