(* ===== verification/Log_Transactions.thy ===== *)
theory Log_Transactions
  imports Log_Recovery
begin

text \<open>
  The log as its clients use it. \<open>log_write\<close> records a held buffer in the header and pins its
  block in the cache; the locale \<open>logged_store\<close> states what the file system may rely on between
  \<open>begin_op\<close> and \<open>end_op\<close>, and is interpreted on \<open>bread\<close>, \<open>log_write\<close> and \<open>brelse\<close>.
  \<open>tx_step\<close> is the reservation protocol of concurrent operations.
\<close>

section \<open>Recording a block\<close>

text \<open>
  The state inside a transaction of a process that holds the buffers \<open>H\<close>: \<open>log_ok\<close> with buffers
  in use, on a log no larger than the one \<^verbatim>\<open>mkfs\<close> lays out.
\<close>

definition tx_ok :: "'a log_scheme \<Rightarrow> nat set \<Rightarrow> bool" where
  "tx_ok s H \<longleftrightarrow> log_geo s \<and> log_size s \<le> int LOGSIZE \<and> binv s H \<and>
     head_ok s (lh_n s) ((!) (lh_block s)) \<and> length (lh_block s) = LOGSIZE \<and>
     distinct (take (nat (lh_n s)) (lh_block s)) \<and>
     dblocks s = set (take (nat (lh_n s)) (lh_block s)) \<and> head_n (disk s (log_start s)) = 0"

definition lenv :: "'a log_scheme \<Rightarrow> uint \<times> int \<times> uint \<times> int \<times> int \<times> bool \<times> uint \<times> 'a" where
  "lenv s = (disksize s, mypid s, log_start s, log_size s, log_outstanding s, log_committing s,
     log_dev s, log.more s)"

lemma tx_ok_log_ok: "tx_ok s {} \<longleftrightarrow> log_ok s \<and> log_size s \<le> int LOGSIZE"
  by (auto simp: tx_ok_def log_ok_def head_ok_def LOGSIZE_def NBUF_def)

lemma lenv_benv: "benv s = benv t \<Longrightarrow> lenv s = lenv t"
  using benv_log [of s t] by (simp add: lenv_def)

lemma tx_ok_cong:
  assumes "tx_ok s H" and "benv t = benv s" and "binv t H'" and "dblocks t = dblocks s" and "disk t = disk s"
  shows "tx_ok t H'"
proof -
  note e = benv_log [OF assms(2)]
  have "head_ok t = head_ok s" by (rule head_ok_cong [OF assms(2)])
  then show ?thesis using assms e by (simp add: tx_ok_def log_geo_cong [OF assms(2)])
qed

lemma log_slot_le: "log_slot b bl \<le> length bl"
  by (simp add: log_slot_def length_takeWhile_le)

lemma log_slot_hit: "b \<in> set bl \<Longrightarrow> log_slot b bl < length bl \<and> bl ! log_slot b bl = b"
  by (induction bl) (auto simp: log_slot_def)

lemma log_slot_miss: "b \<notin> set bl \<Longrightarrow> log_slot b bl = length bl"
  by (induction bl) (auto simp: log_slot_def)

text \<open>Setting the dirty bit of a held buffer pins its block and changes nothing else.\<close>

lemma pin_ok:
  assumes inv: "binv s H" and b: "b \<in> H"
    and t: "bufs t = (bufs s)[b := (bufs s ! b)\<lparr>b_dirty := True\<rparr>]" "disk t = disk s"
      "disksize t = disksize s" "mypid t = mypid s"
  shows "binv t H" "bview t = bview s" "dblocks t = insert (blk s b) (dblocks s)"
    "blk t = blk s" "bdata t = bdata s"
proof -
  have lt: "b < NBUF" using held_ok [OF inv b] by simp
  have len: "length (bufs s) = Suc NBUF" by (rule binvD(3) [OF inv])
  have same: "b_dev (bufs t ! i) = b_dev (bufs s ! i) \<and> b_blockno (bufs t ! i) = b_blockno (bufs s ! i) \<and>
     b_data (bufs t ! i) = b_data (bufs s ! i)" for i
    by (simp add: t nth_upd)
  show "blk t = blk s" "bdata t = bdata s" using same by (simp_all add: blk_def fun_eq_iff)
  then show "bview t = bview s" 
    using same t(2) by (intro ext) (simp add: bview_def cached_at_def split: option.splits)
  show "dblocks t = insert (blk s b) (dblocks s)"
    using lt len \<open>blk t = blk s\<close> by (auto simp: dblocks_def t nth_upd split: if_splits)
  note h = held_ok [OF inv b] and I = binvD [OF inv]
  show "binv t H"
  proof (rule binv_update [OF inv lt _ _ _ _ t(1,3,4)])
    show "buf_ok t (b \<in> H) ((bufs s ! b)\<lparr>b_dirty := True\<rparr>)"
      using I(4) [OF lt] b h t by (simp add: buf_ok_def)
    show "b_blockno (bufs s ! j) \<noteq> b_blockno ((bufs s ! b)\<lparr>b_dirty := True\<rparr>)"
      if "j < NBUF" "j \<noteq> b" "b_dev (bufs s ! j) = 1" for j
      using that I(5) [of j b] h by auto
  qed (use I t in auto)
qed

lemma slot_take:
  assumes "n \<le> length bl" and "i = log_slot x (take n bl)"
  shows "x \<in> set (take n bl) \<Longrightarrow> i < n \<and> bl[i := x] = bl"
    and "x \<notin> set (take n bl) \<Longrightarrow> i = n"
    and "n < length bl \<Longrightarrow> x \<notin> set (take n bl) \<Longrightarrow> take (Suc n) (bl[i := x]) = take n bl @ [x]"
proof -
  show "i < n \<and> bl[i := x] = bl" if "x \<in> set (take n bl)"
  proof -
    have "i < n" "bl ! i = x" using log_slot_hit [OF that] assms by auto
    then show ?thesis using list_update_id [of bl i] by simp
  qed
  show m: "i = n" if "x \<notin> set (take n bl)"
    using log_slot_miss [OF that] assms by simp
  show "take (Suc n) (bl[i := x]) = take n bl @ [x]" if "n < length bl" "x \<notin> set (take n bl)"
    using m [OF that(2)] that(1) by (simp add: take_Suc_conv_app_nth)
qed

lemma log_write_ok:
  assumes tx: "tx_ok s H" and b: "b \<in> H" and full: "lh_n s < log_size s - 1" and out: "1 \<le> log_outstanding s"
    and reg: "blk s b \<notin> log_region (log_start s) (log_size s)"
  obtains s' where "log_write b s = Ok s'" and "tx_ok s' H" and "bview s' = bview s" and "disk s' = disk s"
    and "dblocks s' = insert (blk s b) (dblocks s)" and "blk s' = blk s" and "bdata s' = bdata s"
    and "dwrites s' = dwrites s" and "lenv s' = lenv s"
    and "lh_n s' = (if blk s b \<in> dblocks s then lh_n s else lh_n s + 1)"
proof -
  let ?n = "nat (lh_n s)" and ?x = "blk s b"
  define i where "i = log_slot ?x (take ?n (lh_block s))"
  have T: "log_geo s" "log_size s \<le> int LOGSIZE" "binv s H" "head_ok s (lh_n s) ((!) (lh_block s))"
    "length (lh_block s) = LOGSIZE" "distinct (take ?n (lh_block s))"
    "dblocks s = set (take ?n (lh_block s))" "head_n (disk s (log_start s)) = 0"
    using tx by (auto simp: tx_ok_def)
  have n: "0 \<le> lh_n s" "?n < LOGSIZE" using T(2,4) full by (auto simp: head_ok_def)
  have le: "?n \<le> length (lh_block s)" using n T(5) by simp
  have xlt: "?x < disksize s" using held_ok(6) [OF T(3) b] by (simp add: blk_def)
  have i: "i < LOGSIZE" using log_slot_le [of ?x "take ?n (lh_block s)"] n le by (simp add: i_def)
  define t where "t = bupd b (\<lambda>b. b\<lparr>b_dirty := True\<rparr>) (s\<lparr>lh_block := (lh_block s)[i := ?x],
      lh_n := (if int i = lh_n s then lh_n s + 1 else lh_n s)\<rparr>)"
  have tf: "lenv t = lenv s" "dwrites t = dwrites s" "disk t = disk s" "disksize t = disksize s"
    "mypid t = mypid s" "bufs t = (bufs s)[b := (bufs s ! b)\<lparr>b_dirty := True\<rparr>]"
    "lh_block t = (lh_block s)[i := ?x]" "lh_n t = (if int i = lh_n s then lh_n s + 1 else lh_n s)"
    "log_start t = log_start s" "log_size t = log_size s" "log_dev t = log_dev s"
    by (simp_all add: t_def bupd_def lenv_def)
  note P = pin_ok [OF T(3) b tf(6,3,4,5)]
  have c: "log_write b s = Ok t"
    using n full out T(2,5) i
    by (simp add: log_write_def aset_def t_def i_def [symmetric] blk_def [symmetric] head_swap Let_def)
  have ln: "lh_n t = (if ?x \<in> dblocks s then lh_n s else lh_n s + 1)"
    using slot_take(1,2) [OF le i_def] T(7) n(1) by (auto simp: tf)
  have tk: "distinct (take (nat (lh_n t)) (lh_block t)) \<and>
      set (take (nat (lh_n t)) (lh_block t)) = insert ?x (dblocks s) \<and> length (lh_block t) = LOGSIZE"
  proof (cases "?x \<in> dblocks s")
    case True
    then show ?thesis using slot_take(1) [OF le i_def] T(5,6,7) ln by (auto simp: tf(7))
  next
    case False
    have "nat (lh_n t) = Suc ?n" using False ln n(1) by simp
    then show ?thesis using False slot_take(3) [OF le i_def] T(5,6,7) n(2) by (simp add: tf(7))
  qed
  have "tx_ok t H"
  proof -
    have len: "nat (lh_n t) \<le> length (lh_block t)" using ln n tk by auto
    have "lh_block t ! k < disksize s \<and> lh_block t ! k \<notin> log_region (log_start s) (log_size s)"
      if "k < nat (lh_n t)" for k
    proof -
      have "lh_block t ! k \<in> set (take (nat (lh_n t)) (lh_block t))"
        using that len by (metis in_set_conv_nth length_take min_absorb2 nth_take)
      then consider "lh_block t ! k = ?x" | "lh_block t ! k \<in> set (take ?n (lh_block s))"
        using tk T(7) by auto
      then show ?thesis
      proof cases
        case 2
        then obtain m where "m < ?n" and m: "lh_block s ! m = lh_block t ! k"
          unfolding in_set_conv_nth by auto
        then have "lh_block s ! m < disksize s \<and> lh_block s ! m \<notin> log_region (log_start s) (log_size s)"
          using T(4) unfolding head_ok_def by blast
        then show ?thesis unfolding m .
      qed (use xlt reg in auto)
    qed
    then have "head_ok t (lh_n t) ((!) (lh_block t))"
      using ln n full T(2) by (simp add: head_ok_def tf)
    then show ?thesis using T tk P tf by (simp add: tx_ok_def log_geo_def)
  qed
  then show thesis using that c P tf ln by simp
qed

section \<open>The contract of the log\<close>

locale logged_store =
  fixes bread :: "uint \<Rightarrow> 's \<Rightarrow> (nat \<times> 's) outcome"
    and log_write :: "nat \<Rightarrow> 's \<Rightarrow> 's outcome"
    and brelse :: "nat \<Rightarrow> 's \<Rightarrow> 's outcome"
    and bset :: "nat \<Rightarrow> byte list \<Rightarrow> 's \<Rightarrow> 's"
    and data :: "'s \<Rightarrow> nat \<Rightarrow> byte list"
    and blk :: "'s \<Rightarrow> nat \<Rightarrow> uint"
    and ok :: "'s \<Rightarrow> nat set \<Rightarrow> bool"
    and view :: "'s \<Rightarrow> uint \<Rightarrow> byte list"
    and pinned :: "'s \<Rightarrow> uint set"
    and env :: "'s \<Rightarrow> 'e"
    and left :: "'s \<Rightarrow> nat"
    and home :: "'e \<Rightarrow> uint set"
    and cap :: nat
    and bsz :: nat
  assumes view_length: "ok s H \<Longrightarrow> length (view s n) = bsz"
    and capacity: "ok s H \<Longrightarrow> card (pinned s) + left s < cap"
    and clean: "ok s H \<Longrightarrow> b \<in> H \<Longrightarrow> data s b = view s (blk s b)"
    and bread_ok:
      "ok s H \<Longrightarrow> n \<in> home (env s) \<Longrightarrow> n \<notin> blk s ` H \<Longrightarrow>
       n \<in> pinned s \<or> card (pinned s \<union> blk s ` H) < cap \<Longrightarrow>
       \<exists>b s'. bread n s = Ok (b, s') \<and> b \<notin> H \<and> ok s' (insert b H) \<and> blk s' b = n \<and>
         data s' b = view s n \<and> view s' = view s \<and> pinned s' = pinned s \<and> left s' = left s \<and>
         env s' = env s \<and> (\<forall>i \<in> H. blk s' i = blk s i \<and> data s' i = data s i)"
    and log_write_ok:
      "ok s H \<Longrightarrow> b \<in> H \<Longrightarrow> blk s b \<in> home (env s) \<Longrightarrow> length d = bsz \<Longrightarrow> 0 < left s \<Longrightarrow>
       \<exists>s'. log_write b (bset b d s) = Ok s' \<and> ok s' H \<and> view s' = (view s)(blk s b := d) \<and>
         pinned s' = insert (blk s b) (pinned s) \<and> blk s' = blk s \<and> data s' b = d \<and>
         (\<forall>i \<in> H - {b}. data s' i = data s i) \<and> env s' = env s \<and>
         left s' = (if blk s b \<in> pinned s then left s else left s - 1)"
    and brelse_ok:
      "ok s H \<Longrightarrow> b \<in> H \<Longrightarrow>
       \<exists>s'. brelse b s = Ok s' \<and> ok s' (H - {b}) \<and> view s' = view s \<and> pinned s' = pinned s \<and>
         left s' = left s \<and> env s' = env s \<and> blk s' = blk s \<and> data s' = data s"
begin

lemma read_release:
  assumes "ok s H" and "n \<in> home (env s)" and "n \<notin> blk s ` H"
    and "n \<in> pinned s \<or> card (pinned s \<union> blk s ` H) < cap"
  obtains b s1 s2 where "bread n s = Ok (b, s1)" and "brelse b s1 = Ok s2" and "data s1 b = view s n"
    and "ok s2 H" and "view s2 = view s" and "pinned s2 = pinned s" and "left s2 = left s"
    and "env s1 = env s" and "env s2 = env s" and "\<And>i. i \<in> H \<Longrightarrow> blk s2 i = blk s i \<and> data s2 i = data s i"
proof -
  from bread_ok [OF assms] obtain b s1 where r: "bread n s = Ok (b, s1)" "b \<notin> H"
      "ok s1 (insert b H)" "data s1 b = view s n" "view s1 = view s" "pinned s1 = pinned s"
      "left s1 = left s" "env s1 = env s" "\<forall>i \<in> H. blk s1 i = blk s i \<and> data s1 i = data s i"
    by auto
  have "insert b H - {b} = H" using r(2) by auto
  with brelse_ok [OF r(3), of b] r that show thesis by auto
qed

lemma update_logged:
  assumes "ok s H" and "n \<in> home (env s)" and "n \<notin> blk s ` H"
    and "n \<in> pinned s \<or> card (pinned s \<union> blk s ` H) < cap" and "length d = bsz" and "0 < left s"
  obtains b s1 s2 s3 where "bread n s = Ok (b, s1)" and "log_write b (bset b d s1) = Ok s2"
    and "brelse b s2 = Ok s3" and "data s1 b = view s n" and "ok s3 H"
    and "view s3 = (view s)(n := d)" and "pinned s3 = insert n (pinned s)"
    and "left s3 = (if n \<in> pinned s then left s else left s - 1)"
    and "env s1 = env s" and "env s2 = env s" and "env s3 = env s"
    and "\<And>i. i \<in> H \<Longrightarrow> blk s3 i = blk s i \<and> data s3 i = data s i"
proof -
  from bread_ok [OF assms(1-4)] obtain b s1 where r: "bread n s = Ok (b, s1)" "b \<notin> H"
      "ok s1 (insert b H)" "data s1 b = view s n" "view s1 = view s" "pinned s1 = pinned s"
      "left s1 = left s" "env s1 = env s" "\<forall>i \<in> H. blk s1 i = blk s i \<and> data s1 i = data s i"
      "blk s1 b = n"
    by auto
  from log_write_ok [OF r(3), of b d] r assms obtain s2 where l: "log_write b (bset b d s1) = Ok s2"
      "ok s2 (insert b H)" "view s2 = (view s)(n := d)" "pinned s2 = insert n (pinned s)"
      "blk s2 = blk s1" "\<forall>i \<in> insert b H - {b}. data s2 i = data s1 i" "env s2 = env s"
      "left s2 = (if n \<in> pinned s then left s else left s - 1)"
    by auto
  have "insert b H - {b} = H" using r(2) by auto
  with brelse_ok [OF l(2), of b] r l that show thesis by auto
qed

end

definition log_left :: "'a log_scheme \<Rightarrow> nat" where
  "log_left s = nat (log_size s - 1 - lh_n s)"

definition home_blocks :: "uint \<times> int \<times> uint \<times> int \<times> int \<times> bool \<times> uint \<times> 'a \<Rightarrow> uint set" where
  "home_blocks e = (case e of (dsz, _, st, sz, _) \<Rightarrow> {n. n < dsz} - log_region st sz)"

definition in_tx :: "'a log_scheme \<Rightarrow> nat set \<Rightarrow> bool" where
  "in_tx s H \<longleftrightarrow> tx_ok s H \<and> 1 \<le> log_outstanding s \<and>
     (\<forall>b \<in> H. blk s b \<in> dblocks s \<or> bdata s b = disk s (blk s b))"

lemma in_txD:
  assumes "in_tx s H"
  shows "tx_ok s H" "binv s H" "1 \<le> log_outstanding s"
    "b \<in> H \<Longrightarrow> blk s b \<in> dblocks s \<or> bdata s b = disk s (blk s b)"
  using assms by (auto simp: in_tx_def tx_ok_def)

lemma in_tx_bread:
  assumes tx: "in_tx s H" and n: "n \<in> home_blocks (lenv s)" "n \<notin> blk s ` H"
    "n \<in> dblocks s \<or> card (dblocks s \<union> blk s ` H) < NBUF"
  shows "\<exists>b s'. bread 1 n s = Ok (b, s') \<and> b \<notin> H \<and> in_tx s' (insert b H) \<and> blk s' b = n \<and>
         bdata s' b = bview s n \<and> bview s' = bview s \<and> dblocks s' = dblocks s \<and> log_left s' = log_left s \<and>
         lenv s' = lenv s \<and> (\<forall>i \<in> H. blk s' i = blk s i \<and> bdata s' i = bdata s i)"
proof -
  note t = in_txD(1-3) [OF tx]
  have "n < disksize s" using n(1) by (simp add: home_blocks_def lenv_def)
  from bc.bread_ok [OF t(2) this n(2,3)] obtain b s' where r: "bread 1 n s = Ok (b, s')" "b \<notin> H"
      "binv s' (insert b H)" "blk s' b = n" "bdata s' b = bview s n" "bview s' = bview s" "disk s' = disk s"
      "dblocks s' = dblocks s" "benv s' = benv s" "\<forall>i \<in> H. blk s' i = blk s i \<and> bdata s' i = bdata s i"
    by blast
  note e = benv_log [OF r(9)]
  have tx': "tx_ok s' (insert b H)" by (rule tx_ok_cong [OF t(1) r(9,3,8,7)])
  have "blk s' i \<in> dblocks s' \<or> bdata s' i = disk s' (blk s' i)" if i: "i \<in> insert b H" for i
  proof (cases "i = b")
    case True
    then show ?thesis using r(4,5,7,8) bc.coherent [OF t(2) n(2)] by auto
  next
    case False
    then show ?thesis using i tx r(7,8,10) unfolding in_tx_def by auto
  qed
  then have "in_tx s' (insert b H)" using tx' t(3) e(3) by (simp add: in_tx_def)
  moreover have "log_left s' = log_left s" using e by (simp add: log_left_def)
  ultimately show ?thesis using r lenv_benv [OF r(9)] by blast
qed

lemma in_tx_log_write:
  assumes tx: "in_tx s H" and b: "b \<in> H" "blk s b \<in> home_blocks (lenv s)" "length d = BSIZE" "0 < log_left s"
  shows "\<exists>s'. log_write b (bset b d s) = Ok s' \<and> in_tx s' H \<and> bview s' = (bview s)(blk s b := d) \<and>
         dblocks s' = insert (blk s b) (dblocks s) \<and> blk s' = blk s \<and> bdata s' b = d \<and>
         (\<forall>i \<in> H - {b}. bdata s' i = bdata s i) \<and> lenv s' = lenv s \<and>
         log_left s' = (if blk s b \<in> dblocks s then log_left s else log_left s - 1)"
proof -
  note t = in_txD(1-3) [OF tx]
  define u where "u = bset b d s"
  have u: "binv u H" "bdata u b = d" "bview u = (bview s)(blk s b := d)" "disk u = disk s"
    "dblocks u = dblocks s" "benv u = benv s" "blk u = blk s" "\<forall>i \<in> H - {b}. bdata u i = bdata s i"
    using bset_bio_ok [OF t(2) b(1,3)] by (auto simp: u_def)
  note e = benv_log [OF u(6)]
  have tu: "tx_ok u H" by (rule tx_ok_cong [OF t(1) u(6,1,5,4)])
  have full: "lh_n u < log_size u - 1" using b(4) e by (simp add: log_left_def)
  have reg: "blk u b \<notin> log_region (log_start u) (log_size u)"
    using b(2) u(7) e by (simp add: home_blocks_def lenv_def)
  have out: "1 \<le> log_outstanding u" using t(3) e by simp
  obtain s' where l: "log_write b u = Ok s'" "tx_ok s' H" "bview s' = bview u" "disk s' = disk u"
      "dblocks s' = insert (blk u b) (dblocks u)" "blk s' = blk u" "bdata s' = bdata u"
      "dwrites s' = dwrites u" "lenv s' = lenv u" "lh_n s' = (if blk u b \<in> dblocks u then lh_n u else lh_n u + 1)"
    by (rule log_write_ok [OF tu b(1) full out reg]) (rule that)
  have g: "bdata s' i = bdata u i" for i using fun_cong [OF l(7), of i] .
  have f: "log_size s' = log_size s" "log_outstanding s' = log_outstanding s"
    using l(9) e by (auto simp: lenv_def)
  have "blk s' i \<in> dblocks s' \<or> bdata s' i = disk s' (blk s' i)" if i: "i \<in> H" for i
  proof (cases "i = b")
    case False
    then have "bdata s' i = bdata s i" using i g u(8) by simp
    moreover have "blk s i \<in> dblocks s \<or> bdata s i = disk s (blk s i)" using tx i by (auto simp: in_tx_def)
    ultimately show ?thesis using l u by auto
  qed (use l u in simp)
  then have "in_tx s' H" using l(2) f t(3) by (simp add: in_tx_def)
  moreover have "log_left s' = (if blk s b \<in> dblocks s then log_left s else log_left s - 1)"
    using l(10) u(5,7) e(6) f(1) by (simp add: log_left_def) arith
  ultimately show ?thesis
    using l(1-6,9) g u lenv_benv [OF u(6)] by (simp add: u_def [symmetric])
qed

lemma in_tx_brelse:
  assumes tx: "in_tx s H" and b: "b \<in> H"
  shows "\<exists>s'. brelse b s = Ok s' \<and> in_tx s' (H - {b}) \<and> bview s' = bview s \<and> dblocks s' = dblocks s \<and>
         log_left s' = log_left s \<and> lenv s' = lenv s \<and> blk s' = blk s \<and> bdata s' = bdata s"
proof -
  note t = in_txD(1-3) [OF tx]
  have "blk s b \<in> dblocks s \<or> bdata s b = disk s (blk s b)" using tx b by (auto simp: in_tx_def)
  from bc.brelse_ok [OF t(2) b this] obtain s' where r: "brelse b s = Ok s'" "binv s' (H - {b})"
      "bview s' = bview s" "disk s' = disk s" "dblocks s' = dblocks s" "benv s' = benv s"
      "blk s' = blk s" "bdata s' = bdata s"
    by blast
  note e = benv_log [OF r(6)]
  have g: "bdata s' i = bdata s i" for i using fun_cong [OF r(8), of i] .
  have "in_tx s' (H - {b})"
    using tx_ok_cong [OF t(1) r(6,2,5,4)] tx r(4,5,7) g e(3) by (auto simp: in_tx_def)
  moreover have "log_left s' = log_left s" using e by (simp add: log_left_def)
  ultimately show ?thesis using r lenv_benv [OF r(6)] by blast
qed

interpretation lg: logged_store "bread 1" log_write brelse bset bdata blk in_tx bview dblocks lenv
  log_left home_blocks NBUF BSIZE
proof unfold_locales
  fix s :: "'a log_scheme" and H b n
  assume "in_tx s H"
  note t = in_txD(1-3) [OF this]
  show "length (bview s n) = BSIZE" by (rule bc.view_length [OF t(2)])
  show "card (dblocks s) + log_left s < NBUF"
  proof -
    have "card (dblocks s) \<le> nat (lh_n s)"
      using t(1) card_length [of "take (nat (lh_n s)) (lh_block s)"] by (auto simp: tx_ok_def)
    then show ?thesis using t(1) by (auto simp: log_left_def tx_ok_def head_ok_def LOGSIZE_def NBUF_def log_geo_def)
  qed
  show "bdata s b = bview s (blk s b)" if "b \<in> H"
    using bview_cached(2) [OF t(2), of b] held_ok [OF t(2) that] by simp
qed (rule in_tx_bread in_tx_log_write in_tx_brelse; assumption)+

section \<open>Reservations of concurrent operations\<close>

text \<open>
  A step of the log seen by all processes: \<open>begin_op\<close> admits an operation with a budget of
  \<open>MAXOPBLOCKS\<close> new blocks, \<open>log_write\<close> spends from the budget of the operation that calls it, and
  \<open>end_op\<close> retires one.
\<close>

inductive tx_step :: "'a log_scheme \<times> int list \<Rightarrow> 'a log_scheme \<times> int list \<Rightarrow> bool" where
  tx_begin: "begin_op s = Ok s' \<Longrightarrow> tx_step (s, bs) (s', bs @ [MAXOPBLOCKS])"
| tx_write: "j < length bs \<Longrightarrow> log_write b s = Ok s' \<Longrightarrow> lh_n s' - lh_n s \<le> bs ! j \<Longrightarrow>
    tx_step (s, bs) (s', bs[j := bs ! j - (lh_n s' - lh_n s)])"
| tx_end: "j < length bs \<Longrightarrow> end_op s = Ok s' \<Longrightarrow> tx_step (s, bs) (s', take j bs @ drop (Suc j) bs)"

definition tx_inv :: "'a log_scheme \<times> int list \<Rightarrow> bool" where
  "tx_inv = (\<lambda>(s, bs). log_outstanding s = int (length bs) \<and> \<not> log_committing s \<and> 0 \<le> lh_n s \<and>
     length (lh_block s) = LOGSIZE \<and> (\<forall>b \<in> set bs. 0 \<le> b \<and> b \<le> MAXOPBLOCKS) \<and>
     lh_n s + sum_list bs \<le> int LOGSIZE)"

lemma bupd_frame [simp]: "benv (bupd i f s) = benv s"
  by (simp add: bupd_def benv_def)

lemma iderw_frame: "iderw b s = Ok s' \<Longrightarrow> benv s' = benv s"
  by (auto simp: iderw_def Let_def benv_def bupd_def split: if_splits)

lemma bget_frame:
  assumes "bget d n s = Ok (b, s')"
  shows "benv s' = benv s"
proof -
  have take: "benv s' = benv s"
    if "obind r (\<lambda>lk. Ok (c, bupd c (g lk) (bupd c f s))) = Ok (b, s')"
    for r :: "sleeplock outcome" and c f g
    using that by (cases r) auto
  let ?r = "\<lambda>link P b. scan (Suc NBUF) link P (bufs s) b"
  obtain r where "?r b_next (\<lambda>b. b_dev b = d \<and> b_blockno b = n) (b_next (bufs s ! NBUF)) = Ok r"
    using assms by (cases "?r b_next (\<lambda>b. b_dev b = d \<and> b_blockno b = n) (b_next (bufs s ! NBUF))")
      (simp_all add: bget_def)
  note r = this
  show ?thesis
  proof (cases r)
    case (Some c)
    with assms r show ?thesis unfolding bget_def Let_def by (auto intro: take)
  next
    case None
    then obtain q where q: "?r b_prev (\<lambda>b. b_refcnt b = 0 \<and> \<not> b_dirty b) (b_prev (bufs s ! NBUF)) = Ok q"
      using assms r by (cases "?r b_prev (\<lambda>b. b_refcnt b = 0 \<and> \<not> b_dirty b) (b_prev (bufs s ! NBUF))")
        (simp_all add: bget_def)
    with assms r None show ?thesis unfolding bget_def Let_def by (cases q) (auto intro: take)
  qed
qed

lemma bread_frame: "bread d n s = Ok (b, s') \<Longrightarrow> benv s' = benv s"
  by (auto simp: bread_def obind_eq_Ok_iff dest!: bget_frame iderw_frame split: if_splits)

lemma bwrite_frame: "bwrite b s = Ok s' \<Longrightarrow> benv s' = benv s"
  by (auto simp: bwrite_def dest!: iderw_frame split: if_splits)

lemma brelse_env: "brelse b s = Ok s' \<Longrightarrow> benv s' = benv s"
  by (auto simp: brelse_def Let_def benv_def bupd_def split: if_splits)

lemma bset_frame [simp]: "benv (bset b d s) = benv s"
  by (simp add: bset_def bupd_def benv_def)

lemma ofold_frame:
  assumes "\<And>i s s'. f i s = Ok s' \<Longrightarrow> e s' = e s"
  shows "ofold f is s = Ok s' \<Longrightarrow> e s' = e s"
proof (induction "is" arbitrary: s)
  case (Cons i "is")
  then obtain t where "f i s = Ok t" "ofold f is t = Ok s'" by (auto simp: obind_eq_Ok_iff)
  with assms [of i s t] Cons.IH [of t] show ?case by simp
qed simp

lemma install_step_frame: "install_step i s = Ok s' \<Longrightarrow> benv s' = benv s"
  by (auto simp: install_step_def obind_eq_Ok_iff dest!: bread_frame bwrite_frame brelse_env)

lemma write_log_step_frame: "write_log_step i s = Ok s' \<Longrightarrow> benv s' = benv s"
  by (auto simp: write_log_step_def obind_eq_Ok_iff dest!: bread_frame bwrite_frame brelse_env)

lemma write_head_frame: "write_head s = Ok s' \<Longrightarrow> benv s' = benv s"
  by (auto simp: write_head_def obind_eq_Ok_iff dest!: bread_frame bwrite_frame brelse_env)

lemma commit_frame:
  assumes "commit s = Ok s'"
  shows "if 0 < lh_n s then benv s' = benv (s\<lparr>lh_n := 0\<rparr>) else s' = s"
proof (cases "0 < lh_n s")
  case True
  with assms obtain s1 s2 s3 where c: "write_log s = Ok s1" "write_head s1 = Ok s2"
      "install_trans s2 = Ok s3" "write_head (s3\<lparr>lh_n := 0\<rparr>) = Ok s'"
    by (auto simp: commit_def obind_eq_Ok_iff)
  have "benv s1 = benv s" by (rule ofold_frame [OF write_log_step_frame c(1) [unfolded write_log_def]])
  moreover have "benv s2 = benv s1" by (rule write_head_frame [OF c(2)])
  moreover have "benv s3 = benv s2"
    by (rule ofold_frame [OF install_step_frame c(3) [unfolded install_trans_def]])
  ultimately have "benv s3 = benv s" by simp
  then have "benv (s3\<lparr>lh_n := 0\<rparr>) = benv (s\<lparr>lh_n := 0\<rparr>)"
    by (cases s; cases s3) (simp add: benv_def)
  then show ?thesis using True write_head_frame [OF c(4)] by simp
qed (use assms in \<open>simp add: commit_def\<close>)

lemma end_op_frame:
  assumes "end_op s = Ok s'"
  shows "log_outstanding s' = log_outstanding s - 1 \<and> \<not> log_committing s' \<and> log_size s' = log_size s \<and>
    length (lh_block s') = length (lh_block s) \<and> (0 \<le> lh_n s \<longrightarrow> 0 \<le> lh_n s' \<and> lh_n s' \<le> lh_n s)"
proof -
  let ?s = "s\<lparr>log_outstanding := log_outstanding s - 1, log_committing := True\<rparr>"
  consider (quiet) "s' = s\<lparr>log_outstanding := log_outstanding s - 1\<rparr>" "\<not> log_committing s"
    | (commit) t where "commit ?s = Ok t" "s' = t\<lparr>log_committing := False\<rparr>"
    using assms by (auto simp: end_op_def Let_def obind_eq_Ok_iff split: if_splits)
  then show ?thesis
  proof cases
    case (commit t)
    show ?thesis
    proof (cases "0 < lh_n s")
      case True
      with commit_frame [OF commit(1)] have "benv t = benv (?s\<lparr>lh_n := 0\<rparr>)" by simp
      from benv_log [OF this] commit(2) True show ?thesis by simp
    next
      case False
      with commit_frame [OF commit(1)] have "t = ?s" by simp
      with commit(2) show ?thesis by simp
    qed
  qed simp
qed

lemma log_write_frame:
  assumes "log_write b s = Ok s'"
  shows "log_outstanding s' = log_outstanding s \<and> log_committing s' = log_committing s \<and>
    log_size s' = log_size s \<and> length (lh_block s') = length (lh_block s) \<and>
    (lh_n s' = lh_n s \<or> lh_n s' = lh_n s + 1)"
  using assms
  by (auto simp: log_write_def Let_def obind_eq_Ok_iff aset_def bupd_def split: if_splits)

lemma sum_list_update_int: "j < length bs \<Longrightarrow> sum_list (bs[j := x]) = sum_list bs - bs ! j + (x::int)"
  by (induction bs arbitrary: j) (auto split: nat.splits)

lemma sum_list_remove: "j < length bs \<Longrightarrow> sum_list (take j bs @ drop (Suc j) bs) = sum_list bs - (bs ! j :: int)"
  using arg_cong [OF id_take_nth_drop, of j bs sum_list] by simp

lemma sum_list_bound: "(\<And>b. b \<in> set bs \<Longrightarrow> b \<le> m) \<Longrightarrow> sum_list bs \<le> int (length bs) * m"
proof (induction bs)
  case (Cons a bs)
  then have "sum_list bs \<le> int (length bs) * m" "a \<le> m" by auto
  then show ?case by (simp add: algebra_simps)
qed simp

lemma tx_inv_step:
  assumes "tx_step p q" and "tx_inv p"
  shows "tx_inv q"
  using assms
proof cases
  case (tx_begin s s' bs)
  then have s': "s' = s\<lparr>log_outstanding := log_outstanding s + 1\<rparr>"
      and room: "lh_n s + (log_outstanding s + 1) * MAXOPBLOCKS \<le> int LOGSIZE"
    by (auto simp: begin_op_def split: if_splits)
  have "sum_list bs \<le> int (length bs) * MAXOPBLOCKS"
    using assms(2) tx_begin by (intro sum_list_bound) (auto simp: tx_inv_def)
  then show ?thesis
    using assms(2) tx_begin s' room by (auto simp: tx_inv_def algebra_simps MAXOPBLOCKS_def)
next
  case (tx_write j bs b s s')
  note I = assms(2) [unfolded tx_write(1) tx_inv_def prod.case] and F = log_write_frame [OF tx_write(4)]
  let ?x = "bs ! j - (lh_n s' - lh_n s)"
  have "0 \<le> bs ! j" "bs ! j \<le> MAXOPBLOCKS" using I tx_write(3) nth_mem by blast+
  then have "0 \<le> ?x \<and> ?x \<le> MAXOPBLOCKS" using F tx_write(5) by linarith
  moreover have "b = ?x \<or> b \<in> set bs" if "b \<in> set (bs[j := ?x])" for b
    using that set_update_subset_insert by fast
  ultimately have "\<forall>b \<in> set (bs[j := ?x]). 0 \<le> b \<and> b \<le> MAXOPBLOCKS" using I by blast
  moreover have "0 \<le> lh_n s'" using I F by linarith
  ultimately show ?thesis
    using I F sum_list_update_int [OF tx_write(3), of ?x] unfolding tx_write(2) tx_inv_def prod.case by simp
next
  case (tx_end j bs s s')
  note I = assms(2) [unfolded tx_end(1) tx_inv_def prod.case] and F = end_op_frame [OF tx_end(4)]
  let ?bs = "take j bs @ drop (Suc j) bs"
  have "0 \<le> bs ! j" using I tx_end(3) nth_mem by blast
  then have "lh_n s' + sum_list ?bs \<le> int LOGSIZE" using I F sum_list_remove [OF tx_end(3)] by linarith
  moreover have "log_outstanding s' = int (length ?bs)" using tx_end(3) I F by simp
  moreover have "set ?bs \<subseteq> set bs" using set_take_subset [of j bs] set_drop_subset [of "Suc j" bs] by simp
  then have "\<forall>b \<in> set ?bs. 0 \<le> b \<and> b \<le> MAXOPBLOCKS" using I by blast
  moreover have "0 \<le> lh_n s'" "length (lh_block s') = LOGSIZE" "\<not> log_committing s'" using I F by auto
  ultimately show ?thesis unfolding tx_end(2) tx_inv_def prod.case by (intro conjI)
qed

lemma tx_inv_reachable: "tx_step\<^sup>*\<^sup>* p q \<Longrightarrow> tx_inv p \<Longrightarrow> tx_inv q"
  by (induction rule: rtranclp_induct) (simp_all add: tx_inv_step)

lemma sum_list_pos_nth: "0 < sum_list bs \<Longrightarrow> \<exists>j < length bs. 0 < (bs ! j :: int)"
proof (rule ccontr)
  assume "0 < sum_list bs" and "\<not> (\<exists>j < length bs. 0 < bs ! j)"
  moreover from this(2) have "sum_list bs \<le> 0" by (intro sum_list_nonpos) (auto simp: in_set_conv_nth)
  ultimately show False by simp
qed

lemma sum_list_ge_nth: "j < length bs \<Longrightarrow> \<forall>b \<in> set bs. 0 \<le> b \<Longrightarrow> (bs ! j :: int) \<le> sum_list bs"
proof (induction bs arbitrary: j)
  case (Cons b bs)
  have "0 \<le> sum_list bs" using Cons.prems by (intro sum_list_nonneg) auto
  then show ?case using Cons.prems Cons.IH [of "j - 1"] by (cases j) auto
qed simp

lemma within_budget:
  assumes "tx_inv (s, bs)" and "j < length bs" and "0 < bs ! j" and "int LOGSIZE < log_size s"
  shows "\<exists>s'. log_write b s = Ok s' \<and> lh_n s' - lh_n s \<le> bs ! j"
proof -
  have I: "log_outstanding s = int (length bs)" "0 \<le> lh_n s" "length (lh_block s) = LOGSIZE"
      "\<forall>b \<in> set bs. 0 \<le> b" "lh_n s + sum_list bs \<le> int LOGSIZE"
    using assms(1) by (auto simp: tx_inv_def)
  have "bs ! j \<le> sum_list bs" by (rule sum_list_ge_nth [OF assms(2) I(4)])
  then have n: "lh_n s < int LOGSIZE" using I(5) assms(3) by linarith
  have o: "1 \<le> log_outstanding s" using I(1) assms(2) by linarith
  let ?i = "log_slot (b_blockno (bufs s ! b)) (take (nat (lh_n s)) (lh_block s))"
  have "?i \<le> nat (lh_n s)"
    using log_slot_le [of "b_blockno (bufs s ! b)" "take (nat (lh_n s)) (lh_block s)"] by simp
  then have "?i < length (lh_block s)" using n I(2,3) by linarith
  then obtain s' where "log_write b s = Ok s'" using n o assms(4)
    by (simp add: log_write_def aset_def Let_def)
  moreover from log_write_frame [OF this] have "lh_n s' - lh_n s \<le> bs ! j" using assms(3) by linarith
  ultimately show ?thesis by blast
qed

text \<open>
  With the log that \<^verbatim>\<open>mkfs\<close> lays out, of \<open>LOGSIZE\<close> blocks with the header, the reservations
  of three operations exceed what \<open>log_write\<close> accepts.
\<close>

definition blocknos :: "'a bio_scheme \<Rightarrow> uint list" where
  "blocknos s = map b_blockno (bufs s)"

lemma blocknos_log_write: "log_write b s = Ok s' \<Longrightarrow> blocknos s' = blocknos s"
  by (auto simp: log_write_def Let_def obind_eq_Ok_iff blocknos_def bupd_def map_update
      intro: list_update_same_conv [THEN iffD2] split: if_splits intro!: nth_equalityI)
     (auto simp: nth_upd)

lemma log_write_fresh:
  assumes inv: "tx_inv (s, bs)" and full: "lh_n s < log_size s - 1" "log_size s \<le> int LOGSIZE" "1 \<le> log_outstanding s"
    and fresh: "b < length (bufs s)" "blocknos s ! b \<notin> set (take (nat (lh_n s)) (lh_block s))"
  obtains s' where "log_write b s = Ok s'" and "lh_n s' = lh_n s + 1"
    and "take (Suc (nat (lh_n s))) (lh_block s') = take (nat (lh_n s)) (lh_block s) @ [blocknos s ! b]"
proof -
  let ?x = "b_blockno (bufs s ! b)" and ?n = "nat (lh_n s)"
  have I: "0 \<le> lh_n s" "length (lh_block s) = LOGSIZE" using inv by (auto simp: tx_inv_def)
  have n: "?n < length (lh_block s)" "?n \<le> length (lh_block s)" using full I by linarith+
  define i where "i = log_slot ?x (take ?n (lh_block s))"
  have x: "?x \<notin> set (take ?n (lh_block s))" using fresh by (simp add: blocknos_def)
  note i = slot_take(2) [OF n(2) i_def x] slot_take(3) [OF n(2) i_def n(1) x]
  have "log_write b s = Ok (bupd b (\<lambda>b. b\<lparr>b_dirty := True\<rparr>)
      (s\<lparr>lh_block := (lh_block s)[i := ?x], lh_n := lh_n s + 1\<rparr>))"
    using full I n i(1)
    by (simp add: log_write_def Let_def aset_def i_def [symmetric] head_swap)
  then show thesis by (rule that) (use i fresh in \<open>simp_all add: bupd_def blocknos_def\<close>)
qed

lemma fill_log:
  assumes "tx_inv (s, bs)" and "lh_n s = 0" and "log_size s = int LOGSIZE" and "sum_list bs = int LOGSIZE"
    and "distinct (blocknos s)" and "LOGSIZE \<le> length (bufs s)" and "bs \<noteq> []" and "k < LOGSIZE"
  shows "\<exists>t cs. tx_step\<^sup>*\<^sup>* (s, bs) (t, cs) \<and> lh_n t = int k \<and> sum_list cs = int LOGSIZE - int k \<and>
    blocknos t = blocknos s \<and> take k (lh_block t) = take k (blocknos s) \<and> log_size t = log_size s"
  using assms(8)
proof (induction k)
  case 0
  show ?case using assms by (intro exI [of _ s] exI [of _ bs]) simp
next
  case (Suc k)
  then obtain t cs where IH: "tx_step\<^sup>*\<^sup>* (s, bs) (t, cs)" "lh_n t = int k" "sum_list cs = int LOGSIZE - int k"
      "blocknos t = blocknos s" "take k (lh_block t) = take k (blocknos s)" "log_size t = log_size s"
    by auto
  have inv: "tx_inv (t, cs)" by (rule tx_inv_reachable [OF IH(1) assms(1)])
  have "0 < sum_list cs" using IH(3) Suc.prems by simp
  then obtain j where j: "j < length cs" "0 < cs ! j" using sum_list_pos_nth by blast
  have out: "1 \<le> log_outstanding t" using inv j by (auto simp: tx_inv_def)
  have len: "length (bufs t) = length (bufs s)" using arg_cong [OF IH(4), of length] by (simp add: blocknos_def)
  have kl: "k < length (blocknos s)" using assms(6) Suc.prems by (simp add: blocknos_def)
  have fresh: "k < length (bufs t)" "blocknos t ! k \<notin> set (take (nat (lh_n t)) (lh_block t))"
    using kl IH len assms(5) by (auto simp: blocknos_def in_set_conv_nth distinct_conv_nth)
  obtain u where u: "log_write k t = Ok u" "lh_n u = lh_n t + 1"
      "take (Suc (nat (lh_n t))) (lh_block u) = take (nat (lh_n t)) (lh_block t) @ [blocknos t ! k]"
    by (rule log_write_fresh [OF inv _ _ out fresh]) (use IH assms(3) Suc.prems in auto)
  have "tx_step (t, cs) (u, cs[j := cs ! j - (lh_n u - lh_n t)])"
    by (rule tx_write [OF j(1) u(1)]) (use j(2) u(2) in simp)
  with IH(1) have "tx_step\<^sup>*\<^sup>* (s, bs) (u, cs[j := cs ! j - (lh_n u - lh_n t)])" by simp
  then show ?case
    using u IH kl blocknos_log_write [OF u(1)] log_write_frame [OF u(1)] sum_list_update_int [OF j(1)]
    by (intro exI [of _ u] exI [of _ "cs[j := cs ! j - (lh_n u - lh_n t)]"])
      (simp add: take_Suc_conv_app_nth)
qed

section \<open>Sample states\<close>

text \<open>A freshly booted system inside an operation, and the state after it has recorded one block.\<close>

definition sample_boot :: log where
  "sample_boot = \<lparr>bufs = bcache0, disk = \<lambda>_. replicate BSIZE 0, disksize = 1000, dwrites = [], mypid = 1,
     log_start = 2, log_size = 30, log_outstanding = 1, log_committing = False, log_dev = 1,
     lh_n = 0, lh_block = replicate LOGSIZE 0\<rparr>"

definition log_update :: "uint \<Rightarrow> byte list \<Rightarrow> 'a log_scheme \<Rightarrow> 'a log_scheme outcome" where
  "log_update n d s =
     obind (bread 1 n s) (\<lambda>(b, s).
     obind (log_write b (bset b d s)) (\<lambda>s.
     brelse b s))"

definition sample_logged :: log where
  "sample_logged = (case log_update 40 (replicate BSIZE 1) sample_boot of Ok s \<Rightarrow> s | _ \<Rightarrow> sample_boot)"

lemma sample_boot_in_tx: "in_tx sample_boot {}"
proof -
  have c: "binv sample_boot {}" "dblocks sample_boot = {}"
    by (rule bcache0_binv; simp add: sample_boot_def)+
  have "head_n (replicate BSIZE 0) = 0" 
    by (simp add: head_n_def word_at_def chunk_def BSIZE_def bytes_u32_def)
  then show ?thesis
    using c by (simp add: in_tx_def tx_ok_def log_geo_def head_ok_def)
      (simp add: sample_boot_def LOGSIZE_def)
qed

lemma sample_home: "40 \<in> home_blocks (lenv sample_boot)"
proof -
  have "(2::uint) + of_nat i \<noteq> 40" if "int i < 30" for i
  proof
    assume "(2::uint) + of_nat i = 40"
    then have "(of_nat i :: uint) = of_nat 38" by (simp add: algebra_simps eq_diff_eq)
    then have "i mod 2 ^ 32 = 38 mod 2 ^ 32" by (simp add: word_unat_eq_iff unat_of_nat take_bit_eq_mod)
    with that show False by simp
  qed
  then have "(40::uint) \<notin> log_region 2 30" unfolding log_region_def by (force dest: sym)
  then show ?thesis by (simp add: home_blocks_def lenv_def sample_boot_def)
qed

lemma sample_logged_ok:
  "log_ok sample_logged" "lh_n sample_logged = 1" "log_size sample_logged = 30" "log_outstanding sample_logged = 1"
  "log_committing sample_logged = False" "in_tx sample_logged {}"
proof -
  have S: "dblocks sample_boot = {}" "log_left sample_boot = 29" "lh_n sample_boot = 0"
    using bcache0_binv(3) [of sample_boot] by (simp_all add: sample_boot_def log_left_def)
  obtain b s1 s2 s3 where o: "bread 1 40 sample_boot = Ok (b, s1)"
      "log_write b (bset b (replicate BSIZE 1) s1) = Ok s2" "brelse b s2 = Ok s3"
      and t: "in_tx s3 {}" "log_left s3 = 28" "lenv s3 = lenv sample_boot"
    by (rule lg.update_logged [OF sample_boot_in_tx sample_home, of "replicate BSIZE 1"])
      (use S in \<open>auto simp: NBUF_def\<close>)
  have e: "sample_logged = s3" using o by (simp add: sample_logged_def log_update_def)
  show "log_ok sample_logged" "in_tx sample_logged {}"
    using t(1) tx_ok_log_ok [of s3] by (auto simp: e in_tx_def)
  show "log_size sample_logged = 30" "log_outstanding sample_logged = 1" "log_committing sample_logged = False"
    using t(3) by (auto simp: e lenv_def sample_boot_def)
  with t(2) show "lh_n sample_logged = 1" by (simp add: e log_left_def)
qed

section \<open>Properties\<close>

lemma recover_crash:
  assumes geo: "log_geo s" and len: "\<And>n. length (d n) = BSIZE"
    and hd: "head_ok s (head_n (d (log_start s))) (head_block (d (log_start s)))"
  obtains r ws where "recover_from_log (rebooted s d) = Ok r" and "dwrites r = dwrites s @ ws"
    and "\<And>k. \<exists>r'. recover_from_log (rebooted s (replay d (take k ws))) = Ok r' \<and>
           (\<forall>x. x \<noteq> log_start s \<longrightarrow> disk r' x = disk r x)"
proof -
  let ?st = "log_start s"
  have hd': "head_ok (rebooted s d) (head_n (d ?st)) (head_block (d ?st))" using hd by (simp add: head_ok_def)
  obtain r bl h0 where r: "recover_from_log (rebooted s d) = Ok r" "head_n h0 = 0"
      "wrote ((rebooted s d)\<lparr>lh_block := bl, lh_n := 0\<rparr>) r (recover_writes ?st d @ [(?st, h0)])"
    by (rule recover_ok [of "rebooted s d"]) (use geo len hd' in auto)
  let ?ws = "recover_writes ?st d @ [(?st, h0)]"
  have dr: "disk r = replay d ?ws" "dwrites r = dwrites s @ ?ws"
    using wroteD(2,5) [OF r(3)] by (simp_all add: rebooted_def)
  have "length (disk r n) = BSIZE" for n using wroteD(1) [OF r(3)] by (simp add: binv_def)
  from this [of ?st] have h0: "length h0 = BSIZE" by (simp add: dr)
  have "\<exists>r'. recover_from_log (rebooted s (replay d (take k ?ws))) = Ok r' \<and>
      (\<forall>x. x \<noteq> ?st \<longrightarrow> disk r' x = disk r x)" for k
  proof -
    define e where "e = replay d (take k ?ws)"
    have el: "length (e n) = BSIZE" for n
      unfolding e_def by (rule replay_length) (use len h0 in \<open>auto simp: recover_writes_def dest!: in_set_takeD\<close>)
    have "(?st, v) \<notin> set (recover_writes ?st d)" for v
      using hd head_in_region [OF geo] unfolding head_ok_def recover_writes_def by auto
    then have "e ?st = d ?st \<or> e ?st = h0"
      using replay_in [of d "take k ?ws" ?st] unfolding e_def by (auto dest!: in_set_takeD)
    then have "head_ok s (head_n (e ?st)) (head_block (e ?st))"
      using hd r(2) geo by (auto simp: head_ok_def log_geo_def)
    then obtain r' where r': "recover_from_log (rebooted s e) = Ok r'"
        "disk r' = (recovered ?st e)(?st := disk r' ?st)"
      using recover_rebooted [where d = e, OF geo el] by blast
    have "disk r' x = disk r x" if "x \<noteq> ?st" for x
      using recovery_crash [where d = d, OF geo hd r(2) that, of k] that fun_cong [OF r'(2), of x]
      by (simp add: e_def dr recovered_def)
    then show ?thesis using r'(1) unfolding e_def by blast
  qed
  then show thesis using that r(1) dr(2) by blast
qed

lemma outstanding_frame [simp]:
  "binv (s\<lparr>log_outstanding := a\<rparr>) H = binv s H" "bview (s\<lparr>log_outstanding := a\<rparr>) = bview s"
  "dblocks (s\<lparr>log_outstanding := a\<rparr>) = dblocks s" "log_geo (s\<lparr>log_outstanding := a\<rparr>) = log_geo s"
  by (rule cache_cong; simp)+ (simp add: log_geo_def)

lemma committing_frame [simp]:
  "binv (s\<lparr>log_committing := c\<rparr>) H = binv s H" "bview (s\<lparr>log_committing := c\<rparr>) = bview s"
  "dblocks (s\<lparr>log_committing := c\<rparr>) = dblocks s" "log_geo (s\<lparr>log_committing := c\<rparr>) = log_geo s"
  by (rule cache_cong; simp)+ (simp add: log_geo_def)

lemma flags_log_ok [simp]:
  "log_ok (s\<lparr>log_outstanding := a\<rparr>) = log_ok s" "log_ok (s\<lparr>log_committing := c\<rparr>) = log_ok s"
  by (simp_all add: log_ok_def head_ok_def)

lemma commit_installs:
  assumes ok: "log_ok s"
  obtains t where "commit s = Ok t" and "log_ok t" and "lh_n t = 0" and "log_outstanding t = log_outstanding s"
    and "\<And>x. x \<notin> log_region (log_start s) (log_size s) \<Longrightarrow> disk t x = bview s x \<and> bview t x = bview s x"
proof (cases "0 < lh_n s")
  case True
  note D = log_okD [OF ok]
  obtain t h h0 where c: "commit s = Ok t" and w: "wrote (s\<lparr>lh_n := 0\<rparr>) t (commit_writes s h h0)"
      and h: "head_n h = lh_n s" "\<And>i. i < nat (lh_n s) \<Longrightarrow> head_block h i = lh_block s ! i"
      "head_n h0 = 0" "length h = BSIZE" "length h0 = BSIZE"
    by (rule commit_writes_ok [OF ok True]) (rule that)
  note W = wroteD [OF w] and e = benv_log [OF wroteD(6) [OF w], simplified]
  define ws where "ws = commit_writes s h h0"
  have st: "disk t (log_start s) = h0" using W(2) by (simp add: commit_writes_def)
  have dt: "disk t x = bview s x" if "x \<notin> log_region (log_start s) (log_size s)" for x
  proof -
    have "recovered (log_start s) (replay (disk s) (take (length ws) ws)) x = bview s x"
      unfolding ws_def by (rule crash_after [OF ok _ that h(1-3)])
        (simp add: commit_writes_def log_writes_def)
    moreover have "recovered (log_start s) (disk t) = disk t" using st h(3) by (intro recovered_empty) simp
    ultimately show ?thesis using W(2) by (simp add: ws_def)
  qed
  have "dblocks s \<subseteq> fst ` set ws"
    unfolding D(5) by (force simp: ws_def commit_writes_def home_writes_def)
  then have dbl: "dblocks t = {}" using W(4) by (auto simp: ws_def)
  have vt: "bview t x = disk t x" for x using bc.coherent [OF W(1)] dbl by simp
  have "log_geo t" using D(1) log_geo_cong [OF W(6)] by simp
  then have "log_ok t"
    using W(1) dbl e D(4) st h(3) by (simp add: log_ok_def head_ok_def log_geo_def NBUF_def)
  then show thesis using that [OF c] dt vt e by simp
next
  case False
  note D = log_okD [OF ok]
  have n: "lh_n s = 0" using False D(8) by simp
  have "bview s x = disk s x" for x using bc.coherent [OF D(2)] D(5) n by simp
  then show thesis using that [of s] ok n False by (simp add: commit_def)
qed

lemma end_op_commits:
  assumes ok: "log_ok s" and last: "log_outstanding s = 1" "\<not> log_committing s"
  obtains s' where "end_op s = Ok s'" and "log_ok s'" and "lh_n s' = 0" and "log_outstanding s' = 0"
    and "\<And>x. x \<notin> log_region (log_start s) (log_size s) \<Longrightarrow> disk s' x = bview s x \<and> bview s' x = bview s x"
proof -
  let ?s = "s\<lparr>log_outstanding := 0, log_committing := True\<rparr>"
  have "log_ok ?s" using ok by simp
  then obtain t where t: "commit ?s = Ok t" "log_ok t" "lh_n t = 0" "log_outstanding t = log_outstanding ?s"
      "\<And>x. x \<notin> log_region (log_start ?s) (log_size ?s) \<Longrightarrow> disk t x = bview ?s x \<and> bview t x = bview ?s x"
    by (rule commit_installs) (rule that)
  show thesis by (rule that [of "t\<lparr>log_committing := False\<rparr>"]) (use t last in \<open>simp_all add: end_op_def\<close>)
qed

text \<open>C1. Committing is atomic with respect to crashes. The block writes of a commit are a list
  \<open>ws\<close>; if the machine stops after any number \<open>k\<close> of them, then rebooting and recovering
  succeeds, and every block outside the log holds its content from before the transaction
  (when the header had not been written yet) or the content the transaction gave it.\<close>

theorem commit_crash_atomic:
  assumes "log_ok s" and "0 < lh_n s"
  shows "\<exists>s' ws r. commit s = Ok s' \<and> dwrites s' = dwrites s @ ws \<and> disk s' = replay (disk s) ws \<and>
    recover_from_log (rebooted s (replay (disk s) (take k ws))) = Ok r \<and> log_ok r \<and>
    (\<forall>x. x \<notin> log_region (log_start s) (log_size s) \<longrightarrow>
       disk r x = (if k \<le> nat (lh_n s) then disk s x else bview s x))"
  by (rule commit_crash [OF assms, of k]) blast

theorem commit_crash_atomic_witness:
  "log_ok sample_logged \<and> 0 < lh_n sample_logged \<and>
   (\<exists>s' ws r. commit sample_logged = Ok s' \<and> dwrites s' = dwrites sample_logged @ ws \<and>
     disk s' = replay (disk sample_logged) ws \<and>
     recover_from_log (rebooted sample_logged (replay (disk sample_logged) (take 2 ws))) = Ok r \<and> log_ok r \<and>
     (\<forall>x. x \<notin> log_region (log_start sample_logged) (log_size sample_logged) \<longrightarrow>
        disk r x = bview sample_logged x))"
  using commit_crash_atomic [of sample_logged 2] sample_logged_ok by simp



text \<open>C3. The last \<open>end_op\<close> makes a transaction durable: it returns, empties the log, and every
  block outside the log then has on disk the content the cache had, which readers still see.\<close>

theorem end_op_durable:
  assumes "log_ok s" and "log_outstanding s = 1" and "\<not> log_committing s"
  shows "\<exists>s'. end_op s = Ok s' \<and> log_ok s' \<and> lh_n s' = 0 \<and> log_outstanding s' = 0 \<and>
    (\<forall>x. x \<notin> log_region (log_start s) (log_size s) \<longrightarrow> disk s' x = bview s x \<and> bview s' x = bview s x)"
  by (rule end_op_commits [OF assms]) blast

theorem end_op_durable_witness:
  "log_ok sample_logged \<and> (\<exists>s'. end_op sample_logged = Ok s' \<and> log_ok s' \<and> lh_n s' = 0 \<and> log_outstanding s' = 0 \<and>
    (\<forall>x. x \<notin> log_region (log_start sample_logged) (log_size sample_logged) \<longrightarrow>
       disk s' x = bview sample_logged x \<and> bview s' x = bview sample_logged x))"
  using end_op_durable [of sample_logged] sample_logged_ok by simp

lemma begin_three:
  assumes "log_outstanding s = 0" and "\<not> log_committing s" and "lh_n s = 0"
  shows "tx_step\<^sup>*\<^sup>* (s, []) (s\<lparr>log_outstanding := 3\<rparr>, [MAXOPBLOCKS, MAXOPBLOCKS, MAXOPBLOCKS])"
proof -
  let ?s = "\<lambda>k. s\<lparr>log_outstanding := int k\<rparr>"
  have step: "tx_step (?s k, bs) (?s (k + 1), bs @ [MAXOPBLOCKS])" if "k < 3" for k bs
    by (rule tx_begin) (use that assms in \<open>simp add: begin_op_def LOGSIZE_def MAXOPBLOCKS_def\<close>)
  have 0: "?s 0 = s" using assms(1) by (cases s) simp
  have "tx_step\<^sup>*\<^sup>* (?s 0, []) (?s 1, [MAXOPBLOCKS])" using step [of 0 "[]"] by auto
  also have "tx_step\<^sup>*\<^sup>* \<dots> (?s 2, [MAXOPBLOCKS, MAXOPBLOCKS])" using step [of 1 "[MAXOPBLOCKS]"] by auto
  also have "tx_step\<^sup>*\<^sup>* \<dots> (?s 3, [MAXOPBLOCKS, MAXOPBLOCKS, MAXOPBLOCKS])"
    using step [of 2 "[MAXOPBLOCKS, MAXOPBLOCKS]"] by auto
  finally show ?thesis unfolding 0 by simp
qed

text \<open>C4. The reservations of \<open>begin_op\<close> are sound for a log of more than \<open>LOGSIZE\<close> blocks: in
  every state reachable by operations that begin, record blocks within their budget of
  \<open>MAXOPBLOCKS\<close> new blocks, and end, an operation with budget left can record any buffer;
  \<open>log_write\<close> does not panic.\<close>

theorem reservation_sound:
  assumes "tx_step\<^sup>*\<^sup>* (s0, []) (s, bs)" and "log_outstanding s0 = 0" and "\<not> log_committing s0"
    and "lh_n s0 = 0" and "length (lh_block s0) = LOGSIZE" and "int LOGSIZE < log_size s"
    and "j < length bs" and "0 < bs ! j"
  shows "\<exists>s'. log_write b s = Ok s' \<and> lh_n s' - lh_n s \<le> bs ! j"
proof -
  have "tx_inv (s0, [])" using assms(2-5) by (simp add: tx_inv_def)
  then have "tx_inv (s, bs)" by (rule tx_inv_reachable [OF assms(1)])
  then show ?thesis using assms(6-8) by (intro within_budget)
qed

definition sample_idle :: "int \<Rightarrow> log" where
  "sample_idle sz = sample_boot\<lparr>log_outstanding := 0, log_size := sz,
     bufs := map (\<lambda>i. buf0\<lparr>b_blockno := of_nat i\<rparr>) [0..<31]\<rparr>"

lemma sample_idle_sel [simp]:
  "log_outstanding (sample_idle sz) = 0" "log_committing (sample_idle sz) = False"
  "lh_n (sample_idle sz) = 0" "length (lh_block (sample_idle sz)) = LOGSIZE" "log_size (sample_idle sz) = sz"
  by (simp_all add: sample_idle_def sample_boot_def)

theorem reservation_sound_witness:
  "\<exists>s'. log_write 7 ((sample_idle 31)\<lparr>log_outstanding := 3\<rparr>) = Ok s' \<and> lh_n s' - 0 \<le> MAXOPBLOCKS"
  using reservation_sound [OF begin_three [of "sample_idle 31"], of 0 7]
  by (simp add: LOGSIZE_def MAXOPBLOCKS_def)

text \<open>C5. They are not sound for the log \<^verbatim>\<open>mkfs\<close> creates, of exactly \<open>LOGSIZE\<close> blocks: three
  operations admitted together, each recording at most \<open>MAXOPBLOCKS\<close> blocks, can reach a state
  where one of them still has budget and \<open>log_write\<close> panics with "too big a transaction".\<close>

theorem reservation_overflow:
  assumes "tx_inv (s0, [])" and "lh_n s0 = 0" and "log_size s0 = int LOGSIZE"
    and "distinct (blocknos s0)" and "LOGSIZE \<le> length (bufs s0)"
  shows "\<exists>s bs j. tx_step\<^sup>*\<^sup>* (s0, []) (s, bs) \<and> j < length bs \<and> 0 < bs ! j \<and>
    log_write b s = Panic ''too big a transaction''"
proof -
  let ?s = "s0\<lparr>log_outstanding := 3\<rparr>" and ?bs = "[MAXOPBLOCKS, MAXOPBLOCKS, MAXOPBLOCKS]"
  have s0: "log_outstanding s0 = 0" "\<not> log_committing s0" "length (lh_block s0) = LOGSIZE"
    using assms(1) by (auto simp: tx_inv_def)
  have start: "tx_step\<^sup>*\<^sup>* (s0, []) (?s, ?bs)" using s0 assms(2) by (intro begin_three)
  have "tx_inv (?s, ?bs)" by (rule tx_inv_reachable [OF start assms(1)])
  then obtain t cs where t: "tx_step\<^sup>*\<^sup>* (?s, ?bs) (t, cs)" "lh_n t = int 29" "sum_list cs = 1" "log_size t = 30"
    using fill_log [of ?s ?bs 29] assms by (auto simp: LOGSIZE_def MAXOPBLOCKS_def blocknos_def)
  obtain j where "j < length cs" "0 < cs ! j" using sum_list_pos_nth [of cs] t(3) by auto
  moreover have "log_write b t = Panic ''too big a transaction''" using t by (simp add: log_write_def)
  ultimately show ?thesis using rtranclp_trans [OF start t(1)] by blast
qed

theorem reservation_overflow_witness:
  "\<exists>s bs j. tx_step\<^sup>*\<^sup>* (sample_idle 30, []) (s, bs) \<and> j < length bs \<and> 0 < bs ! j \<and>
    log_write 7 s = Panic ''too big a transaction''"
proof (rule reservation_overflow)
  show "distinct (blocknos (sample_idle 30))"
    by (simp add: blocknos_def sample_idle_def upt_rec)
qed (simp_all add: tx_inv_def LOGSIZE_def, simp_all add: sample_idle_def)

end
