(* ===== verification/Fs.thy ===== *)
theory Fs
  imports Log_Transactions
begin

text \<open>
  The file system (\<^verbatim>\<open>fs.c\<close>, \<^verbatim>\<open>fs.h\<close>, \<^verbatim>\<open>file.h\<close>): block allocator, inodes, inode content,
  directories and path names. The state extends the state of the log with the in-memory super
  block and the inode cache. A \<^verbatim>\<open>struct inode *\<close> is an index into \<open>icache\<close>; a null pointer is
  \<open>None\<close>. Buffers given to \<open>readi\<close> and \<open>writei\<close> are byte lists, C strings are byte lists without
  their terminator. The device switch is a parameter \<open>dv\<close>: the read and write function of a
  major number, if there is one.
\<close>

unbundle bit_operations_syntax

definition NDIRECT :: nat where "NDIRECT = 12"
definition NINDIRECT :: nat where "NINDIRECT = 128"
definition MAXFILE :: nat where "MAXFILE = 140"
definition IPB :: nat where "IPB = 8"
definition BPB :: nat where "BPB = 4096"
definition DIRSIZ :: nat where "DIRSIZ = 14"
definition ROOTDEV :: uint where "ROOTDEV = 1"
definition NINODE :: nat where "NINODE = 50"
definition NDEV :: int where "NDEV = 10"
definition T_DIR :: ushort where "T_DIR = 1"
definition T_FILE :: ushort where "T_FILE = 2"
definition T_DEV :: ushort where "T_DEV = 3"

record dinode =
  d_type :: ushort
  d_major :: ushort
  d_minor :: ushort
  d_nlink :: ushort
  d_size :: uint
  d_addrs :: "uint list"

record inode =
  i_dev :: uint
  i_inum :: uint
  i_ref :: int
  i_lock :: sleeplock
  i_valid :: bool
  i_type :: ushort
  i_major :: ushort
  i_minor :: ushort
  i_nlink :: ushort
  i_size :: uint
  i_addrs :: "uint list"

record fs = log +
  sb :: superblock
  icache :: "inode list"

definition dinode_bytes :: "dinode \<Rightarrow> byte list" where
  "dinode_bytes d = u16_bytes (d_type d) @ u16_bytes (d_major d) @ u16_bytes (d_minor d) @ u16_bytes (d_nlink d) @
     u32_bytes (d_size d) @ concat (map u32_bytes (d_addrs d))"

definition half_at :: "byte list \<Rightarrow> nat \<Rightarrow> ushort" where
  "half_at d off = bytes_u16 (chunk d off 2)"

definition bytes_dinode :: "byte list \<Rightarrow> dinode" where
  "bytes_dinode b = \<lparr>d_type = half_at b 0, d_major = half_at b 2, d_minor = half_at b 4, d_nlink = half_at b 6,
     d_size = word_at b 8, d_addrs = map (\<lambda>i. word_at b (12 + 4 * i)) [0..<NDIRECT + 1]\<rparr>"

definition iupd :: "nat \<Rightarrow> (inode \<Rightarrow> inode) \<Rightarrow> 'a fs_scheme \<Rightarrow> 'a fs_scheme" where
  "iupd i f s = s\<lparr>icache := (icache s)[i := f (icache s ! i)]\<rparr>"

definition IBLOCK :: "uint \<Rightarrow> 'a fs_scheme \<Rightarrow> uint" where
  "IBLOCK i s = i div of_nat IPB + sb_inodestart (sb s)"

definition BBLOCK :: "uint \<Rightarrow> 'a fs_scheme \<Rightarrow> uint" where
  "BBLOCK b s = b div of_nat BPB + sb_bmapstart (sb s)"

section \<open>Blocks\<close>

definition bzero :: "uint \<Rightarrow> uint \<Rightarrow> 'a fs_scheme \<Rightarrow> 'a fs_scheme outcome" where
  "bzero dev bno s =
     obind (bread dev bno s) (\<lambda>(bp, s).
     obind (log_write bp (bset bp (replicate BSIZE 0) s)) (brelse bp))"

definition bit_mask :: "nat \<Rightarrow> byte" where
  "bit_mask bi = push_bit (bi mod 8) 1"

definition bit_free :: "byte list \<Rightarrow> nat \<Rightarrow> bool" where
  "bit_free d bi \<longleftrightarrow> d ! (bi div 8) AND bit_mask bi = 0"

definition set_bit_at :: "nat \<Rightarrow> byte list \<Rightarrow> byte list" where
  "set_bit_at bi d = d[bi div 8 := d ! (bi div 8) OR bit_mask bi]"

definition clear_bit_at :: "nat \<Rightarrow> byte list \<Rightarrow> byte list" where
  "clear_bit_at bi d = d[bi div 8 := d ! (bi div 8) AND NOT (bit_mask bi)]"

fun balloc_loop :: "uint \<Rightarrow> nat list \<Rightarrow> 'a fs_scheme \<Rightarrow> (uint \<times> 'a fs_scheme) outcome" where
  "balloc_loop dev [] s = Panic ''balloc: out of blocks''"
| "balloc_loop dev (b # bs) s =
     obind (bread dev (BBLOCK (of_nat b) s) s) (\<lambda>(bp, s).
     case find (bit_free (bdata s bp)) [0..<min BPB (unat (sb_size (sb s)) - b)] of
       Some bi \<Rightarrow>
         obind (log_write bp (bset bp (set_bit_at bi (bdata s bp)) s)) (\<lambda>s.
         obind (brelse bp s) (\<lambda>s.
         obind (bzero dev (of_nat (b + bi)) s) (\<lambda>s. Ok (of_nat (b + bi), s))))
     | None \<Rightarrow> obind (brelse bp s) (balloc_loop dev bs))"

definition balloc :: "uint \<Rightarrow> 'a fs_scheme \<Rightarrow> (uint \<times> 'a fs_scheme) outcome" where
  "balloc dev s = balloc_loop dev (map (\<lambda>k. k * BPB) [0..<(unat (sb_size (sb s)) + BPB - 1) div BPB]) s"

definition bfree :: "uint \<Rightarrow> uint \<Rightarrow> 'a fs_scheme \<Rightarrow> 'a fs_scheme outcome" where
  "bfree dev b s =
     obind (bread dev (BBLOCK b s) s) (\<lambda>(bp, s).
     let bi = unat b mod BPB in
     if bit_free (bdata s bp) bi then Panic ''freeing free block''
     else obind (log_write bp (bset bp (clear_bit_at bi (bdata s bp)) s)) (brelse bp))"

section \<open>Inodes\<close>

definition iinit :: "uint \<Rightarrow> 'a fs_scheme \<Rightarrow> 'a fs_scheme outcome" where
  "iinit dev s =
     (let s = s\<lparr>icache := map (\<lambda>ip. ip\<lparr>i_lock := initsleeplock\<rparr>) (icache s)\<rparr> in
      obind (readsb dev s) (\<lambda>(b, s). Ok (s\<lparr>sb := b\<rparr>)))"

definition iget :: "uint \<Rightarrow> uint \<Rightarrow> 'a fs_scheme \<Rightarrow> (nat \<times> 'a fs_scheme) outcome" where
  "iget dev inum s =
     (case find (\<lambda>i. let ip = icache s ! i in 0 < i_ref ip \<and> i_dev ip = dev \<and> i_inum ip = inum) [0..<NINODE] of
        Some i \<Rightarrow> Ok (i, iupd i (\<lambda>ip. ip\<lparr>i_ref := i_ref ip + 1\<rparr>) s)
      | None \<Rightarrow>
          (case find (\<lambda>i. i_ref (icache s ! i) = 0) [0..<NINODE] of
             None \<Rightarrow> Panic ''iget: no inodes''
           | Some i \<Rightarrow> Ok (i, iupd i (\<lambda>ip. ip\<lparr>i_dev := dev, i_inum := inum, i_ref := 1, i_valid := False\<rparr>) s)))"

definition slot_off :: "uint \<Rightarrow> nat" where
  "slot_off inum = 64 * (unat inum mod IPB)"

fun ialloc_loop :: "uint \<Rightarrow> ushort \<Rightarrow> nat list \<Rightarrow> 'a fs_scheme \<Rightarrow> (nat \<times> 'a fs_scheme) outcome" where
  "ialloc_loop dev type [] s = Panic ''ialloc: no inodes''"
| "ialloc_loop dev type (i # is) s =
     (let inum = of_nat i in
      obind (bread dev (IBLOCK inum s) s) (\<lambda>(bp, s).
      let dip = slot_off inum in
      if half_at (bdata s bp) dip = 0 then
        let d = patch (patch (bdata s bp) dip (replicate 64 0)) dip (u16_bytes type) in
        obind (log_write bp (bset bp d s)) (\<lambda>s.
        obind (brelse bp s) (iget dev inum))
      else obind (brelse bp s) (ialloc_loop dev type is)))"

definition ialloc :: "uint \<Rightarrow> ushort \<Rightarrow> 'a fs_scheme \<Rightarrow> (nat \<times> 'a fs_scheme) outcome" where
  "ialloc dev type s = ialloc_loop dev type [1..<unat (sb_ninodes (sb s))] s"

definition inode_disk :: "inode \<Rightarrow> dinode" where
  "inode_disk ip = \<lparr>d_type = i_type ip, d_major = i_major ip, d_minor = i_minor ip, d_nlink = i_nlink ip,
     d_size = i_size ip, d_addrs = i_addrs ip\<rparr>"

definition iupdate :: "nat \<Rightarrow> 'a fs_scheme \<Rightarrow> 'a fs_scheme outcome" where
  "iupdate i s =
     (let ip = icache s ! i in
      obind (bread (i_dev ip) (IBLOCK (i_inum ip) s) s) (\<lambda>(bp, s).
      obind (log_write bp (bset bp (patch (bdata s bp) (slot_off (i_inum ip)) (dinode_bytes (inode_disk ip))) s)) (brelse bp)))"

definition idup :: "nat \<Rightarrow> 'a fs_scheme \<Rightarrow> nat \<times> 'a fs_scheme" where
  "idup i s = (i, iupd i (\<lambda>ip. ip\<lparr>i_ref := i_ref ip + 1\<rparr>) s)"

definition iload :: "dinode \<Rightarrow> inode \<Rightarrow> inode" where
  "iload d ip = ip\<lparr>i_type := d_type d, i_major := d_major d, i_minor := d_minor d, i_nlink := d_nlink d,
     i_size := d_size d, i_addrs := d_addrs d, i_valid := True\<rparr>"

definition ilock :: "nat \<Rightarrow> 'a fs_scheme \<Rightarrow> 'a fs_scheme outcome" where
  "ilock i s =
     (if i_ref (icache s ! i) < 1 then Panic ''ilock''
      else obind (acquiresleep (mypid s) (i_lock (icache s ! i))) (\<lambda>lk.
        let s = iupd i (\<lambda>ip. ip\<lparr>i_lock := lk\<rparr>) s; ip = icache s ! i in
        if \<not> i_valid ip then
          obind (bread (i_dev ip) (IBLOCK (i_inum ip) s) s) (\<lambda>(bp, s).
          let d = bytes_dinode (chunk (bdata s bp) (slot_off (i_inum ip)) 64) in
          obind (brelse bp s) (\<lambda>s.
          let s = iupd i (iload d) s in
          if i_type (icache s ! i) = 0 then Panic ''ilock: no type'' else Ok s))
        else Ok s))"

definition iunlock :: "nat \<Rightarrow> 'a fs_scheme \<Rightarrow> 'a fs_scheme outcome" where
  "iunlock i s =
     (let ip = icache s ! i in
      if \<not> holdingsleep (mypid s) (i_lock ip) \<or> i_ref ip < 1 then Panic ''iunlock''
      else Ok (iupd i (\<lambda>ip. ip\<lparr>i_lock := releasesleep (i_lock ip)\<rparr>) s))"

section \<open>Inode content\<close>

definition bmap :: "nat \<Rightarrow> uint \<Rightarrow> 'a fs_scheme \<Rightarrow> (uint \<times> 'a fs_scheme) outcome" where
  "bmap i bn s =
     (let dev = i_dev (icache s ! i);
          slot = \<lambda>k s. let addr = i_addrs (icache s ! i) ! k in
            if addr = 0 then
              obind (balloc dev s) (\<lambda>(addr, s).
              Ok (addr, iupd i (\<lambda>ip. ip\<lparr>i_addrs := (i_addrs ip)[k := addr]\<rparr>) s))
            else Ok (addr, s)
      in if unat bn < NDIRECT then slot (unat bn) s
         else let bn = unat bn - NDIRECT in
           if bn < NINDIRECT then
             obind (slot NDIRECT s) (\<lambda>(addr, s).
             obind (bread dev addr s) (\<lambda>(bp, s).
             let addr = word_at (bdata s bp) (4 * bn) in
             if addr = 0 then
               obind (balloc dev s) (\<lambda>(addr, s).
               obind (log_write bp (bset bp (patch (bdata s bp) (4 * bn) (u32_bytes addr)) s)) (\<lambda>s.
               obind (brelse bp s) (\<lambda>s. Ok (addr, s))))
             else obind (brelse bp s) (\<lambda>s. Ok (addr, s))))
           else Panic ''bmap: out of range'')"

definition trunc_direct :: "nat \<Rightarrow> nat \<Rightarrow> 'a fs_scheme \<Rightarrow> 'a fs_scheme outcome" where
  "trunc_direct i k s =
     (let ip = icache s ! i; addr = i_addrs ip ! k in
      if addr \<noteq> 0 then
        obind (bfree (i_dev ip) addr s) (\<lambda>s. Ok (iupd i (\<lambda>ip. ip\<lparr>i_addrs := (i_addrs ip)[k := 0]\<rparr>) s))
      else Ok s)"

definition itrunc :: "nat \<Rightarrow> 'a fs_scheme \<Rightarrow> 'a fs_scheme outcome" where
  "itrunc i s =
     obind (ofold (trunc_direct i) [0..<NDIRECT] s) (\<lambda>s.
     let dev = i_dev (icache s ! i); ind = i_addrs (icache s ! i) ! NDIRECT in
     obind (if ind \<noteq> 0 then
              obind (bread dev ind s) (\<lambda>(bp, s).
              obind (ofold (\<lambda>j s. let a = word_at (bdata s bp) (4 * j) in if a \<noteq> 0 then bfree dev a s else Ok s)
                       [0..<NINDIRECT] s) (\<lambda>s.
              obind (brelse bp s) (\<lambda>s.
              obind (bfree dev ind s) (\<lambda>s.
              Ok (iupd i (\<lambda>ip. ip\<lparr>i_addrs := (i_addrs ip)[NDIRECT := 0]\<rparr>) s)))))
            else Ok s) (\<lambda>s.
     iupdate i (iupd i (\<lambda>ip. ip\<lparr>i_size := 0\<rparr>) s)))"

definition iput :: "nat \<Rightarrow> 'a fs_scheme \<Rightarrow> 'a fs_scheme outcome" where
  "iput i s =
     obind (acquiresleep (mypid s) (i_lock (icache s ! i))) (\<lambda>lk.
     let s = iupd i (\<lambda>ip. ip\<lparr>i_lock := lk\<rparr>) s; ip = icache s ! i in
     obind (if i_valid ip \<and> i_nlink ip = 0 \<and> i_ref ip = 1 then
              obind (itrunc i s) (\<lambda>s.
              obind (iupdate i (iupd i (\<lambda>ip. ip\<lparr>i_type := 0\<rparr>) s)) (\<lambda>s.
              Ok (iupd i (\<lambda>ip. ip\<lparr>i_valid := False\<rparr>) s)))
            else Ok s) (\<lambda>s.
     let s = iupd i (\<lambda>ip. ip\<lparr>i_lock := releasesleep (i_lock ip)\<rparr>) s
     in Ok (iupd i (\<lambda>ip. ip\<lparr>i_ref := i_ref ip - 1\<rparr>) s)))"

definition iunlockput :: "nat \<Rightarrow> 'a fs_scheme \<Rightarrow> 'a fs_scheme outcome" where
  "iunlockput i s = obind (iunlock i s) (iput i)"

record stat =
  st_type :: ushort
  st_dev :: uint
  st_ino :: uint
  st_nlink :: ushort
  st_size :: uint

definition stati :: "nat \<Rightarrow> 'a fs_scheme \<Rightarrow> stat" where
  "stati i s = (let ip = icache s ! i in
     \<lparr>st_type = i_type ip, st_dev = i_dev ip, st_ino = i_inum ip, st_nlink = i_nlink ip, st_size = i_size ip\<rparr>)"

type_synonym 's devread = "nat \<Rightarrow> uint \<Rightarrow> 's \<Rightarrow> (int \<times> byte list \<times> 's) outcome"
type_synonym 's devwrite = "nat \<Rightarrow> byte list \<Rightarrow> 's \<Rightarrow> (int \<times> 's) outcome"
type_synonym 's devsw = "int \<Rightarrow> ('s devread option \<times> 's devwrite option)"

text \<open>The copy loops; the fuel is the number of bytes, and every round moves at least one.\<close>

fun readi_loop :: "nat \<Rightarrow> nat \<Rightarrow> uint \<Rightarrow> uint \<Rightarrow> 'a fs_scheme \<Rightarrow> (byte list \<times> 'a fs_scheme) outcome" where
  "readi_loop 0 i off left s = (if left = 0 then Ok ([], s) else Diverge)"
| "readi_loop (Suc k) i off left s =
     (if left = 0 then Ok ([], s)
      else obind (bmap i (off div of_nat BSIZE) s) (\<lambda>(addr, s).
           obind (bread (i_dev (icache s ! i)) addr s) (\<lambda>(bp, s).
           let m = min left (of_nat BSIZE - off mod of_nat BSIZE);
               bs = chunk (bdata s bp) (unat (off mod of_nat BSIZE)) (unat m) in
           obind (brelse bp s) (\<lambda>s.
           obind (readi_loop k i (off + m) (left - m) s) (\<lambda>(rest, s). Ok (bs @ rest, s))))))"

definition readi :: "'a fs_scheme devsw \<Rightarrow> nat \<Rightarrow> uint \<Rightarrow> uint \<Rightarrow> 'a fs_scheme \<Rightarrow> (int \<times> byte list \<times> 'a fs_scheme) outcome" where
  "readi dv i off n s =
     (let ip = icache s ! i in
      if i_type ip = T_DEV then
        let major = sint (i_major ip) in
        if major < 0 \<or> NDEV \<le> major then Ok (- 1, [], s)
        else (case fst (dv major) of None \<Rightarrow> Ok (- 1, [], s) | Some f \<Rightarrow> f i n s)
      else if i_size ip < off \<or> off + n < off then Ok (- 1, [], s)
      else let n = (if i_size ip < off + n then i_size ip - off else n) in
        obind (readi_loop (unat n) i off n s) (\<lambda>(bs, s). Ok (sint n, bs, s)))"

fun writei_loop :: "nat \<Rightarrow> nat \<Rightarrow> uint \<Rightarrow> byte list \<Rightarrow> 'a fs_scheme \<Rightarrow> (uint \<times> 'a fs_scheme) outcome" where
  "writei_loop 0 i off src s = (if src = [] then Ok (off, s) else Diverge)"
| "writei_loop (Suc k) i off src s =
     (if src = [] then Ok (off, s)
      else obind (bmap i (off div of_nat BSIZE) s) (\<lambda>(addr, s).
           obind (bread (i_dev (icache s ! i)) addr s) (\<lambda>(bp, s).
           let m = min (length src) (BSIZE - unat off mod BSIZE);
               d = patch (bdata s bp) (unat off mod BSIZE) (take m src) in
           obind (log_write bp (bset bp d s)) (\<lambda>s.
           obind (brelse bp s) (\<lambda>s.
           writei_loop k i (off + of_nat m) (drop m src) s)))))"

definition writei :: "'a fs_scheme devsw \<Rightarrow> nat \<Rightarrow> byte list \<Rightarrow> uint \<Rightarrow> 'a fs_scheme \<Rightarrow> (int \<times> 'a fs_scheme) outcome" where
  "writei dv i src off s =
     (let ip = icache s ! i; n = of_nat (length src) :: uint in
      if i_type ip = T_DEV then
        let major = sint (i_major ip) in
        if major < 0 \<or> NDEV \<le> major then Ok (- 1, s)
        else (case snd (dv major) of None \<Rightarrow> Ok (- 1, s) | Some f \<Rightarrow> f i src s)
      else if i_size ip < off \<or> off + n < off then Ok (- 1, s)
      else if of_nat (MAXFILE * BSIZE) < off + n then Ok (- 1, s)
      else obind (writei_loop (length src) i off src s) (\<lambda>(off, s).
        if 0 < n \<and> i_size (icache s ! i) < off then
          obind (iupdate i (iupd i (\<lambda>ip. ip\<lparr>i_size := off\<rparr>) s)) (\<lambda>s. Ok (sint n, s))
        else Ok (sint n, s)))"

section \<open>Directories\<close>

text \<open>\<open>strncmp\<close> on strings given without their terminator, with \<open>DIRSIZ\<close> characters at most.\<close>

fun strncmp_list :: "nat \<Rightarrow> byte list \<Rightarrow> byte list \<Rightarrow> int" where
  "strncmp_list 0 p q = 0"
| "strncmp_list (Suc n) p q =
     (let a = (case p of [] \<Rightarrow> 0 | c # _ \<Rightarrow> c); b = (case q of [] \<Rightarrow> 0 | c # _ \<Rightarrow> c) in
      if a \<noteq> 0 \<and> a = b then strncmp_list n (tl p) (tl q) else uint a - uint b)"

definition namecmp :: "byte list \<Rightarrow> byte list \<Rightarrow> int" where
  "namecmp s t = strncmp_list DIRSIZ s t"

text \<open>The bytes that \<open>strncpy\<close> stores for \<open>DIRSIZ\<close> characters of a string: padded with zeros.\<close>

definition strncpy_dirsiz :: "byte list \<Rightarrow> byte list" where
  "strncpy_dirsiz name = (let cs = takeWhile (\<lambda>c. c \<noteq> 0) (take DIRSIZ name) in cs @ replicate (DIRSIZ - length cs) 0)"

fun dirlookup_loop :: "nat \<Rightarrow> 'a fs_scheme devsw \<Rightarrow> nat \<Rightarrow> byte list \<Rightarrow> uint \<Rightarrow> 'a fs_scheme \<Rightarrow> ((nat \<times> uint) option \<times> 'a fs_scheme) outcome" where
  "dirlookup_loop 0 dv dp name off s = Diverge"
| "dirlookup_loop (Suc k) dv dp name off s =
     (if off < i_size (icache s ! dp) then
        obind (readi dv dp off 16 s) (\<lambda>(r, de, s).
        if r \<noteq> 16 then Panic ''dirlookup read''
        else let inum = half_at de 0 in
          if inum \<noteq> 0 \<and> namecmp name (drop 2 de) = 0 then
            obind (iget (i_dev (icache s ! dp)) (ucast inum) s) (\<lambda>(ip, s). Ok (Some (ip, off), s))
          else dirlookup_loop k dv dp name (off + 16) s)
      else Ok (None, s))"

definition dirlookup :: "'a fs_scheme devsw \<Rightarrow> nat \<Rightarrow> byte list \<Rightarrow> 'a fs_scheme \<Rightarrow> ((nat \<times> uint) option \<times> 'a fs_scheme) outcome" where
  "dirlookup dv dp name s =
     (if i_type (icache s ! dp) \<noteq> T_DIR then Panic ''dirlookup not DIR''
      else dirlookup_loop (Suc (unat (i_size (icache s ! dp)))) dv dp name 0 s)"

fun dirlink_slot :: "nat \<Rightarrow> 'a fs_scheme devsw \<Rightarrow> nat \<Rightarrow> uint \<Rightarrow> 'a fs_scheme \<Rightarrow> (uint \<times> 'a fs_scheme) outcome" where
  "dirlink_slot 0 dv dp off s = Diverge"
| "dirlink_slot (Suc k) dv dp off s =
     (if off < i_size (icache s ! dp) then
        obind (readi dv dp off 16 s) (\<lambda>(r, de, s).
        if r \<noteq> 16 then Panic ''dirlink read''
        else if half_at de 0 = 0 then Ok (off, s) else dirlink_slot k dv dp (off + 16) s)
      else Ok (off, s))"

definition dirlink :: "'a fs_scheme devsw \<Rightarrow> nat \<Rightarrow> byte list \<Rightarrow> uint \<Rightarrow> 'a fs_scheme \<Rightarrow> (int \<times> 'a fs_scheme) outcome" where
  "dirlink dv dp name inum s =
     obind (dirlookup dv dp name s) (\<lambda>(r, s). case r of
       Some (ip, _) \<Rightarrow> obind (iput ip s) (\<lambda>s. Ok (- 1, s))
     | None \<Rightarrow>
         obind (dirlink_slot (Suc (unat (i_size (icache s ! dp)))) dv dp 0 s) (\<lambda>(off, s).
         obind (writei dv dp (u16_bytes (ucast inum) @ strncpy_dirsiz name) off s) (\<lambda>(r, s).
         if r \<noteq> 16 then Panic ''dirlink'' else Ok (0, s))))"

section \<open>Paths\<close>

definition skipelem :: "byte list \<Rightarrow> (byte list \<times> byte list) option" where
  "skipelem path =
     (let path = dropWhile (\<lambda>c. c = 47) path in
      if path = [] then None
      else let s = takeWhile (\<lambda>c. c \<noteq> 47) path;
               name = (if DIRSIZ \<le> length s then take DIRSIZ s else s)
           in Some (name, dropWhile (\<lambda>c. c = 47) (drop (length s) path)))"

fun namex_loop :: "nat \<Rightarrow> 'a fs_scheme devsw \<Rightarrow> bool \<Rightarrow> byte list \<Rightarrow> byte list \<Rightarrow> nat \<Rightarrow> 'a fs_scheme \<Rightarrow> ((nat \<times> byte list) option \<times> 'a fs_scheme) outcome" where
  "namex_loop 0 dv parent path name ip s = Diverge"
| "namex_loop (Suc k) dv parent path name ip s =
     (case skipelem path of
        None \<Rightarrow> if parent then obind (iput ip s) (\<lambda>s. Ok (None, s)) else Ok (Some (ip, name), s)
      | Some (name, path) \<Rightarrow>
          obind (ilock ip s) (\<lambda>s.
          if i_type (icache s ! ip) \<noteq> T_DIR then obind (iunlockput ip s) (\<lambda>s. Ok (None, s))
          else if parent \<and> path = [] then obind (iunlock ip s) (\<lambda>s. Ok (Some (ip, name), s))
          else obind (dirlookup dv ip name s) (\<lambda>(r, s). case r of
            None \<Rightarrow> obind (iunlockput ip s) (\<lambda>s. Ok (None, s))
          | Some (next, _) \<Rightarrow> obind (iunlockput ip s) (namex_loop k dv parent path name next))))"

definition namex :: "'a fs_scheme devsw \<Rightarrow> nat \<Rightarrow> byte list \<Rightarrow> bool \<Rightarrow> 'a fs_scheme \<Rightarrow> ((nat \<times> byte list) option \<times> 'a fs_scheme) outcome" where
  "namex dv cwd path parent s =
     obind (if path \<noteq> [] \<and> hd path = 47 then iget ROOTDEV ROOTINO s else Ok (idup cwd s)) (\<lambda>(ip, s).
     namex_loop (Suc (length path)) dv parent path [] ip s)"

definition namei :: "'a fs_scheme devsw \<Rightarrow> nat \<Rightarrow> byte list \<Rightarrow> 'a fs_scheme \<Rightarrow> (nat option \<times> 'a fs_scheme) outcome" where
  "namei dv cwd path s = obind (namex dv cwd path False s) (\<lambda>(r, s). Ok (map_option fst r, s))"

definition nameiparent :: "'a fs_scheme devsw \<Rightarrow> nat \<Rightarrow> byte list \<Rightarrow> 'a fs_scheme \<Rightarrow> ((nat \<times> byte list) option \<times> 'a fs_scheme) outcome" where
  "nameiparent dv cwd path s = namex dv cwd path True s"

end
