(* ===== verification/Fs_Laws.thy ===== *)
theory Fs_Laws
  imports Fs
begin

text \<open>
  Laws of the block allocator and of the inodes on disk, over the contract \<open>logged_store\<close> of the log: inside
  a transaction a block is read, changed and recorded, and the contents that clients see change at that
  block only.
\<close>

unbundle bit_operations_syntax

lemma fs_more_sb: "log.more s = log.more t \<Longrightarrow> sb s = sb (t :: 'a fs_scheme)"
  by (cases s, cases t) simp

lemma fs_more_icache: "log.more s = log.more t \<Longrightarrow> icache s = icache (t :: 'a fs_scheme)"
  by (cases s, cases t) simp

lemma fs_env:
  fixes s t :: "'a fs_scheme"
  assumes "lenv s = lenv t"
  shows "sb s = sb t" and "icache s = icache t" and "mypid s = mypid t"
proof -
  have "log.more s = log.more t" using assms by (simp add: lenv_def)
  then show "sb s = sb t" and "icache s = icache t" by (rule fs_more_sb, rule fs_more_icache)
  show "mypid s = mypid t" using assms by (simp add: lenv_def)
qed

text \<open>The common pattern: read a block, change its bytes by \<open>f\<close>, record and release it.\<close>

lemma logged_update:
  fixes s :: "'a fs_scheme"
  assumes "in_tx s {}" and "n \<in> home_blocks (lenv s)" and "length (f (bview s n)) = BSIZE" and "0 < log_left s"
  shows "\<exists>s'. obind (bread 1 n s) (\<lambda>(bp, s). obind (log_write bp (bset bp (f (bdata s bp)) s)) (brelse bp)) = Ok s' \<and>
    in_tx s' {} \<and> bview s' = (bview s)(n := f (bview s n)) \<and> lenv s' = lenv s \<and> log_left s - 1 \<le> log_left s'"
proof -
  have "card (dblocks s) < NBUF" using lg.capacity [OF assms(1)] by simp
  then have room: "n \<in> dblocks s \<or> card (dblocks s \<union> blk s ` {}) < NBUF" by simp
  obtain b s1 s2 s3 where u: "bread 1 n s = Ok (b, s1)" "log_write b (bset b (f (bview s n)) s1) = Ok s2"
      "brelse b s2 = Ok s3" "bdata s1 b = bview s n" "in_tx s3 {}" "bview s3 = (bview s)(n := f (bview s n))"
      "log_left s3 = (if n \<in> dblocks s then log_left s else log_left s - 1)" "lenv s3 = lenv s"
    by (rule lg.update_logged [OF assms(1,2) _ room assms(3,4)]) (simp, rule that, assumption+)
  then show ?thesis by simp
qed

section \<open>The bitmap\<close>

lemma bit_free_iff: "bit_free d bi \<longleftrightarrow> \<not> bit (d ! (bi div 8)) (bi mod 8)"
proof -
  have "bit_mask bi = 2 ^ (bi mod 8)" by (simp add: bit_mask_def push_bit_eq_mult)
  then show ?thesis by (simp add: bit_free_def and_exp_eq_0_iff_not_bit)
qed

lemma bit_mask_iff: "bit (bit_mask bi) j \<longleftrightarrow> j = bi mod 8"
  by (auto simp: bit_mask_def push_bit_eq_mult bit_exp_iff)

lemma div_mod_eq8: "bi div 8 = bj div 8 \<Longrightarrow> bi mod 8 = bj mod 8 \<Longrightarrow> bi = (bj :: nat)"
  by (metis div_mult_mod_eq)

lemma bit_free_set:
  assumes "bi < 8 * length d" and "bj < 8 * length d"
  shows "bit_free (set_bit_at bi d) bj \<longleftrightarrow> bit_free d bj \<and> bj \<noteq> bi"
proof -
  have "bi div 8 < length d" "bj div 8 < length d" using assms by simp_all
  then show ?thesis using div_mod_eq8 [of bi bj]
    by (auto simp: bit_free_iff set_bit_at_def nth_list_update bit_or_iff bit_mask_iff)
qed

lemma bit_free_clear:
  assumes "bi < 8 * length d" and "bj < 8 * length d"
  shows "bit_free (clear_bit_at bi d) bj \<longleftrightarrow> bit_free d bj \<or> bj = bi"
proof -
  have "bi div 8 < length d" "bj div 8 < length d" using assms by simp_all
  moreover have "bit (NOT (bit_mask bi)) (bj mod 8) \<longleftrightarrow> bj mod 8 \<noteq> bi mod 8"
    by (simp add: bit_not_iff bit_mask_iff)
  moreover have "bj = bi \<longleftrightarrow> bj div 8 = bi div 8 \<and> bj mod 8 = bi mod 8" using div_mod_eq8 [of bj bi] by blast
  ultimately show ?thesis
    by (cases "bj div 8 = bi div 8") (simp_all add: bit_free_iff clear_bit_at_def bit_and_iff)
qed

lemma length_set_bit [simp]: "length (set_bit_at bi d) = length d" "length (clear_bit_at bi d) = length d"
  by (simp_all add: set_bit_at_def clear_bit_at_def)

section \<open>Allocation\<close>

text \<open>A file system whose bitmap is one block, as \<^verbatim>\<open>mkfs\<close> builds it, inside a transaction: the blocks it
  manages and its bitmap block are outside the log.\<close>

definition bitmap_ok :: "'a fs_scheme \<Rightarrow> bool" where
  "bitmap_ok s \<longleftrightarrow> in_tx s {} \<and> unat (sb_size (sb s)) \<le> BPB \<and> sb_bmapstart (sb s) \<in> home_blocks (lenv s)"

definition block_free :: "'a fs_scheme \<Rightarrow> nat \<Rightarrow> bool" where
  "block_free s b \<longleftrightarrow> bit_free (bview s (sb_bmapstart (sb s))) b"

lemma bitmap_length: "bitmap_ok s \<Longrightarrow> length (bview s n) = BSIZE"
  by (rule lg.view_length [of s "{}"]) (simp add: bitmap_ok_def)

lemma bblock_single: "b < BPB \<Longrightarrow> BBLOCK (of_nat b) s = sb_bmapstart (sb s)"
proof -
  assume "b < BPB"
  then have "(of_nat b :: uint) < of_nat BPB" by (simp add: word_less_nat_alt unat_of_nat take_bit_eq_mod BPB_def)
  then show ?thesis by (simp add: BBLOCK_def div_word_less)
qed

lemma bzero_ok:
  fixes s :: "'a fs_scheme"
  assumes "in_tx s {}" and "n \<in> home_blocks (lenv s)" and "0 < log_left s"
  shows "\<exists>s'. bzero 1 n s = Ok s' \<and> in_tx s' {} \<and> bview s' = (bview s)(n := replicate BSIZE 0) \<and>
    lenv s' = lenv s \<and> log_left s - 1 \<le> log_left s'"
  using logged_update [OF assms(1,2) _ assms(3), of "\<lambda>_. replicate BSIZE 0"] by (simp add: bzero_def)

lemma balloc_ok:
  fixes s :: "'a fs_scheme"
  assumes ok: "bitmap_ok s" and left: "2 \<le> log_left s"
    and free: "b0 < unat (sb_size (sb s))" "block_free s b0"
    and home: "\<And>b. b < unat (sb_size (sb s)) \<Longrightarrow> block_free s b \<Longrightarrow> of_nat b \<in> home_blocks (lenv s) \<and> of_nat b \<noteq> sb_bmapstart (sb s)"
  shows "\<exists>b s'. balloc 1 s = Ok (of_nat b, s') \<and> b < unat (sb_size (sb s)) \<and> block_free s b \<and> bitmap_ok s' \<and>
    bview s' = (bview s)(sb_bmapstart (sb s) := set_bit_at b (bview s (sb_bmapstart (sb s))), of_nat b := replicate BSIZE 0) \<and>
    lenv s' = lenv s \<and> log_left s - 2 \<le> log_left s'"
proof -
  let ?sz = "unat (sb_size (sb s))" and ?m = "sb_bmapstart (sb s)"
  have tx: "in_tx s {}" and sz: "?sz \<le> BPB" and hm: "?m \<in> home_blocks (lenv s)" using ok by (simp_all add: bitmap_ok_def)
  have "card (dblocks s) < NBUF" using lg.capacity [OF tx] by simp
  then have room: "?m \<in> dblocks s \<or> card (dblocks s \<union> blk s ` {}) < NBUF" by simp
  have len: "length (bview s ?m) = BSIZE" by (rule lg.view_length [OF tx])
  define F where "F = find (bit_free (bview s ?m)) [0..<?sz]"
  have "F \<noteq> None" unfolding F_def find_None_iff using free by (auto simp: block_free_def)
  then obtain b where b: "F = Some b" by blast
  then have bf: "b < ?sz" "block_free s b" unfolding F_def find_Some_iff by (auto simp: block_free_def)
  let ?d = "set_bit_at b (bview s ?m)"
  have ld: "length ?d = BSIZE" using len by simp
  have pos: "0 < log_left s" using left by simp
  obtain bp s1 s2 s3 where u: "bread 1 ?m s = Ok (bp, s1)" "log_write bp (bset bp ?d s1) = Ok s2"
      "brelse bp s2 = Ok s3" "bdata s1 bp = bview s ?m" "in_tx s3 {}" "bview s3 = (bview s)(?m := ?d)"
      "log_left s3 = (if ?m \<in> dblocks s then log_left s else log_left s - 1)" "lenv s1 = lenv s" "lenv s3 = lenv s"
    by (rule lg.update_logged [OF tx hm _ room ld pos]) (simp, rule that, assumption+)
  have hb: "of_nat b \<in> home_blocks (lenv s3)" "of_nat b \<noteq> ?m" using home [OF bf] u by simp_all
  from bzero_ok [OF u(5) hb(1)] u(7) left obtain s4 where
    z: "bzero 1 (of_nat b) s3 = Ok s4" "in_tx s4 {}" "bview s4 = (bview s3)(of_nat b := replicate BSIZE 0)" "lenv s4 = lenv s3"
      "log_left s3 - 1 \<le> log_left s4"
    by (auto split: if_splits)
  have groups: "map (\<lambda>k. k * BPB) [0..<(?sz + BPB - 1) div BPB] = [0]"
  proof -
    have "(?sz + BPB - 1) div BPB = 1" using free(1) sz by (intro div_nat_eqI) (auto simp: BPB_def)
    then show ?thesis by simp
  qed
  have "min BPB (?sz - 0) = ?sz" using sz by simp
  moreover have "BBLOCK (of_nat 0) s = ?m" by (rule bblock_single) (simp add: BPB_def)
  moreover have "sb s1 = sb s" using fs_env(1) [OF u(8)] .
  ultimately have r: "balloc 1 s = Ok (of_nat b, s4)"
    using b u z(1) unfolding balloc_def groups by (simp add: F_def)
  have "sb s4 = sb s" using fs_env(1) [of s4 s] z(4) u(9) by simp
  then have bm: "bitmap_ok s4" using z(2,4) u(9) sz hm by (simp add: bitmap_ok_def)
  have vw: "bview s4 = (bview s)(?m := ?d, of_nat b := replicate BSIZE 0)" using z(3) u(6) by simp
  have lf: "log_left s - 2 \<le> log_left s4" using z(5) u(7) by (simp split: if_splits)
  have "lenv s4 = lenv s" using z(4) u(9) by simp
  with r bf bm vw lf show ?thesis by (intro exI [of _ b] exI [of _ s4] conjI)
qed

lemma bfree_ok:
  fixes s :: "'a fs_scheme"
  assumes "bitmap_ok s" and "0 < log_left s" and "b < unat (sb_size (sb s))" and "\<not> block_free s b"
  shows "\<exists>s'. bfree 1 (of_nat b) s = Ok s' \<and> in_tx s' {} \<and> lenv s' = lenv s \<and>
    bview s' = (bview s)(sb_bmapstart (sb s) := clear_bit_at b (bview s (sb_bmapstart (sb s))))"
proof -
  let ?m = "sb_bmapstart (sb s)"
  have tx: "in_tx s {}" and sz: "unat (sb_size (sb s)) \<le> BPB" and hm: "?m \<in> home_blocks (lenv s)"
    using assms(1) by (simp_all add: bitmap_ok_def)
  have "card (dblocks s) < NBUF" using lg.capacity [OF tx] by simp
  then have room: "?m \<in> dblocks s \<or> card (dblocks s \<union> blk s ` {}) < NBUF" by simp
  have ld: "length (clear_bit_at b (bview s ?m)) = BSIZE" using lg.view_length [OF tx] by simp
  obtain bp s1 s2 s3 where u: "bread 1 ?m s = Ok (bp, s1)" "log_write bp (bset bp (clear_bit_at b (bview s ?m)) s1) = Ok s2"
      "brelse bp s2 = Ok s3" "bdata s1 bp = bview s ?m" "in_tx s3 {}" "bview s3 = (bview s)(?m := clear_bit_at b (bview s ?m))"
      "lenv s3 = lenv s"
    by (rule lg.update_logged [OF tx hm _ room ld assms(2)]) (simp, rule that, assumption+)
  have "b < BPB" using assms(3) sz by simp
  then have "unat (of_nat b :: uint) mod BPB = b" "BBLOCK (of_nat b) s = ?m"
    using bblock_single [of b s] by (simp_all add: unat_of_nat take_bit_eq_mod BPB_def)
  then show ?thesis using u assms(4) by (simp add: bfree_def block_free_def)
qed

section \<open>Inodes on disk\<close>

lemma concat_u32_length: "length (concat (map u32_bytes xs)) = 4 * length xs"
  by (induction xs) simp_all

lemma length_dinode_bytes: "length (d_addrs x) = NDIRECT + 1 \<Longrightarrow> length (dinode_bytes x) = 64"
  by (simp add: dinode_bytes_def concat_u32_length NDIRECT_def)

lemma word_at_skip: "length xs \<le> off \<Longrightarrow> word_at (xs @ ys) off = word_at ys (off - length xs)"
  by (simp add: word_at_def chunk_def)

lemma half_at_skip: "length xs \<le> off \<Longrightarrow> half_at (xs @ ys) off = half_at ys (off - length xs)"
  by (simp add: half_at_def chunk_def)

lemma half_at_head: "half_at (u16_bytes w @ ys) 0 = w"
  by (simp add: half_at_def chunk_def)

lemma word_at_head: "word_at (u32_bytes w @ ys) 0 = w"
  by (simp add: word_at_def chunk_def)

lemma word_at_concat: "i < length xs \<Longrightarrow> word_at (concat (map u32_bytes xs)) (4 * i) = xs ! i"
proof (induction xs arbitrary: i)
  case (Cons x xs)
  show ?case
  proof (cases i)
    case 0
    then show ?thesis by (simp add: word_at_head)
  next
    case (Suc j)
    then show ?thesis using Cons by (simp add: word_at_skip)
  qed
qed simp

lemma bytes_dinode_bytes [simp, codec]:
  assumes "length (d_addrs x) = NDIRECT + 1"
  shows "bytes_dinode (dinode_bytes x) = x"
proof -
  have "map (\<lambda>i. word_at (dinode_bytes x) (12 + 4 * i)) [0..<NDIRECT + 1] = map ((!) (d_addrs x)) [0..<NDIRECT + 1]"
    using assms by (intro map_cong refl) (auto simp: dinode_bytes_def word_at_skip word_at_concat)
  also have "\<dots> = d_addrs x" using assms map_nth [of "d_addrs x"] by simp
  finally show ?thesis
    by (simp add: bytes_dinode_def del: upt_Suc)
      (simp add: dinode_bytes_def half_at_skip half_at_head word_at_skip word_at_head)
qed

lemma slot_off_le: "slot_off inum + 64 \<le> BSIZE"
proof -
  have "unat inum mod IPB \<le> 7" using mod_less_divisor [of IPB "unat inum"] by (simp add: IPB_def)
  then show ?thesis by (simp add: slot_off_def BSIZE_def)
qed

lemma iupdate_ok:
  fixes s :: "'a fs_scheme"
  assumes "in_tx s {}" and "i_dev (icache s ! i) = 1" and "IBLOCK (i_inum (icache s ! i)) s \<in> home_blocks (lenv s)"
    and "length (i_addrs (icache s ! i)) = NDIRECT + 1" and "0 < log_left s"
  shows "\<exists>s'. iupdate i s = Ok s' \<and> in_tx s' {} \<and> lenv s' = lenv s \<and>
    bytes_dinode (chunk (bview s' (IBLOCK (i_inum (icache s ! i)) s)) (slot_off (i_inum (icache s ! i))) 64) = inode_disk (icache s ! i)"
proof -
  let ?ip = "icache s ! i" and ?n = "IBLOCK (i_inum (icache s ! i)) s"
  let ?x = "inode_disk ?ip" and ?o = "slot_off (i_inum (icache s ! i))"
  have len: "length (dinode_bytes ?x) = 64" by (rule length_dinode_bytes) (simp add: inode_disk_def assms(4))
  have v: "length (bview s ?n) = BSIZE" by (rule lg.view_length [OF assms(1)])
  have fit: "?o + length (dinode_bytes ?x) \<le> length (bview s ?n)" using slot_off_le v len by simp
  then have "length (patch (bview s ?n) ?o (dinode_bytes ?x)) = BSIZE" using v by simp
  from logged_update [of s ?n "\<lambda>d. patch d ?o (dinode_bytes ?x)", OF assms(1,3) this assms(5)] obtain s' where
    s': "obind (bread 1 ?n s) (\<lambda>(bp, s). obind (log_write bp (bset bp (patch (bdata s bp) ?o (dinode_bytes ?x)) s)) (brelse bp)) = Ok s'"
      "in_tx s' {}" "bview s' = (bview s)(?n := patch (bview s ?n) ?o (dinode_bytes ?x))" "lenv s' = lenv s" by auto
  have "chunk (patch (bview s ?n) ?o (dinode_bytes ?x)) ?o 64 = dinode_bytes ?x"
    using chunk_patch_same [OF fit] len by simp
  then show ?thesis using s' assms(2,4) by (auto simp: iupdate_def Let_def inode_disk_def)
qed

section \<open>A sample file system\<close>

text \<open>Fifty blocks with the bitmap in block 40; blocks 48 and 49 are free.\<close>

definition sample_fs :: fs where
  "sample_fs = \<lparr>bufs = bcache0, disk = (\<lambda>_. replicate BSIZE 0)(40 := replicate 6 255 @ replicate 506 0),
     disksize = 1000, dwrites = [], mypid = 1, log_start = 2, log_size = 30, log_outstanding = 1,
     log_committing = False, log_dev = 1, lh_n = 0, lh_block = replicate LOGSIZE 0,
     sb = \<lparr>sb_size = 50, sb_nblocks = 8, sb_ninodes = 16, sb_nlog = 30, sb_logstart = 2, sb_inodestart = 32, sb_bmapstart = 40\<rparr>,
     icache = [\<lparr>i_dev = 1, i_inum = 3, i_ref = 1, i_lock = initsleeplock, i_valid = True, i_type = 2, i_major = 0, i_minor = 0,
       i_nlink = 1, i_size = 700, i_addrs = [48, 49, 0, 0, 0, 0, 0, 0, 0, 0, 0, 0, 0]\<rparr>]\<rparr>"

lemma sample_fs_tx: "in_tx sample_fs {}" "dblocks sample_fs = {}"
proof -
  have c: "binv sample_fs {}" "dblocks sample_fs = {}"
    by (rule bcache0_binv; simp add: sample_fs_def BSIZE_def)+
  have "head_n (replicate BSIZE 0) = 0"
    by (simp add: head_n_def word_at_def chunk_def BSIZE_def bytes_u32_def)
  then show "in_tx sample_fs {}"
    using c by (simp add: in_tx_def tx_ok_def log_geo_def head_ok_def)
      (simp add: sample_fs_def LOGSIZE_def)
  show "dblocks sample_fs = {}" by (rule c)
qed

lemma sample_fs_left: "log_left sample_fs = 29"
  by (simp add: log_left_def sample_fs_def)

lemma sample_fs_view: "bview sample_fs = disk sample_fs"
  by (rule bcache0_binv(2); simp add: sample_fs_def BSIZE_def)

lemma unat_small: "n < 1000 \<Longrightarrow> unat (of_nat n :: uint) = n"
  by (simp add: unat_of_nat take_bit_nat_eq_self)

lemma sample_region: "a \<in> log_region 2 30 \<Longrightarrow> unat a < 32"
proof -
  assume "a \<in> log_region 2 30"
  then obtain i where i: "a = 2 + of_nat i" "int i < 30" unfolding log_region_def by blast
  then have "a = of_nat (2 + i)" by simp
  then show "unat a < 32" using i(2) unat_small [of "2 + i"] by simp
qed

lemma sample_fs_home: "32 \<le> n \<Longrightarrow> n < 1000 \<Longrightarrow> of_nat n \<in> home_blocks (lenv sample_fs)"
proof -
  assume n: "32 \<le> n" "n < 1000"
  note u = unat_small [OF n(2)]
  have "(of_nat n :: uint) \<notin> log_region 2 30" using sample_region [of "of_nat n"] u n(1) by linarith
  moreover have "(of_nat n :: uint) < 1000" unfolding word_less_nat_alt u using n(2) by simp
  moreover have "disksize sample_fs = 1000" "log_start sample_fs = 2" "log_size sample_fs = 30" by (simp_all add: sample_fs_def)
  ultimately show ?thesis unfolding home_blocks_def lenv_def by (simp only: prod.case Diff_iff mem_Collect_eq simp_thms)
qed

lemma sample_fs_free: "b < 50 \<Longrightarrow> block_free sample_fs b \<longleftrightarrow> 48 \<le> b"
proof -
  assume b: "b < 50"
  have v: "bview sample_fs 40 = replicate 6 255 @ replicate 506 0" unfolding sample_fs_view by (simp add: sample_fs_def)
  have bits: "bit (255 :: byte) j" if "j < 8" for j
  proof -
    have e: "(255 :: byte) = - 1" by simp
    show ?thesis unfolding e bit_minus_1_iff using that by simp
  qed
  have "sb_bmapstart (sb sample_fs) = 40" by (simp add: sample_fs_def)
  then show ?thesis using b bits [of "b mod 8"] by (auto simp: block_free_def v bit_free_iff nth_append)
qed

lemma sample_fs_bitmap: "bitmap_ok sample_fs"
proof -
  have "unat (sb_size (sb sample_fs)) \<le> BPB" "sb_bmapstart (sb sample_fs) = 40"
    by (simp_all add: sample_fs_def BPB_def)
  then show ?thesis using sample_fs_home [of 40] sample_fs_tx(1) by (simp add: bitmap_ok_def)
qed

lemma sample_fs_blocks:
  "unat (sb_size (sb sample_fs)) = 50" "sb_bmapstart (sb sample_fs) = 40"
  "b < unat (sb_size (sb sample_fs)) \<Longrightarrow> block_free sample_fs b \<Longrightarrow>
    of_nat b \<in> home_blocks (lenv sample_fs) \<and> of_nat b \<noteq> sb_bmapstart (sb sample_fs)"
proof -
  show sz: "unat (sb_size (sb sample_fs)) = 50" "sb_bmapstart (sb sample_fs) = 40" by (simp_all add: sample_fs_def)
  assume "b < unat (sb_size (sb sample_fs))" "block_free sample_fs b"
  then have b: "48 \<le> b" "b < 50" using sample_fs_free [of b] sz(1) by simp_all
  then have "of_nat b \<noteq> (40 :: uint)" using unat_small [of b] by fastforce
  then show "of_nat b \<in> home_blocks (lenv sample_fs) \<and> of_nat b \<noteq> sb_bmapstart (sb sample_fs)"
    using sample_fs_home [of b] sz(2) b by simp
qed

section \<open>Properties\<close>

text \<open>C22. The block allocator hands out free blocks. In a transaction with room for two more blocks, if the bitmap
  shows a free block then \<open>balloc\<close> returns; the block it returns was free, is marked in use and reads as
  zeros, no other block changes its mark, and the content of every other block outside the bitmap is unchanged.\<close>

theorem balloc_fresh:
  assumes "bitmap_ok s" and "2 \<le> log_left s" and "b0 < unat (sb_size (sb s))" and "block_free s b0"
    and "\<And>b. b < unat (sb_size (sb s)) \<Longrightarrow> block_free s b \<Longrightarrow> of_nat b \<in> home_blocks (lenv s) \<and> of_nat b \<noteq> sb_bmapstart (sb s)"
  shows "\<exists>b s'. balloc 1 s = Ok (of_nat b, s') \<and> b < unat (sb_size (sb s)) \<and> block_free s b \<and>
    (\<forall>c < unat (sb_size (sb s)). block_free s' c \<longleftrightarrow> block_free s c \<and> c \<noteq> b) \<and>
    bview s' (of_nat b) = replicate BSIZE 0 \<and>
    (\<forall>n. n \<noteq> of_nat b \<and> n \<noteq> sb_bmapstart (sb s) \<longrightarrow> bview s' n = bview s n)"
proof -
  from balloc_ok [OF assms] obtain b s' where
    b: "balloc 1 s = Ok (of_nat b, s')" "b < unat (sb_size (sb s))" "block_free s b"
      "bview s' = (bview s)(sb_bmapstart (sb s) := set_bit_at b (bview s (sb_bmapstart (sb s))), of_nat b := replicate BSIZE 0)"
      "lenv s' = lenv s" by auto
  have ne: "of_nat b \<noteq> sb_bmapstart (sb s)" using assms(5) [OF b(2,3)] by simp
  have "length (bview s (sb_bmapstart (sb s))) = BSIZE"
    by (rule bitmap_length [OF assms(1)])
  moreover have "unat (sb_size (sb s)) \<le> 8 * BSIZE" using assms(1) by (simp add: bitmap_ok_def BPB_def BSIZE_def)
  moreover have "sb s' = sb s" using fs_env(1) [OF b(5)] .
  ultimately have "\<forall>c < unat (sb_size (sb s)). block_free s' c \<longleftrightarrow> block_free s c \<and> c \<noteq> b"
    using b(2,4) ne by (simp add: block_free_def bit_free_set)
  moreover have "bview s' (of_nat b) = replicate BSIZE 0" unfolding b(4) by simp
  moreover have "\<forall>n. n \<noteq> of_nat b \<and> n \<noteq> sb_bmapstart (sb s) \<longrightarrow> bview s' n = bview s n" unfolding b(4) by simp
  ultimately show ?thesis by (intro exI [of _ b] exI [of _ s'] conjI b(1-3))
qed

theorem balloc_fresh_witness:
  "\<exists>b s'. balloc 1 sample_fs = Ok (of_nat b, s') \<and> b < 50 \<and> 48 \<le> b \<and> bview s' (of_nat b) = replicate BSIZE 0"
proof -
  from balloc_fresh [OF sample_fs_bitmap _ _ _ sample_fs_blocks(3), of 48] obtain b s' where
    "balloc 1 sample_fs = Ok (of_nat b, s')" "b < 50" "block_free sample_fs b" "bview s' (of_nat b) = replicate BSIZE 0"
    using sample_fs_free [of 48] sample_fs_left sample_fs_blocks(1) by auto
  then show ?thesis using sample_fs_free [of b] by blast
qed

text \<open>C23. Freeing what was allocated gives the bitmap back: \<open>bfree\<close> of the block that \<open>balloc\<close> returned succeeds and every
  block is marked as it was before.\<close>

theorem balloc_bfree:
  assumes "bitmap_ok s" and "3 \<le> log_left s" and "b0 < unat (sb_size (sb s))" and "block_free s b0"
    and "\<And>b. b < unat (sb_size (sb s)) \<Longrightarrow> block_free s b \<Longrightarrow> of_nat b \<in> home_blocks (lenv s) \<and> of_nat b \<noteq> sb_bmapstart (sb s)"
  shows "\<exists>a s1 s2. balloc 1 s = Ok (a, s1) \<and> bfree 1 a s1 = Ok s2 \<and>
    (\<forall>c < unat (sb_size (sb s)). block_free s2 c \<longleftrightarrow> block_free s c)"
proof -
  from balloc_ok [OF assms(1) _ assms(3-5)] assms(2) obtain b s1 where
    b: "balloc 1 s = Ok (of_nat b, s1)" "b < unat (sb_size (sb s))" "block_free s b" "bitmap_ok s1"
      "bview s1 = (bview s)(sb_bmapstart (sb s) := set_bit_at b (bview s (sb_bmapstart (sb s))), of_nat b := replicate BSIZE 0)"
      "lenv s1 = lenv s" "log_left s - 2 \<le> log_left s1" by auto
  let ?m = "sb_bmapstart (sb s)"
  have ne: "of_nat b \<noteq> ?m" using assms(5) [OF b(2,3)] by simp
  have len: "length (bview s ?m) = BSIZE" by (rule bitmap_length [OF assms(1)])
  have sz: "unat (sb_size (sb s)) \<le> 8 * BSIZE" using assms(1) by (simp add: bitmap_ok_def BPB_def BSIZE_def)
  have sb: "sb s1 = sb s" using fs_env(1) [OF b(6)] .
  have v1: "bview s1 ?m = set_bit_at b (bview s ?m)" using b(5) ne by simp
  have "\<not> block_free s1 b" using b(2) len sz sb v1 by (simp add: block_free_def bit_free_set)
  moreover have "0 < log_left s1" using b(7) assms(2) by simp
  ultimately obtain s2 where
    s2: "bfree 1 (of_nat b) s1 = Ok s2" "lenv s2 = lenv s1" "bview s2 = (bview s1)(?m := clear_bit_at b (bview s1 ?m))"
    using bfree_ok [OF b(4), of b] b(2) sb by auto
  have "sb s2 = sb s" using fs_env(1) [OF s2(2)] sb by simp
  then have "\<forall>c < unat (sb_size (sb s)). block_free s2 c \<longleftrightarrow> block_free s c"
    using b(2,3) len sz by (auto simp: block_free_def s2(3) v1 bit_free_clear bit_free_set)
  then show ?thesis using b(1) s2(1) by blast
qed

theorem balloc_bfree_witness:
  "\<exists>a s1 s2. balloc 1 sample_fs = Ok (a, s1) \<and> bfree 1 a s1 = Ok s2 \<and> block_free s2 48 \<and> block_free s2 49"
proof -
  from balloc_bfree [OF sample_fs_bitmap _ _ _ sample_fs_blocks(3), of 48] obtain a s1 s2 where
    "balloc 1 sample_fs = Ok (a, s1)" "bfree 1 a s1 = Ok s2" "\<forall>c < 50. block_free s2 c \<longleftrightarrow> block_free sample_fs c"
    using sample_fs_free [of 48] sample_fs_left sample_fs_blocks(1) by auto
  then show ?thesis using sample_fs_free [of 48] sample_fs_free [of 49] by auto
qed



end
