(* ===== verification/Path_Laws.thy ===== *)
theory Path_Laws
  imports Fs
begin

text \<open>
  The elements of a path, as the loop of \<^verbatim>\<open>namex\<close> sees them through \<open>skipelem\<close>.
\<close>

lemma length_dropWhile_less: "xs \<noteq> [] \<Longrightarrow> P (hd xs) \<Longrightarrow> length (dropWhile P xs) < length xs"
  by (cases xs) (simp_all add: length_dropWhile_le le_imp_less_Suc)

lemma skipelem_less: "skipelem path = Some (name, rest) \<Longrightarrow> length rest < length path"
proof -
  assume a: "skipelem path = Some (name, rest)"
  define p where "p = dropWhile (\<lambda>c. c = 47) path"
  define e where "e = takeWhile (\<lambda>c. c \<noteq> 47) p"
  have ne: "p \<noteq> []" and r: "rest = dropWhile (\<lambda>c. c = 47) (drop (length e) p)"
    using a by (auto simp: skipelem_def Let_def p_def e_def split: if_splits)
  have "hd p \<noteq> 47" using ne hd_dropWhile [of "\<lambda>c. c = 47" path] by (simp add: p_def)
  then have "0 < length e" using ne by (cases p) (simp_all add: e_def)
  then have "length (drop (length e) p) < length p" using ne by simp
  then show "length rest < length path"
    using length_dropWhile_le [of "\<lambda>c. c = 47" "drop (length e) p"] length_dropWhile_le [of "\<lambda>c. c = 47" path]
    by (simp add: r p_def)
qed

text \<open>The names that successive calls of \<open>skipelem\<close> give.\<close>

function elems :: "byte list \<Rightarrow> byte list list" where
  "elems path = (case skipelem path of None \<Rightarrow> [] | Some (name, rest) \<Rightarrow> name # elems rest)"
  by pat_completeness auto

termination by (relation "measure length") (auto dest: skipelem_less)

declare elems.simps [simp del]

lemma dropWhile_slashes: "dropWhile (\<lambda>c. c = 47) (replicate k 47 @ xs) = dropWhile (\<lambda>c. c = 47) xs"
  by (induction k) simp_all

lemma skipelem_slashes: "skipelem (replicate k 47) = None"
  using dropWhile_slashes [of k "[]"] by (simp add: skipelem_def)

lemma skipelem_name:
  assumes "name \<noteq> []" and "47 \<notin> set name" and "rest = [] \<or> hd rest = 47"
  shows "skipelem (replicate k 47 @ name @ rest) = Some (take DIRSIZ name, dropWhile (\<lambda>c. c = 47) rest)"
proof -
  have "hd name \<noteq> 47" using assms(1,2) by (cases name) auto
  then have d: "dropWhile (\<lambda>c. c = 47) (name @ rest) = name @ rest" using assms(1) by (cases name) auto
  have "takeWhile (\<lambda>c. c \<noteq> 47) name = name" using assms(2) by (auto simp: takeWhile_eq_all_conv)
  moreover have "takeWhile (\<lambda>c. c \<noteq> 47) rest = []" using assms(3) by (cases rest) auto
  ultimately have t: "takeWhile (\<lambda>c. c \<noteq> 47) (name @ rest) = name"
    using assms(2) by (simp add: takeWhile_append)
  show ?thesis unfolding skipelem_def Let_def dropWhile_slashes d t using assms(1) by simp
qed

text \<open>A path written with any number of slashes before each name.\<close>

definition path_of :: "(nat \<times> byte list) list \<Rightarrow> byte list" where
  "path_of ns = concat (map (\<lambda>(k, n). replicate (Suc k) 47 @ n) ns)"

lemma elems_leading: "elems (dropWhile (\<lambda>c. c = 47) path) = elems path"
proof -
  have "skipelem (dropWhile (\<lambda>c. c = 47) path) = skipelem path"
    by (simp add: skipelem_def dropWhile_idem)
  then show ?thesis by (subst (1 2) elems.simps) simp
qed

text \<open>C29. Path names are split at their slashes: the elements that \<open>skipelem\<close> gives one after the other
  for a path written with one or more slashes before each name, and any number of slashes at the
  end, are exactly its names, each cut to \<open>DIRSIZ\<close> characters.\<close>

theorem elems_path_of:
  assumes "\<forall>(k, n) \<in> set ns. n \<noteq> [] \<and> 47 \<notin> set n"
  shows "elems (path_of ns @ replicate t 47) = map (\<lambda>(k, n). take DIRSIZ n) ns"
  using assms
proof (induction ns)
  case Nil
  then show ?case by (simp add: path_of_def elems.simps skipelem_slashes)
next
  case (Cons kn ns)
  obtain k n where kn: "kn = (k, n)" by (cases kn)
  let ?r = "path_of ns @ replicate t 47"
  have "?r = [] \<or> hd ?r = 47"
    by (cases ns; cases t) (auto simp: path_of_def)
  then have "skipelem (replicate (Suc k) 47 @ n @ ?r) = Some (take DIRSIZ n, dropWhile (\<lambda>c. c = 47) ?r)"
    using Cons.prems by (intro skipelem_name) (auto simp: kn)
  then have "elems (replicate (Suc k) 47 @ n @ ?r) = take DIRSIZ n # elems ?r"
    by (subst elems.simps) (simp only: option.case prod.case elems_leading)
  then show ?case using Cons by (simp add: kn path_of_def)
qed

theorem elems_path_of_witness:
  "elems (path_of [(0, [117, 115, 114]), (1, [97])] @ [47]) = [[117, 115, 114], [97]]"
  using elems_path_of [of "[(0, [117, 115, 114]), (1, [97])]" 1] by (simp add: DIRSIZ_def)

end
