(* ===== verification/Ring_Buffer.thy ===== *)
theory Ring_Buffer
  imports Xv6_Prelude
begin

text \<open>
  Ring buffers indexed by free-running 32-bit counters, the scheme of \<^verbatim>\<open>struct pipe\<close> and of the
  console input buffer: the slot of counter \<open>i\<close> is \<open>i mod N\<close> and the counters wrap, which is sound
  because \<open>N\<close> divides \<open>2 ^ 32\<close>. The locale \<open>byte_fifo\<close> is the contract a client of such a buffer
  uses; it is interpreted on the pipe and on the console input.
\<close>

definition ring_content :: "nat \<Rightarrow> byte list \<Rightarrow> uint \<Rightarrow> uint \<Rightarrow> byte list" where
  "ring_content N buf r w = map (\<lambda>i. buf ! (unat (r + of_nat i) mod N)) [0..<unat (w - r)]"

lemma length_ring_content [simp]: "length (ring_content N buf r w) = unat (w - r)"
  by (simp add: ring_content_def)

lemma ring_content_empty [simp]: "ring_content N buf r r = []"
  by (simp add: ring_content_def)

lemma unat_Suc_counter:
  assumes "unat (w - r :: uint) < N" and "N \<le> 2 ^ 31"
  shows "unat (w + 1 - r) = Suc (unat (w - r))"
proof -
  have "unat (w - r + 1) = unat (w - r) + 1"
    using assms by (simp add: unat_word_ariths)
  then show ?thesis by (simp add: algebra_simps)
qed

lemma unat_pred_counter:
  assumes "w \<noteq> r"
  shows "unat (w - (r + 1) :: uint) = unat (w - r) - 1" and "0 < unat (w - r :: uint)"
proof -
  have "w - r \<noteq> 0" using assms by simp
  then show "0 < unat (w - r)" by (simp add: unat_gt_0)
  show "unat (w - (r + 1)) = unat (w - r) - 1"
    using unat_minus_one [OF \<open>w - r \<noteq> 0\<close>] by (simp add: algebra_simps)
qed

text \<open>Two counters less than \<open>N\<close> apart use different slots.\<close>

lemma slot_differs:
  assumes "N dvd 2 ^ 32" and "unat (w - x :: uint) < N" and "w \<noteq> x"
  shows "unat w mod N \<noteq> unat x mod N"
proof
  assume eq: "unat w mod N = unat x mod N"
  let ?k = "unat (w - x)"
  have "unat w = (unat x + ?k) mod 2 ^ 32"
    using unat_word_ariths(1) [of x "w - x"] by simp
  then have "unat w mod N = (unat x + ?k) mod N"
    using mod_mod_cancel [OF assms(1)] by simp
  then have "(unat x + ?k) mod N = (unat x + 0) mod N" using eq by simp
  then have "N dvd unat x + ?k - unat x"
    using mod_eq_dvd_iff_nat [of "unat x" "unat x + ?k" N] by simp
  then have "?k = 0" using assms(2) by (auto dest: dvd_imp_le)
  then show False using assms(3) by (simp add: unat_eq_zero)
qed


lemma ring_content_put:
  assumes N: "N dvd 2 ^ 32" "N \<le> 2 ^ 31" and len: "length buf = N" and room: "unat (w - r) < N"
  shows "ring_content N (buf[unat w mod N := c]) r (w + 1) = ring_content N buf r w @ [c]"
proof -
  let ?n = "unat (w - r)"
  have pos: "0 < N" using room by simp
  have old: "buf[unat w mod N := c] ! (unat (r + of_nat i) mod N) = buf ! (unat (r + of_nat i) mod N)"
    if i: "i < ?n" for i
  proof -
    have i32: "unat (of_nat i :: uint) = i"
      using i room N(2) by (simp add: unat_of_nat take_bit_eq_mod)
    have "of_nat i \<le> w - r" using i i32 by (simp add: word_le_nat_alt)
    then have "unat (w - (r + of_nat i)) = ?n - i"
      using unat_sub [of "of_nat i" "w - r"] i32 by (simp add: algebra_simps)
    moreover from this i have "w \<noteq> r + of_nat i" by auto
    ultimately have "unat w mod N \<noteq> unat (r + of_nat i) mod N"
      using room by (intro slot_differs [OF N(1)]) auto
    then show ?thesis by simp
  qed
  have "r + of_nat ?n = w" by simp
  then show ?thesis
    using old pos len by (simp add: ring_content_def unat_Suc_counter [OF room N(2)])
qed

lemma ring_content_get:
  assumes "w \<noteq> r"
  shows "ring_content N buf r w = buf ! (unat r mod N) # ring_content N buf (r + 1) w"
proof -
  obtain k where k: "unat (w - r) = Suc k" "unat (w - (r + 1)) = k"
    using unat_pred_counter [OF assms] by (intro that [of "unat (w - r) - 1"]) simp_all
  have e: "r + of_nat (Suc i) = r + 1 + of_nat i" for i by simp
  have z: "r + of_nat 0 = r" by simp
  have "[0..<Suc k] = 0 # map Suc [0..<k]" by (simp add: map_Suc_upt upt_conv_Cons del: upt_Suc)
  then have "map (\<lambda>i. buf ! (unat (r + of_nat i) mod N)) [0..<Suc k] =
      buf ! (unat r mod N) # map (\<lambda>i. buf ! (unat (r + 1 + of_nat i) mod N)) [0..<k]"
    by (simp only: list.map map_map o_def e z)
  then show ?thesis unfolding ring_content_def k .
qed

section \<open>The contract\<close>

locale byte_fifo =
  fixes put :: "byte \<Rightarrow> 's \<Rightarrow> 's"
    and get :: "'s \<Rightarrow> byte \<times> 's"
    and content :: "'s \<Rightarrow> byte list"
    and inv :: "'s \<Rightarrow> bool"
    and cap :: nat
  assumes put_inv: "inv s \<Longrightarrow> length (content s) < cap \<Longrightarrow> inv (put c s)"
    and put_content: "inv s \<Longrightarrow> length (content s) < cap \<Longrightarrow> content (put c s) = content s @ [c]"
    and get_inv: "inv s \<Longrightarrow> content s \<noteq> [] \<Longrightarrow> inv (snd (get s))"
    and get_content: "inv s \<Longrightarrow> content s \<noteq> [] \<Longrightarrow> content s = fst (get s) # content (snd (get s))"
begin

fun puts :: "byte list \<Rightarrow> 's \<Rightarrow> 's" where
  "puts [] s = s"
| "puts (c # cs) s = puts cs (put c s)"

fun gets :: "nat \<Rightarrow> 's \<Rightarrow> byte list \<times> 's" where
  "gets 0 s = ([], s)"
| "gets (Suc n) s = (let (c, s) = get s; (cs, s) = gets n s in (c # cs, s))"

lemma puts_ok:
  "inv s \<Longrightarrow> length (content s) + length cs \<le> cap \<Longrightarrow> inv (puts cs s) \<and> content (puts cs s) = content s @ cs"
  by (induction cs arbitrary: s) (auto simp: put_inv put_content)

lemma gets_ok:
  "inv s \<Longrightarrow> n \<le> length (content s) \<Longrightarrow>
    inv (snd (gets n s)) \<and> fst (gets n s) = take n (content s) \<and> content (snd (gets n s)) = drop n (content s)"
proof (induction n arbitrary: s)
  case (Suc n)
  then have ne: "content s \<noteq> []" by auto
  obtain c t where g: "get s = (c, t)" by force
  have t: "inv t" "content s = c # content t" using get_inv [OF Suc.prems(1) ne] get_content [OF Suc.prems(1) ne] g by auto
  then have "n \<le> length (content t)" using Suc.prems(2) by simp
  from Suc.IH [OF t(1) this] t(2) show ?case by (cases "gets n t") (simp add: g)
qed simp

end

end
