(* ===== verification/Pipe.thy ===== *)
theory Pipe
  imports Ring_Buffer
begin

text \<open>
  Pipes (\<^verbatim>\<open>pipe.c\<close>). One call of \<open>pipewrite\<close> or \<open>piperead\<close> here is the part of the C function
  between two sleeps: it holds the lock throughout, and either returns a result or gives up the
  lock to wait on a channel. A writer that waits is resumed with the bytes it still has to write.
  The channels woken are part of the result. Allocation is in the theory of the file table.
\<close>

definition PIPESIZE :: nat where "PIPESIZE = 512"

record pipe =
  p_data :: "byte list"
  nread :: uint
  nwrite :: uint
  readopen :: bool
  writeopen :: bool

datatype io_result = Returned int | Waiting string

definition pipe_put :: "byte \<Rightarrow> pipe \<Rightarrow> pipe" where
  "pipe_put c p = p\<lparr>p_data := (p_data p)[unat (nwrite p) mod PIPESIZE := c], nwrite := nwrite p + 1\<rparr>"

definition pipe_get :: "pipe \<Rightarrow> byte \<times> pipe" where
  "pipe_get p = (p_data p ! (unat (nread p) mod PIPESIZE), p\<lparr>nread := nread p + 1\<rparr>)"

definition pipeinit :: "byte list \<Rightarrow> pipe" where
  "pipeinit d = \<lparr>p_data = d, nread = 0, nwrite = 0, readopen = True, writeopen = True\<rparr>"

definition pipeclose :: "bool \<Rightarrow> pipe \<Rightarrow> pipe \<times> string list \<times> bool" where
  "pipeclose writable p =
     (let (p, wake) = (if writable then (p\<lparr>writeopen := False\<rparr>, ''nread'') else (p\<lparr>readopen := False\<rparr>, ''nwrite''))
      in (p, [wake], \<not> readopen p \<and> \<not> writeopen p))"

fun pipewrite :: "bool \<Rightarrow> int \<Rightarrow> byte list \<Rightarrow> pipe \<Rightarrow> io_result \<times> byte list \<times> string list \<times> pipe" where
  "pipewrite killed n [] p = (Returned n, [], [''nread''], p)"
| "pipewrite killed n (c # cs) p =
     (if nwrite p = nread p + of_nat PIPESIZE then
        if \<not> readopen p \<or> killed then (Returned (- 1), c # cs, [], p)
        else (Waiting ''nwrite'', c # cs, [''nread''], p)
      else pipewrite killed n cs (pipe_put c p))"

fun piperead_loop :: "nat \<Rightarrow> pipe \<Rightarrow> byte list \<times> pipe" where
  "piperead_loop 0 p = ([], p)"
| "piperead_loop (Suc n) p =
     (if nread p = nwrite p then ([], p)
      else let (c, p) = pipe_get p; (cs, p) = piperead_loop n p in (c # cs, p))"

definition piperead :: "bool \<Rightarrow> int \<Rightarrow> pipe \<Rightarrow> io_result \<times> byte list \<times> string list \<times> pipe" where
  "piperead killed n p =
     (if nread p = nwrite p \<and> writeopen p then
        if killed then (Returned (- 1), [], [], p) else (Waiting ''nread'', [], [], p)
      else let (cs, p) = piperead_loop (nat n) p in (Returned (int (length cs)), cs, [''nwrite''], p))"

section \<open>A pipe is a bounded queue\<close>

definition pipe_content :: "pipe \<Rightarrow> byte list" where
  "pipe_content p = ring_content PIPESIZE (p_data p) (nread p) (nwrite p)"

definition pipe_inv :: "pipe \<Rightarrow> bool" where
  "pipe_inv p \<longleftrightarrow> length (p_data p) = PIPESIZE \<and> length (pipe_content p) \<le> PIPESIZE"

lemma pipe_size: "PIPESIZE dvd 2 ^ 32" "PIPESIZE \<le> 2 ^ 31" "0 < PIPESIZE"
  by (simp_all add: PIPESIZE_def)

interpretation pf: byte_fifo pipe_put pipe_get pipe_content pipe_inv PIPESIZE
proof
  fix p c
  assume p: "pipe_inv p"
  show put: "pipe_content (pipe_put c p) = pipe_content p @ [c]" if "length (pipe_content p) < PIPESIZE"
    using ring_content_put [OF pipe_size(1,2)] p that by (simp add: pipe_content_def pipe_put_def pipe_inv_def)
  show "pipe_inv (pipe_put c p)" if "length (pipe_content p) < PIPESIZE"
    using put [OF that] p that by (simp add: pipe_inv_def) (simp add: pipe_put_def)
  assume ne: "pipe_content p \<noteq> []"
  then have "nwrite p \<noteq> nread p" by (auto simp: pipe_content_def)
  from ring_content_get [OF this] show get: "pipe_content p = fst (pipe_get p) # pipe_content (snd (pipe_get p))"
    by (simp add: pipe_content_def pipe_get_def)
  have "p_data (snd (pipe_get p)) = p_data p" by (simp add: pipe_get_def)
  moreover have "length (pipe_content (snd (pipe_get p))) \<le> PIPESIZE"
    using p arg_cong [OF get, of length] by (simp add: pipe_inv_def)
  ultimately show "pipe_inv (snd (pipe_get p))" using p by (simp add: pipe_inv_def)
qed

lemma pipe_full: "pipe_inv p \<Longrightarrow> nwrite p = nread p + of_nat PIPESIZE \<longleftrightarrow> length (pipe_content p) = PIPESIZE"
proof -
  have "unat (of_nat PIPESIZE :: uint) = PIPESIZE" by (simp add: PIPESIZE_def)
  then have "nwrite p - nread p = of_nat PIPESIZE \<longleftrightarrow> unat (nwrite p - nread p) = PIPESIZE"
    by (metis word_unat_eq_iff)
  then show ?thesis by (auto simp: pipe_content_def algebra_simps)
qed

lemma pipe_empty: "nread p = nwrite p \<longleftrightarrow> pipe_content p = []"
proof -
  have "pipe_content p = [] \<longleftrightarrow> unat (nwrite p - nread p) = 0"
    by (metis length_0_conv length_ring_content pipe_content_def)
  then show ?thesis by (auto simp: unat_eq_zero)
qed


lemma pipewrite_ok:
  assumes "pipe_inv p" and "pipewrite killed n cs p = (res, rest, wk, p')"
    and "k = min (length cs) (PIPESIZE - length (pipe_content p))"
  shows "pipe_inv p' \<and> rest = drop k cs \<and> pipe_content p' = pipe_content p @ take k cs \<and>
    readopen p' = readopen p \<and> writeopen p' = writeopen p \<and>
    res = (if k = length cs then Returned n
           else if \<not> readopen p \<or> killed then Returned (- 1) else Waiting ''nwrite'')"
  using assms
proof (induction killed n cs p arbitrary: k rule: pipewrite.induct)
  case (2 killed n c cs p)
  show ?case
  proof (cases "length (pipe_content p) = PIPESIZE")
    case True
    then have "nwrite p = nread p + of_nat PIPESIZE" using pipe_full [OF 2(2)] by simp
    with 2(3,4) True 2(2) show ?thesis by (auto split: if_splits)
  next
    case False
    then have room: "length (pipe_content p) < PIPESIZE" using 2(2) by (simp add: pipe_inv_def)
    have nf: "nwrite p \<noteq> nread p + of_nat PIPESIZE" using pipe_full [OF 2(2)] False by simp
    let ?q = "pipe_put c p"
    have q: "pipe_inv ?q" "pipe_content ?q = pipe_content p @ [c]"
      using pf.put_inv [OF 2(2) room] pf.put_content [OF 2(2) room] by auto
    have k: "k = Suc (min (length cs) (PIPESIZE - length (pipe_content ?q)))"
      using 2(4) room q(2) by simp
    have "readopen ?q = readopen p" "writeopen ?q = writeopen p" by (simp_all add: pipe_put_def)
    with 2(1) [OF nf q(1) _ refl] 2(3) nf q(2) k show ?thesis by simp
  qed
qed auto

lemma piperead_loop_ok:
  assumes "pipe_inv p" and "piperead_loop n p = (cs, p')"
  shows "pipe_inv p' \<and> cs = take n (pipe_content p) \<and> pipe_content p' = drop n (pipe_content p) \<and>
    readopen p' = readopen p \<and> writeopen p' = writeopen p"
  using assms
proof (induction n arbitrary: p cs)
  case (Suc n)
  show ?case
  proof (cases "pipe_content p = []")
    case True
    with Suc.prems pipe_empty [of p] show ?thesis by simp
  next
    case False
    then have ne: "nread p \<noteq> nwrite p" using pipe_empty by blast
    obtain c q where g: "pipe_get p = (c, q)" by force
    have q: "pipe_inv q" "pipe_content p = c # pipe_content q" "readopen q = readopen p" "writeopen q = writeopen p"
      using pf.get_inv [OF Suc.prems(1) False] pf.get_content [OF Suc.prems(1) False] g
      by (auto simp: pipe_get_def)
    obtain ds where "piperead_loop n q = (ds, p')" "cs = c # ds"
      using Suc.prems(2) ne g by (auto split: prod.splits)
    with Suc.IH [OF q(1) this(1)] q show ?thesis by simp
  qed
qed simp

lemma piperead_ok:
  assumes "pipe_inv p" and "piperead killed n p = (res, cs, wk, p')"
  shows "pipe_inv p' \<and> cs = take (nat n) (pipe_content p) \<and> pipe_content p' = drop (nat n) (pipe_content p) \<and>
    readopen p' = readopen p \<and> writeopen p' = writeopen p \<and>
    res = (if pipe_content p = [] \<and> writeopen p then if killed then Returned (- 1) else Waiting ''nread''
           else Returned (int (length cs)))"
proof (cases "nread p = nwrite p \<and> writeopen p")
  case True
  then show ?thesis using assms pipe_empty [of p] by (auto simp: piperead_def split: if_splits)
next
  case False
  obtain ds q where l: "piperead_loop (nat n) p = (ds, q)" by force
  with assms(2) False have "cs = ds" "p' = q" "res = Returned (int (length ds))" by (auto simp: piperead_def)
  with piperead_loop_ok [OF assms(1) l] False pipe_empty [of p] show ?thesis by simp
qed

section \<open>Readers and writers\<close>

text \<open>
  Any interleaving of calls on one pipe, with the bytes accepted from writers so far and the bytes
  handed to readers so far.
\<close>

inductive pipe_step :: "pipe \<times> byte list \<times> byte list \<Rightarrow> pipe \<times> byte list \<times> byte list \<Rightarrow> bool" where
  step_write: "pipewrite killed n cs p = (res, rest, wk, p') \<Longrightarrow> cs = acc @ rest \<Longrightarrow>
    pipe_step (p, sent, got) (p', sent @ acc, got)"
| step_read: "piperead killed n p = (res, cs, wk, p') \<Longrightarrow> pipe_step (p, sent, got) (p', sent, got @ cs)"
| step_close: "pipeclose writable p = (p', wk, freed) \<Longrightarrow> \<not> freed \<Longrightarrow> pipe_step (p, sent, got) (p', sent, got)"

definition pipe_fifo :: "pipe \<times> byte list \<times> byte list \<Rightarrow> bool" where
  "pipe_fifo = (\<lambda>(p, sent, got). pipe_inv p \<and> sent = got @ pipe_content p)"

lemma pipe_fifo_step: "pipe_step x y \<Longrightarrow> pipe_fifo x \<Longrightarrow> pipe_fifo y"
proof (induction rule: pipe_step.induct)
  case (step_write killed n cs p res rest wk p' acc sent got)
  then have inv: "pipe_inv p" and sent: "sent = got @ pipe_content p" by (auto simp: pipe_fifo_def)
  define k where "k = min (length cs) (PIPESIZE - length (pipe_content p))"
  from pipewrite_ok [OF inv step_write(1) k_def]
  have w: "pipe_inv p'" "rest = drop k cs" "pipe_content p' = pipe_content p @ take k cs" by auto
  have "acc @ rest = take k cs @ rest"
    using append_take_drop_id [of k cs] unfolding step_write(2) [symmetric] w(2) [symmetric] by (rule sym)
  then have "acc = take k cs" by (simp only: append_same_eq)
  then show ?case using sent w by (simp add: pipe_fifo_def)
next
  case (step_read killed n p res cs wk p' sent got)
  then have inv: "pipe_inv p" and sent: "sent = got @ pipe_content p" by (auto simp: pipe_fifo_def)
  from piperead_ok [OF inv step_read(1)] show ?case by (simp add: pipe_fifo_def sent)
next
  case (step_close writable p p' wk freed sent got)
  then have "pipe_content p' = pipe_content p" "p_data p' = p_data p"
    by (auto simp: pipeclose_def pipe_content_def split: if_splits)
  with step_close show ?case by (simp add: pipe_fifo_def pipe_inv_def)
qed

lemma pipe_fifo_reachable: "pipe_step\<^sup>*\<^sup>* x y \<Longrightarrow> pipe_fifo x \<Longrightarrow> pipe_fifo y"
  by (induction rule: rtranclp_induct) (simp_all add: pipe_fifo_step)

lemma pipeinit_fifo: "length d = PIPESIZE \<Longrightarrow> pipe_fifo (pipeinit d, [], [])"
  by (simp add: pipe_fifo_def pipe_inv_def pipe_content_def pipeinit_def)

section \<open>Properties\<close>

text \<open>C8. A pipe delivers every byte once and in order. After any interleaving of writes, reads and
  closes of one end, starting from a new pipe, what the writers have stored is exactly what the readers
  have got followed by the at most 512 bytes still in the pipe; the 32-bit counters may have wrapped.\<close>

theorem pipe_delivers_in_order:
  assumes "length d = PIPESIZE" and "pipe_step\<^sup>*\<^sup>* (pipeinit d, [], []) (p, sent, got)"
  shows "sent = got @ pipe_content p \<and> length (pipe_content p) \<le> PIPESIZE"
  using pipe_fifo_reachable [OF assms(2) pipeinit_fifo [OF assms(1)]]
  by (simp add: pipe_fifo_def pipe_inv_def)

theorem pipe_delivers_in_order_witness:
  "\<exists>p. pipe_step\<^sup>*\<^sup>* (pipeinit (replicate PIPESIZE 0), [], []) (p, [1, 2, 3], [1]) \<and>
    pipe_content p = [2, 3]"
proof -
  let ?p = "pipeinit (replicate PIPESIZE 0)"
  obtain res rest wk q where w: "pipewrite False 3 [1, 2, 3] ?p = (res, rest, wk, q)" by (rule prod_cases4)
  have inv: "pipe_inv ?p" "pipe_content ?p = []"
    using pipeinit_fifo [of "replicate PIPESIZE 0"] by (auto simp: pipe_fifo_def)
  note Q = pipewrite_ok [OF inv(1) w refl, unfolded inv(2)]
  obtain res' cs wk' r where rd: "piperead False 1 q = (res', cs, wk', r)" by (rule prod_cases4)
  have q: "rest = []" "pipe_content q = [1, 2, 3]" using Q by (simp_all add: PIPESIZE_def)
  then have "cs = [1]" using piperead_ok [OF conjunct1 [OF Q] rd] by simp
  with q(1) have "pipe_step (?p, [], []) (q, [] @ [1, 2, 3], [])" "pipe_step (q, [1, 2, 3], []) (r, [1, 2, 3], [] @ [1])"
    using step_write [OF w, of "[1, 2, 3]" "[]" "[]"] step_read [OF rd, of "[1, 2, 3]" "[]"] by simp_all
  then have s: "pipe_step\<^sup>*\<^sup>* (?p, [], []) (r, [1, 2, 3], [1])" by simp
  then have "pipe_content r = [2, 3]"
    using pipe_delivers_in_order [of "replicate PIPESIZE 0" r "[1, 2, 3]" "[1]"] by simp
  with s show ?thesis by blast
qed

text \<open>C9. What one \<open>pipewrite\<close> does on each branch: it stores as many bytes as the pipe has room for,
  then returns the full count if that was all of them; otherwise it fails if the read end is closed or
  the process was killed, and waits for a reader if not.\<close>

theorem pipewrite_cases:
  assumes "pipe_inv p" and "k = min (length cs) (PIPESIZE - length (pipe_content p))"
  shows "\<exists>wk p'. pipewrite killed n cs p =
      (if k = length cs then Returned n else if \<not> readopen p \<or> killed then Returned (- 1) else Waiting ''nwrite'',
       drop k cs, wk, p') \<and> pipe_inv p' \<and> pipe_content p' = pipe_content p @ take k cs"
proof -
  obtain res rest wk p' where w: "pipewrite killed n cs p = (res, rest, wk, p')" by (rule prod_cases4)
  from pipewrite_ok [OF assms(1) w assms(2)] w show ?thesis by blast
qed

theorem pipewrite_cases_witness:
  "\<exists>wk p'. pipewrite False 2 [7, 8] (pipeinit (replicate PIPESIZE 0)) = (Returned 2, [], wk, p') \<and>
    pipe_inv p' \<and> pipe_content p' = [7, 8]"
proof -
  have "pipe_inv (pipeinit (replicate PIPESIZE 0))" "pipe_content (pipeinit (replicate PIPESIZE 0)) = []"
    using pipeinit_fifo [of "replicate PIPESIZE 0"] by (auto simp: pipe_fifo_def)
  then show ?thesis
    using pipewrite_cases [of "pipeinit (replicate PIPESIZE 0)" 2 "[7, 8]" False 2]
    by (simp add: PIPESIZE_def)
qed

end
