(* ===== verification/Console.thy ===== *)
theory Console
  imports Pipe
begin

text \<open>
  The console driver (\<^verbatim>\<open>console.c\<close>): the CGA text screen with its 16-bit cursor register, the
  serial port as the list of bytes sent, formatted output, the line-edited input buffer, and the
  screen operations that the editor uses. \<open>crt\<close> is the video memory; an index outside it is
  undefined behaviour. A division by the screen width truncates towards zero as in C.
\<close>

definition BACKSPACE :: int where "BACKSPACE = 0x100"
definition INPUT_BUF :: nat where "INPUT_BUF = 128"
definition MAX_ROW :: int where "MAX_ROW = 24"
definition MAX_COL :: int where "MAX_COL = 80"
definition MAX_CHAR :: int where "MAX_CHAR = 24 * 80"
definition CMD_LINE :: int where "CMD_LINE = 24 * 80"
definition CMD_BUF_SZ :: int where "CMD_BUF_SZ = 40"
definition WHITE :: ushort where "WHITE = 0x0f00"
definition L_GREY :: ushort where "L_GREY = 0x0700"
definition WHITE_ON_GREY :: ushort where "WHITE_ON_GREY = 0x8f00"
definition V_READONLY :: int where "V_READONLY = 1"
definition V_INSERT :: int where "V_INSERT = 2"
definition V_CMD :: int where "V_CMD = 3"
definition KEY_UP :: int where "KEY_UP = 0xE2"
definition KEY_DN :: int where "KEY_DN = 0xE3"
definition KEY_LF :: int where "KEY_LF = 0xE4"
definition KEY_RT :: int where "KEY_RT = 0xE5"

definition cdiv :: "int \<Rightarrow> int \<Rightarrow> int" where
  "cdiv a b = (if a < 0 then - ((- a) div b) else a div b)"

definition cmod :: "int \<Rightarrow> int \<Rightarrow> int" where
  "cmod a b = a - b * cdiv a b"

record input =
  in_buf :: "byte list"
  in_r :: uint
  in_w :: uint
  in_e :: uint

record console =
  crt :: "ushort list"
  cursor :: ushort
  precrt :: "ushort list"
  uart :: "byte list"
  panicked :: bool
  buffering :: bool
  con_in :: input
  in_last :: int
  current_line :: int
  woken :: "string list"
  cctx :: uint              \<comment> \<open>the editor's text, with the length and the characters of its line\<close>
  clen :: nat
  cch :: "byte list"

section \<open>The screen\<close>

definition cell :: "int \<Rightarrow> ushort \<Rightarrow> ushort" where
  "cell c attr = (word_of_int c AND 0xff) OR attr"

definition getcch :: "int \<Rightarrow> console \<Rightarrow> ushort outcome" where
  "getcch pos s = (if 0 \<le> pos then aget (crt s) (nat pos) else Undef)"

definition setcch :: "int \<Rightarrow> ushort \<Rightarrow> console \<Rightarrow> console outcome" where
  "setcch pos v s =
     (if 0 \<le> pos then obind (aset (crt s) (nat pos) v) (\<lambda>d. Ok (s\<lparr>crt := d\<rparr>)) else Undef)"

definition getcursor :: "console \<Rightarrow> int" where
  "getcursor s = uint (cursor s)"

definition outcursor :: "int \<Rightarrow> console \<Rightarrow> console" where
  "outcursor pos s = s\<lparr>cursor := word_of_int pos\<rparr>"

text \<open>The two halves of \<open>cgaputc\<close>: storing the character, and scrolling when the last row is reached.\<close>

definition cga_store :: "int \<Rightarrow> int \<Rightarrow> console \<Rightarrow> (int \<times> console) outcome" where
  "cga_store c pos s =
     (if c = 10 then Ok (pos + 80 - cmod pos 80, s)
      else if c = BACKSPACE then Ok (if 0 < pos then pos - 1 else pos, s)
      else obind (setcch pos (cell c 0x0700) s) (\<lambda>s. Ok (pos + 1, s)))"

definition cga_scroll :: "int \<Rightarrow> console \<Rightarrow> (int \<times> console) outcome" where
  "cga_scroll pos s =
     (if 24 \<le> cdiv pos 80 then
        if length (crt s) < 24 * 80 then Undef
        else let d = patch (crt s) 0 (chunk (crt s) 80 (23 * 80)); pos = pos - 80;
                 d = patch d (nat pos) (replicate (nat (24 * 80 - pos)) 0)
             in Ok (pos, s\<lparr>crt := d\<rparr>)
      else Ok (pos, s))"

definition cgaputc :: "int \<Rightarrow> console \<Rightarrow> console outcome" where
  "cgaputc c s =
     obind (cga_store c (getcursor s) s) (\<lambda>(pos, s).
     if pos < 0 \<or> 25 * 80 < pos then Panic ''pos under/overflow''
     else obind (cga_scroll pos s) (\<lambda>(pos, s). setcch pos (cell 32 0x0700) (outcursor pos s)))"

definition uartputc :: "int \<Rightarrow> console \<Rightarrow> console" where
  "uartputc c s = s\<lparr>uart := uart s @ [word_of_int c]\<rparr>"

definition consputc :: "int \<Rightarrow> console \<Rightarrow> console outcome" where
  "consputc c s =
     (if panicked s then Diverge
      else if c = BACKSPACE then
        if \<not> buffering s then cgaputc c s
        else cgaputc c (uartputc 8 (uartputc 32 (uartputc 8 s)))
      else cgaputc c (uartputc c s))"

definition consputs :: "int list \<Rightarrow> console \<Rightarrow> console outcome" where
  "consputs cs s = ofold consputc cs s"

section \<open>Formatted output\<close>

fun digits_loop :: "nat \<Rightarrow> nat \<Rightarrow> uint \<Rightarrow> int list" where
  "digits_loop 0 base x = []"
| "digits_loop (Suc n) base x =
     (let d = unat x mod base; c = (if d < 10 then 48 + int d else 87 + int d)
      in c # (if unat x div base \<noteq> 0 then digits_loop n base (of_nat (unat x div base)) else []))"

definition printint :: "uint \<Rightarrow> nat \<Rightarrow> bool \<Rightarrow> int list" where
  "printint xx base sgnd =
     (let neg = sgnd \<and> sint xx < 0; x = (if neg then - xx else xx);
          buf = digits_loop 32 base x
      in rev (buf @ (if neg then [45] else [])))"

datatype parg = Num uint | Str "byte list option"

definition null_text :: "int list" where
  "null_text = [40, 110, 117, 108, 108, 41]"

fun format :: "byte list \<Rightarrow> parg list \<Rightarrow> int list outcome" where
  "format [] as = Ok []"
| "format [c] as = Ok (if c = 0 \<or> c = 37 then [] else [uint c])"
| "format (c # d # fs) as =
     (if c = 0 then Ok []
      else if c \<noteq> 37 then obind (format (d # fs) as) (\<lambda>r. Ok (uint c # r))
      else if d = 0 then Ok []
      else if d = 100 then (case as of Num n # as \<Rightarrow> obind (format fs as) (\<lambda>r. Ok (printint n 10 True @ r)) | _ \<Rightarrow> Undef)
      else if d = 120 \<or> d = 112 then (case as of Num n # as \<Rightarrow> obind (format fs as) (\<lambda>r. Ok (printint n 16 False @ r)) | _ \<Rightarrow> Undef)
      else if d = 115 then
        (case as of Str t # as \<Rightarrow>
           obind (format fs as) (\<lambda>r. Ok ((case t of None \<Rightarrow> null_text | Some cs \<Rightarrow> map uint (takeWhile (\<lambda>c. c \<noteq> 0) cs)) @ r))
         | _ \<Rightarrow> Undef)
      else if d = 37 then obind (format fs as) (\<lambda>r. Ok (37 # r))
      else obind (format fs as) (\<lambda>r. Ok (37 # uint d # r)))"

definition cprintf :: "byte list option \<Rightarrow> parg list \<Rightarrow> console \<Rightarrow> console outcome" where
  "cprintf fmt as s =
     (case fmt of None \<Rightarrow> Panic ''null fmt''
      | Some f \<Rightarrow> obind (format f as) (\<lambda>cs. consputs cs s))"

section \<open>Input\<close>

definition in_put :: "byte \<Rightarrow> input \<Rightarrow> input" where
  "in_put c i = i\<lparr>in_buf := (in_buf i)[unat (in_e i) mod INPUT_BUF := c], in_e := in_e i + 1\<rparr>"

definition in_get :: "input \<Rightarrow> byte \<times> input" where
  "in_get i = (in_buf i ! (unat (in_r i) mod INPUT_BUF), i\<lparr>in_r := in_r i + 1\<rparr>)"

definition setcursor :: "int \<Rightarrow> console \<Rightarrow> console outcome" where
  "setcursor pos s =
     (let s = outcursor pos s
      in obind (getcch pos s) (\<lambda>ch. setcch pos (if ch = 0 then ch OR WHITE else ch) s))"

text \<open>The loop of Control-U and Control-C: erase back to the last committed character or line end.\<close>

fun killline :: "nat \<Rightarrow> console \<Rightarrow> console outcome" where
  "killline 0 s = Diverge"
| "killline (Suc n) s =
     (let i = con_in s in
      if in_e i \<noteq> in_w i \<and> in_buf i ! (unat (in_e i - 1) mod INPUT_BUF) \<noteq> 10
      then obind (consputc BACKSPACE (s\<lparr>con_in := i\<lparr>in_e := in_e i - 1\<rparr>\<rparr>)) (killline n)
      else Ok s)"

text \<open>Backspace on the command line of the editor.\<close>

definition cmd_shift :: "int \<Rightarrow> console \<Rightarrow> console outcome" where
  "cmd_shift i s = obind (getcch (i + 1) s) (\<lambda>ch. setcch i ((ch AND 0xff) OR WHITE_ON_GREY) s)"

definition cmd_backspace :: "console \<Rightarrow> console outcome" where
  "cmd_backspace s =
     (let pos = getcursor s in
      if CMD_LINE \<le> pos then
        if CMD_LINE < pos then
          obind (ofold cmd_shift [pos..pos + CMD_BUF_SZ - 2] s) (setcursor (pos - 1))
        else obind (setcch pos (cell 32 WHITE_ON_GREY) s) (setcursor CMD_LINE)
      else Ok s)"

text \<open>One round of the loop of \<open>consoleintr\<close>. The flag records that a process listing is due.\<close>

definition consoleintr_char :: "int \<Rightarrow> console \<times> bool \<Rightarrow> (console \<times> bool) outcome" where
  "consoleintr_char c sd =
     (let (s, dump) = sd; i = con_in s; keep = \<lambda>m. obind m (\<lambda>s. Ok (s, dump)) in
      if c = 16 then Ok (s, True)
      else if c = 21 \<or> c = 3 then
        keep (if buffering s then killline (Suc (unat (in_e i - in_w i))) s else Ok s)
      else if c = 8 \<or> c = 0x7f then
        keep (if buffering s then
                if in_e i \<noteq> in_w i then consputc BACKSPACE (s\<lparr>con_in := i\<lparr>in_e := in_e i - 1\<rparr>\<rparr>) else Ok s
              else cmd_backspace s)
      else if c \<noteq> 0 \<and> in_e i - in_r i < of_nat INPUT_BUF then
        let c = (if c = 13 then 10 else c); s = s\<lparr>con_in := in_put (word_of_int c) i\<rparr> in
        keep (obind (if buffering s then obind (consputc c s) (\<lambda>s. Ok (s\<lparr>in_last := c\<rparr>)) else Ok s) (\<lambda>s.
          let i = con_in s in
          if \<not> buffering s \<or> c = 10 \<or> c = 4 \<or> in_e i = in_r i + of_nat INPUT_BUF
          then Ok (s\<lparr>con_in := i\<lparr>in_w := in_e i\<rparr>, woken := ''input.r'' # woken s\<rparr>)
          else Ok s))
      else Ok (s, dump))"

text \<open>The characters that \<open>getc\<close> delivers before it reports that there are no more. The result says
  whether the caller goes on to \<^verbatim>\<open>procdump\<close>.\<close>

definition consoleintr :: "int list \<Rightarrow> console \<Rightarrow> (console \<times> bool) outcome" where
  "consoleintr cs s = obind (ofold consoleintr_char cs (s, False)) (\<lambda>(s, dump). Ok (s, buffering s \<and> dump))"

definition getinput :: "console \<Rightarrow> int" where
  "getinput s = in_last s"

text \<open>The part of \<open>consoleread\<close> between two sleeps: \<open>target\<close> is the size of the request and \<open>n\<close> what is
  still wanted of it. The result has the bytes moved, and what is still wanted when it sleeps.\<close>

fun consoleread :: "bool \<Rightarrow> nat \<Rightarrow> nat \<Rightarrow> input \<Rightarrow> io_result \<times> byte list \<times> nat \<times> input" where
  "consoleread killed target 0 i = (Returned (int target), [], 0, i)"
| "consoleread killed target (Suc n) i =
     (if in_r i = in_w i then
        if killed then (Returned (- 1), [], Suc n, i) else (Waiting ''input.r'', [], Suc n, i)
      else let (c, i') = in_get i in
        if c = 4 then (Returned (int target - int (Suc n)), [], Suc n, if Suc n < target then i else i')
        else if c = 10 then (Returned (int target - int n), [c], n, i')
        else let (res, cs, k, i) = consoleread killed target n i' in (res, c # cs, k, i))"

definition consolewrite :: "byte list \<Rightarrow> console \<Rightarrow> (int \<times> console) outcome" where
  "consolewrite cs s = obind (consputs (map uint cs) s) (\<lambda>s. Ok (int (length cs), s))"

section \<open>Screen operations for the editor\<close>

definition savescr :: "console \<Rightarrow> console outcome" where
  "savescr s = (if length (crt s) < 24 * 80 then Undef else Ok (s\<lparr>precrt := take (24 * 80) (crt s)\<rparr>))"

definition restorescr :: "console \<Rightarrow> console outcome" where
  "restorescr s =
     (if length (crt s) < 24 * 80 then Undef else Ok (s\<lparr>crt := patch (crt s) 0 (precrt s)\<rparr>))"

definition shift_right :: "int \<Rightarrow> console \<Rightarrow> console outcome" where
  "shift_right i s = obind (getcch (i - 1) s) (\<lambda>ch. setcch i ch s)"

definition pushword :: "int \<Rightarrow> int \<Rightarrow> console \<Rightarrow> (ushort \<times> console) outcome" where
  "pushword pos line s =
     (let i = (line + 1) * MAX_COL - 1 in
      obind (ofold shift_right (rev [pos + 1..i]) s) (\<lambda>s.
      obind (getcch (min i pos) s) (\<lambda>ch. Ok (ch, s))))"

definition putchar :: "int \<Rightarrow> int \<Rightarrow> console \<Rightarrow> console outcome" where
  "putchar pos c s = setcch pos (cell c WHITE) s"

definition scrputc :: "int \<Rightarrow> int \<Rightarrow> console \<Rightarrow> console outcome" where
  "scrputc pos c s =
     obind (setcursor pos s) (\<lambda>s.
     let ch = cell c (if CMD_LINE \<le> pos then WHITE_ON_GREY else WHITE) in
     obind (if c = 10 then Ok (pos + 80 - cmod pos 80, s)
            else if c = BACKSPACE then Ok (if 0 < pos then pos - 1 else pos, s)
            else obind (setcch pos ch s) (\<lambda>s. Ok (pos + 1, s))) (\<lambda>(pos, s).
     setcch pos (32 OR (if CMD_LINE \<le> pos then WHITE_ON_GREY else L_GREY)) (outcursor pos s)))"

definition curmove :: "int \<Rightarrow> int \<Rightarrow> console \<Rightarrow> console outcome" where
  "curmove move mode s =
     (let pos = getcursor s; ch = \<lambda>p. obind (getcch p s) (\<lambda>v. Ok (v AND 0xff)) in
      if move = KEY_LF then
        if mode = V_CMD then if CMD_LINE < pos then setcursor (pos - 1) s else Ok s
        else if 0 < pos then setcursor (pos - 1) s else Ok s
      else if move = KEY_RT then
        if mode = V_CMD then
          if pos < MAX_CHAR + CMD_BUF_SZ
          then obind (ch (pos + 1)) (\<lambda>v. if v \<noteq> 0 then setcursor (pos + 1) s else Ok s)
          else Ok s
        else if pos < MAX_CHAR then
          obind (ch (pos + 1)) (\<lambda>v. if v \<noteq> 0 then setcursor (pos + 1) s
            else obind (ch pos) (\<lambda>u. if u = 0 then Ok s else setcursor (pos + 1) s))
        else Ok s
      else if move = KEY_DN then
        if mode \<noteq> V_CMD \<and> cdiv pos 80 < MAX_ROW
        then obind (ch (pos + MAX_COL)) (\<lambda>v. if v \<noteq> 0 then setcursor (pos + MAX_COL) s else Ok s)
        else Ok s
      else if move = KEY_UP then
        if mode \<noteq> V_CMD \<and> 0 < cdiv pos 80 then
          if pos - MAX_COL \<noteq> 0
          then obind (ch (pos - MAX_COL)) (\<lambda>v. setcursor (if v \<noteq> 0 then 1 else 0) s)
          else setcursor 0 s
        else Ok s
      else Ok s)"

definition clrscr :: "console \<Rightarrow> console outcome" where
  "clrscr s =
     obind (ofold (\<lambda>i. setcch (int i) (cell 0 L_GREY)) [0..<24 * 80] s) (\<lambda>s.
     obind (ofold (\<lambda>i. setcch (MAX_CHAR + int i) (cell 0 WHITE_ON_GREY)) [0..<80] s) (\<lambda>s.
     let s = outcursor 0 s in
     obind (getcch 0 s) (\<lambda>ch. setcch 0 (ch OR WHITE) s)))"

definition setconsbuf :: "bool \<Rightarrow> console \<Rightarrow> console" where
  "setconsbuf isbuf s = s\<lparr>buffering := isbuf\<rparr>"

definition setline :: "int \<Rightarrow> console \<Rightarrow> console" where
  "setline line s = s\<lparr>current_line := line\<rparr>"

definition getline :: "console \<Rightarrow> int" where
  "getline s = current_line s"

definition deletech :: "int \<Rightarrow> int \<Rightarrow> console \<Rightarrow> console outcome" where
  "deletech currentline linecount s =
     (let pos = getcursor s; p = cmod pos 80 + (currentline - 1) * MAX_COL in
      obind (ofold (\<lambda>i s. obind (getcch (i + 1) s) (\<lambda>ch. setcch i ch s))
               [p..MAX_COL - p + MAX_COL * linecount - 2] s) (setcursor pos))"

section \<open>Output never runs off the screen\<close>

definition screen_ok :: "console \<Rightarrow> bool" where
  "screen_ok s \<longleftrightarrow> 25 * 80 \<le> length (crt s) \<and> uint (cursor s) < 24 * 80 \<and> \<not> panicked s"

definition off_screen :: "console \<Rightarrow> byte list \<times> bool \<times> bool \<times> input \<times> int \<times> string list" where
  "off_screen s = (uart s, panicked s, buffering s, con_in s, in_last s, woken s)"

lemma cmod_pos: "0 \<le> pos \<Longrightarrow> 0 < b \<Longrightarrow> cmod pos b = pos mod b"
  by (simp add: cmod_def cdiv_def minus_mult_div_eq_mod)

lemma off_screen_simps [simp]:
  "off_screen (s\<lparr>crt := d\<rparr>) = off_screen s" "off_screen (outcursor pos s) = off_screen s"
  by (simp_all add: off_screen_def outcursor_def)

lemma setcch_ok:
  "0 \<le> pos \<Longrightarrow> pos < int (length (crt s)) \<Longrightarrow> setcch pos v s = Ok (s\<lparr>crt := (crt s)[nat pos := v]\<rparr>)"
  by (simp add: setcch_def aset_def)

lemma cga_store_ok:
  assumes "0 \<le> pos" and "pos < 24 * 80" and "25 * 80 \<le> length (crt s)"
  shows "\<exists>p t. cga_store c pos s = Ok (p, t) \<and> 0 \<le> p \<and> p \<le> 24 * 80 \<and> off_screen t = off_screen s \<and>
      length (crt t) = length (crt s)"
proof -
  have "pos div 80 \<le> 23" using assms(2) by simp
  then have "pos + 80 - pos mod 80 \<le> 24 * 80" using minus_mod_eq_mult_div [of pos 80] by linarith
  moreover have "pos mod 80 < 80" "0 \<le> pos mod 80" by simp_all
  ultimately show ?thesis
    using assms by (cases "c = 10"; cases "c = BACKSPACE") (simp_all add: setcch_ok cmod_pos cga_store_def)
qed

lemma cga_scroll_ok:
  assumes "0 \<le> p" and "p \<le> 24 * 80" and "25 * 80 \<le> length (crt s)"
  shows "\<exists>q t. cga_scroll p s = Ok (q, t) \<and> 0 \<le> q \<and> q < 24 * 80 \<and> off_screen t = off_screen s \<and>
      length (crt t) = length (crt s)"
proof -
  have "cdiv p 80 = p div 80" using assms by (simp add: cdiv_def)
  then have "24 \<le> cdiv p 80 \<longleftrightarrow> 24 * 80 \<le> p" by linarith
  moreover have "length (chunk (crt s) 80 (23 * 80)) = 23 * 80" using assms(3) by (simp add: chunk_def)
  ultimately show ?thesis
    using assms by (cases "24 \<le> cdiv p 80") (simp_all add: Let_def cga_scroll_def)
qed

lemma cgaputc_ok:
  assumes "screen_ok s"
  shows "\<exists>s'. cgaputc c s = Ok s' \<and> screen_ok s' \<and> off_screen s' = off_screen s"
proof -
  have pos: "0 \<le> getcursor s" "getcursor s < 24 * 80" and len: "25 * 80 \<le> length (crt s)"
    using assms by (simp_all add: screen_ok_def getcursor_def)
  from cga_store_ok [OF this, of c] obtain p t where
    t: "cga_store c (getcursor s) s = Ok (p, t)" "0 \<le> p" "p \<le> 24 * 80" "off_screen t = off_screen s"
      "length (crt t) = length (crt s)" by blast
  with len cga_scroll_ok [of p t] obtain q u where
    u: "cga_scroll p t = Ok (q, u)" "0 \<le> q" "q < 24 * 80" "off_screen u = off_screen t"
      "length (crt u) = length (crt t)" by auto
  have "uint (word_of_int q :: ushort) = q" using u by (simp add: uint_word_of_int)
  then show ?thesis
    using t u len assms by (auto simp: cgaputc_def setcch_ok outcursor_def screen_ok_def off_screen_def)
qed

lemma consputc_ok:
  assumes "screen_ok s"
  shows "\<exists>s'. consputc c s = Ok s' \<and> screen_ok s' \<and> con_in s' = con_in s \<and> buffering s' = buffering s \<and>
    woken s' = woken s \<and> (c \<noteq> BACKSPACE \<longrightarrow> uart s' = uart s @ [word_of_int c])"
proof -
  have u: "screen_ok (uartputc x t) = screen_ok t" for x t by (simp add: screen_ok_def uartputc_def)
  have np: "\<not> panicked s" using assms by (simp add: screen_ok_def)
  let ?t = "if c = BACKSPACE then if \<not> buffering s then s else uartputc 8 (uartputc 32 (uartputc 8 s)) else uartputc c s"
  have "screen_ok ?t" using assms u by simp
  from cgaputc_ok [OF this, of c] obtain s' where
    s': "cgaputc c ?t = Ok s'" "screen_ok s'" "off_screen s' = off_screen ?t" by blast
  have "consputc c s = cgaputc c ?t" using np by (simp add: consputc_def)
  with s' show ?thesis
    by (auto simp: off_screen_def uartputc_def split: if_splits)
qed

lemma consputs_ok:
  assumes "screen_ok s" and "BACKSPACE \<notin> set cs"
  shows "\<exists>s'. consputs cs s = Ok s' \<and> screen_ok s' \<and> con_in s' = con_in s \<and> buffering s' = buffering s \<and>
    uart s' = uart s @ map word_of_int cs"
  using assms
proof (induction cs arbitrary: s)
  case (Cons c cs)
  from consputc_ok [OF Cons.prems(1), of c] Cons.prems(2) obtain t where
    t: "consputc c s = Ok t" "screen_ok t" "con_in t = con_in s" "buffering t = buffering s"
      "uart t = uart s @ [word_of_int c]" by auto
  from Cons.IH [OF t(2)] Cons.prems(2) t show ?case by (auto simp: consputs_def)
qed (simp add: consputs_def)

section \<open>The input buffer is a line editor\<close>

text \<open>The ring between the read and the write index holds the committed characters, the ring between the
  write and the edit index the line being edited.\<close>

definition committed :: "input \<Rightarrow> byte list" where
  "committed i = ring_content INPUT_BUF (in_buf i) (in_r i) (in_w i)"

definition pending :: "input \<Rightarrow> byte list" where
  "pending i = ring_content INPUT_BUF (in_buf i) (in_w i) (in_e i)"

definition input_ok :: "input \<Rightarrow> bool" where
  "input_ok i \<longleftrightarrow> length (in_buf i) = INPUT_BUF \<and> length (committed i) + length (pending i) \<le> INPUT_BUF"

lemma input_size: "INPUT_BUF dvd 2 ^ 32" "INPUT_BUF \<le> 2 ^ 31" "0 < INPUT_BUF"
  by (simp_all add: INPUT_BUF_def)

lemma unat_chain:
  assumes "unat (w - r :: uint) + unat (e - w) \<le> N" and "N \<le> 2 ^ 31"
  shows "unat (e - r) = unat (w - r) + unat (e - w)"
proof -
  have "e - r = (w - r) + (e - w)" by simp
  then show ?thesis using assms by (simp only: unat_word_ariths) simp
qed

lemma ring_content_split:
  assumes "unat (w - r) + unat (e - w) \<le> N" and "N \<le> 2 ^ 31"
  shows "ring_content N buf r e = ring_content N buf r w @ ring_content N buf w e"
proof (rule nth_equalityI)
  show "length (ring_content N buf r e) = length (ring_content N buf r w @ ring_content N buf w e)"
    using unat_chain [OF assms] by simp
  fix k
  assume "k < length (ring_content N buf r e)"
  then have k: "k < unat (e - r)" by simp
  show "ring_content N buf r e ! k = (ring_content N buf r w @ ring_content N buf w e) ! k"
  proof (cases "k < unat (w - r)")
    case True
    then show ?thesis using k by (simp add: ring_content_def nth_append)
  next
    case False
    then have "of_nat k = (w - r) + of_nat (k - unat (w - r))"
      by (simp add: of_nat_diff)
    then have "r + of_nat k = w + of_nat (k - unat (w - r))" by simp
    then show ?thesis using False k unat_chain [OF assms] by (simp add: ring_content_def nth_append add.commute)
  qed
qed

lemma ring_content_unput:
  assumes "e \<noteq> w"
  shows "ring_content N buf w e = ring_content N buf w (e - 1) @ [buf ! (unat (e - 1) mod N)]"
proof -
  have "e - w \<noteq> 0" using assms by simp
  then have n: "unat (e - w) = Suc (unat (e - 1 - w))"
    using unat_minus_one [of "e - w"] by (simp add: algebra_simps unat_gt_0)
  have "w + of_nat (unat (e - 1 - w)) = e - 1" by simp
  then show ?thesis unfolding ring_content_def n by simp
qed

lemma in_put_ok:
  assumes "input_ok i" and "length (committed i) + length (pending i) < INPUT_BUF"
  shows "committed (in_put c i) = committed i" and "pending (in_put c i) = pending i @ [c]"
    and "input_ok (in_put c i)"
proof -
  let ?N = INPUT_BUF and ?b = "(in_buf i)[unat (in_e i) mod INPUT_BUF := c]"
  have len: "length (in_buf i) = ?N" using assms(1) by (simp add: input_ok_def)
  have un: "unat (in_w i - in_r i) + unat (in_e i - in_w i) < ?N"
    using assms(2) by (simp add: committed_def pending_def)
  note chain = unat_chain [OF less_imp_le [OF un] input_size(2)]
  have p: "ring_content ?N ?b (in_w i) (in_e i + 1) = ring_content ?N (in_buf i) (in_w i) (in_e i) @ [c]"
    using un by (intro ring_content_put [OF input_size(1,2) len]) simp
  then show pend: "pending (in_put c i) = pending i @ [c]" by (simp add: pending_def in_put_def)
  have "ring_content ?N ?b (in_r i) (in_e i + 1) = ring_content ?N (in_buf i) (in_r i) (in_e i) @ [c]"
    using un chain by (intro ring_content_put [OF input_size(1,2) len]) simp
  moreover have "unat (in_w i - in_r i) + unat (in_e i + 1 - in_w i) \<le> ?N"
    using un unat_Suc_counter [of "in_e i" "in_w i" ?N] input_size(2) by simp
  from ring_content_split [OF this input_size(2), of ?b]
  have "ring_content ?N ?b (in_r i) (in_e i + 1) =
      ring_content ?N ?b (in_r i) (in_w i) @ ring_content ?N ?b (in_w i) (in_e i + 1)" .
  ultimately show com: "committed (in_put c i) = committed i"
    using ring_content_split [OF less_imp_le [OF un] input_size(2), of "in_buf i"] p
    by (simp add: committed_def in_put_def append_eq_append_conv)
  show "input_ok (in_put c i)"
    using assms pend com len by (simp add: input_ok_def) (simp add: in_put_def)
qed

lemma in_unput_ok:
  assumes "input_ok i" and "in_e i \<noteq> in_w i" and "j = i\<lparr>in_e := in_e i - 1\<rparr>"
  shows "committed j = committed i" and "pending i = pending j @ [in_buf i ! (unat (in_e i - 1) mod INPUT_BUF)]"
    and "input_ok j"
proof -
  show c: "committed j = committed i" by (simp add: committed_def assms(3))
  show p: "pending i = pending j @ [in_buf i ! (unat (in_e i - 1) mod INPUT_BUF)]"
    using ring_content_unput [OF assms(2)] by (simp add: pending_def assms(3))
  from arg_cong [OF p, of length] c show "input_ok j" using assms(1)
    by (simp add: input_ok_def) (simp add: assms(3))
qed

lemma commit_ok:
  assumes "input_ok i" and "j = i\<lparr>in_w := in_e i\<rparr>"
  shows "committed j = committed i @ pending i" and "pending j = []" and "input_ok j"
proof -
  have "unat (in_w i - in_r i) + unat (in_e i - in_w i) \<le> INPUT_BUF"
    using assms(1) by (simp add: input_ok_def committed_def pending_def)
  from ring_content_split [OF this input_size(2), of "in_buf i"]
  show c: "committed j = committed i @ pending i" by (simp add: committed_def pending_def assms(2))
  show p: "pending j = []" by (simp add: pending_def assms(2))
  from arg_cong [OF c, of length] p show "input_ok j" using assms(1)
    by (simp add: input_ok_def) (simp add: assms(2))
qed

lemma in_get_ok:
  assumes "input_ok i" and "in_r i \<noteq> in_w i" and "in_get i = (c, j)"
  shows "committed i = c # committed j" and "pending j = pending i" and "input_ok j"
proof -
  show c: "committed i = c # committed j"
    using ring_content_get [of "in_w i" "in_r i"] assms(2,3) by (auto simp: committed_def in_get_def)
  show p: "pending j = pending i" using assms(3) by (auto simp: pending_def in_get_def)
  have "length (in_buf j) = length (in_buf i)" using assms(3) by (auto simp: in_get_def)
  with c p assms(1) show "input_ok j" by (simp add: input_ok_def)
qed

lemma pending_empty: "pending i = [] \<longleftrightarrow> in_e i = in_w i"
proof -
  have "length (pending i) = unat (in_e i - in_w i)" by (simp add: pending_def)
  then have "pending i = [] \<longleftrightarrow> unat (in_e i - in_w i) = 0" by (metis length_0_conv)
  then show ?thesis by (simp add: unat_eq_zero)
qed

lemma input_full: "input_ok i \<Longrightarrow> unat (in_e i - in_r i) = length (committed i) + length (pending i)"
  using unat_chain [OF _ input_size(2), of "in_w i" "in_r i" "in_e i"]
  by (simp add: input_ok_def committed_def pending_def)

text \<open>What a key does to the committed text and to the edited line.\<close>

definition kill_word :: "byte list \<Rightarrow> byte list" where
  "kill_word p = rev (dropWhile (\<lambda>c. c \<noteq> 10) (rev p))"

definition edit_key :: "int \<Rightarrow> byte list \<times> byte list \<Rightarrow> byte list \<times> byte list" where
  "edit_key c cp =
     (let (com, pend) = cp; d = word_of_int (if c = 13 then 10 else c) in
      if c = 16 then (com, pend)
      else if c = 21 \<or> c = 3 then (com, kill_word pend)
      else if c = 8 \<or> c = 127 then (com, butlast pend)
      else if c = 0 \<or> INPUT_BUF \<le> length com + length pend then (com, pend)
      else if c = 13 \<or> c = 10 \<or> c = 4 \<or> length com + length pend + 1 = INPUT_BUF then (com @ pend @ [d], [])
      else (com, pend @ [d]))"

definition cons_ok :: "console \<Rightarrow> bool" where
  "cons_ok s \<longleftrightarrow> screen_ok s \<and> input_ok (con_in s) \<and> buffering s"

definition cons_text :: "console \<Rightarrow> byte list \<times> byte list" where
  "cons_text s = (committed (con_in s), pending (con_in s))"

lemma consputc_cons:
  assumes "screen_ok s" and "input_ok (con_in s)" and "buffering s"
  shows "\<exists>s'. consputc c s = Ok s' \<and> cons_ok s' \<and> con_in s' = con_in s"
  using consputc_ok [OF assms(1), of c] assms(2,3) by (auto simp: cons_ok_def)

lemma screen_ok_in [simp]: "screen_ok (s\<lparr>con_in := i\<rparr>) = screen_ok s"
  by (simp add: screen_ok_def)

lemma erase_ok:
  assumes "cons_ok s" and "in_e (con_in s) \<noteq> in_w (con_in s)"
  shows "\<exists>s'. consputc BACKSPACE (s\<lparr>con_in := (con_in s)\<lparr>in_e := in_e (con_in s) - 1\<rparr>\<rparr>) = Ok s' \<and> cons_ok s' \<and>
    con_in s' = (con_in s)\<lparr>in_e := in_e (con_in s) - 1\<rparr>"
  using consputc_cons [of "s\<lparr>con_in := (con_in s)\<lparr>in_e := in_e (con_in s) - 1\<rparr>\<rparr>" BACKSPACE]
    in_unput_ok(3) [OF _ assms(2) refl] assms(1) by (auto simp: cons_ok_def)

lemma killline_ok:
  assumes "cons_ok s" and "length (pending (con_in s)) < n"
  shows "\<exists>s'. killline n s = Ok s' \<and> cons_ok s' \<and> committed (con_in s') = committed (con_in s) \<and>
    pending (con_in s') = kill_word (pending (con_in s))"
  using assms
proof (induction n arbitrary: s)
  case (Suc n)
  let ?i = "con_in s" and ?c = "in_buf (con_in s) ! (unat (in_e (con_in s) - 1) mod INPUT_BUF)"
  have iok: "input_ok ?i" using Suc.prems(1) by (simp add: cons_ok_def)
  show ?case
  proof (cases "in_e ?i = in_w ?i")
    case True
    then have "pending ?i = []" by (simp add: pending_empty)
    then show ?thesis using True Suc.prems(1) by (simp add: kill_word_def)
  next
    case False
    note un = in_unput_ok [OF iok False refl]
    show ?thesis
    proof (cases "?c = 10")
      case True
      then have "kill_word (pending ?i) = pending ?i" using un(2) by (simp add: kill_word_def)
      then show ?thesis using True Suc.prems(1) by simp
    next
      case False': False
      from erase_ok [OF Suc.prems(1) False] obtain t where
        t: "consputc BACKSPACE (s\<lparr>con_in := ?i\<lparr>in_e := in_e ?i - 1\<rparr>\<rparr>) = Ok t" "cons_ok t"
          "con_in t = ?i\<lparr>in_e := in_e ?i - 1\<rparr>" by blast
      have "length (pending (con_in t)) < n" using Suc.prems(2) arg_cong [OF un(2), of length] t(3) by simp
      from Suc.IH [OF t(2) this] obtain s' where
        s': "killline n t = Ok s'" "cons_ok s'" "committed (con_in s') = committed (con_in t)"
          "pending (con_in s') = kill_word (pending (con_in t))" by blast
      have "kill_word (pending ?i) = kill_word (pending (con_in t))"
        unfolding un(2) t(3) using False' by (simp add: kill_word_def)
      then show ?thesis using s' t un(1) False False' by simp
    qed
  qed
qed simp

lemma type_key_ok:
  assumes s: "cons_ok s" and c: "c \<noteq> 0" "c \<noteq> 16" "c \<noteq> 21" "c \<noteq> 3" "c \<noteq> 8" "c \<noteq> 127"
    and room: "length (committed (con_in s)) + length (pending (con_in s)) < INPUT_BUF"
  shows "\<exists>s'. consoleintr_char c (s, dump) = Ok (s', dump) \<and> cons_ok s' \<and> cons_text s' = edit_key c (cons_text s)"
proof -
  let ?i = "con_in s"
  define d where "d = (if c = 13 then 10 else c)"
  define j where "j = in_put (word_of_int d) ?i"
  have iok: "input_ok ?i" and scr: "screen_ok s" and buf: "buffering s" using s by (simp_all add: cons_ok_def)
  note put = in_put_ok [OF iok room, of "word_of_int d", folded j_def]
  have "unat (of_nat INPUT_BUF :: uint) = INPUT_BUF" by (simp add: INPUT_BUF_def)
  then have lt: "in_e ?i - in_r ?i < of_nat INPUT_BUF" using input_full [OF iok] room by (simp add: word_less_nat_alt)
  have "screen_ok (s\<lparr>con_in := j\<rparr>)" "input_ok (con_in (s\<lparr>con_in := j\<rparr>))" "buffering (s\<lparr>con_in := j\<rparr>)"
    using scr put(3) buf by simp_all
  from consputc_cons [OF this, of d] obtain t where
    t: "consputc d (s\<lparr>con_in := j\<rparr>) = Ok t" "cons_ok t" "con_in t = j" by auto
  let ?t = "t\<lparr>in_last := d\<rparr>"
  have full: "in_e j = in_r j + of_nat INPUT_BUF \<longleftrightarrow> length (committed ?i) + length (pending ?i) + 1 = INPUT_BUF"
  proof -
    have "in_e j = in_r j + of_nat INPUT_BUF \<longleftrightarrow> in_e j - in_r j = of_nat INPUT_BUF" by (auto simp: algebra_simps)
    also have "\<dots> \<longleftrightarrow> unat (in_e j - in_r j) = INPUT_BUF"
      using \<open>unat (of_nat INPUT_BUF :: uint) = INPUT_BUF\<close> by (metis word_unat_eq_iff)
    finally show ?thesis using input_full [OF put(3)] put(1,2) by simp
  qed
  let ?commit = "d = 10 \<or> d = 4 \<or> in_e j = in_r j + of_nat INPUT_BUF"
  let ?s' = "if ?commit then ?t\<lparr>con_in := j\<lparr>in_w := in_e j\<rparr>, woken := ''input.r'' # woken ?t\<rparr> else ?t"
  have "consoleintr_char c (s, dump) = Ok (?s', dump)"
    using c lt buf t by (simp add: consoleintr_char_def Let_def d_def [symmetric] j_def [symmetric] cons_ok_def)
  moreover note cm = commit_ok [OF put(3) refl]
  have "cons_ok ?s'" using t cm(3) by (simp add: cons_ok_def screen_ok_def)
  moreover have "cons_text ?s' = edit_key c (cons_text s)"
    using c room full put cm(1,2) t(3) by (auto simp: cons_text_def edit_key_def d_def)
  ultimately show ?thesis by blast
qed

lemma consoleintr_char_ok:
  assumes "cons_ok s"
  shows "\<exists>s'. consoleintr_char c (s, dump) = Ok (s', dump \<or> c = 16) \<and> cons_ok s' \<and>
    cons_text s' = edit_key c (cons_text s)"
proof -
  let ?i = "con_in s"
  have iok: "input_ok ?i" and buf: "buffering s" using assms by (simp_all add: cons_ok_def)
  have sz: "unat (of_nat INPUT_BUF :: uint) = INPUT_BUF" by (simp add: INPUT_BUF_def)
  consider "c = 16" | "c = 21 \<or> c = 3" | "c = 8 \<or> c = 127"
    | "c \<notin> {16, 21, 3, 8, 127}" "c = 0 \<or> INPUT_BUF \<le> length (committed ?i) + length (pending ?i)"
    | "c \<notin> {0, 16, 21, 3, 8, 127}" "length (committed ?i) + length (pending ?i) < INPUT_BUF" by fastforce
  then show ?thesis
  proof cases
    case 1
    then show ?thesis using assms by (simp add: consoleintr_char_def edit_key_def cons_text_def)
  next
    case 2
    have "length (pending ?i) < Suc (unat (in_e ?i - in_w ?i))" by (simp add: pending_def)
    from killline_ok [OF assms this] show ?thesis using 2 buf
      by (auto simp: consoleintr_char_def edit_key_def cons_text_def)
  next
    case 3
    show ?thesis
    proof (cases "in_e ?i = in_w ?i")
      case True
      then show ?thesis using 3 assms buf pending_empty [of ?i]
        by (auto simp: consoleintr_char_def edit_key_def cons_text_def)
    next
      case False
      from erase_ok [OF assms False] in_unput_ok [OF iok False refl] show ?thesis using 3 buf False
        by (auto simp: consoleintr_char_def edit_key_def cons_text_def)
    qed
  next
    case 4
    then have "c = 0 \<or> \<not> in_e ?i - in_r ?i < of_nat INPUT_BUF"
      using input_full [OF iok] sz by (auto simp: word_less_nat_alt)
    with 4 show ?thesis using assms by (auto simp: consoleintr_char_def edit_key_def cons_text_def)
  next
    case 5
    then show ?thesis using type_key_ok [OF assms, of c dump] by auto
  qed
qed

lemma consoleintr_chars_ok:
  assumes "cons_ok s"
  shows "\<exists>s'. ofold consoleintr_char cs (s, dump) = Ok (s', dump \<or> 16 \<in> set cs) \<and> cons_ok s' \<and>
    cons_text s' = fold edit_key cs (cons_text s)"
  using assms
proof (induction cs arbitrary: s dump)
  case (Cons c cs)
  from consoleintr_char_ok [OF Cons.prems, of c dump] obtain t where
    t: "consoleintr_char c (s, dump) = Ok (t, dump \<or> c = 16)" "cons_ok t" "cons_text t = edit_key c (cons_text s)" by blast
  from Cons.IH [OF t(2), of "dump \<or> c = 16"] t show ?case by (auto simp: disj_assoc)
qed simp

text \<open>Reading: the committed text is delivered in order, up to the request, a line end or an end mark.\<close>

lemma consoleread_ok:
  assumes "input_ok i" and "committed i = cs @ 10 # rest" and "4 \<notin> set cs" and "10 \<notin> set cs" and "length cs < n"
  shows "\<exists>i'. consoleread killed target n i = (Returned (int target - int n + int (length cs) + 1), cs @ [10], n - length cs - 1, i') \<and>
    committed i' = rest \<and> pending i' = pending i \<and> input_ok i'"
  using assms
proof (induction cs arbitrary: n i)
  case Nil
  then obtain k where n: "n = Suc k" by (cases n) auto
  obtain c j where g: "in_get i = (c, j)" by force
  have "committed i \<noteq> []" using Nil.prems by simp
  then have ne: "in_r i \<noteq> in_w i" by (auto simp: committed_def)
  note get = in_get_ok [OF Nil.prems(1) ne g]
  have "c = 10" "committed j = rest" using get(1) Nil.prems by auto
  then show ?case using n g ne get(2,3) by simp
next
  case (Cons b cs)
  then obtain k where n: "n = Suc k" "length cs < k" by (cases n) auto
  obtain c j where g: "in_get i = (c, j)" by force
  have "committed i \<noteq> []" using Cons.prems by simp
  then have ne: "in_r i \<noteq> in_w i" by (auto simp: committed_def)
  note get = in_get_ok [OF Cons.prems(1) ne g]
  have c: "c = b" "c \<noteq> 4" "c \<noteq> 10" "committed j = cs @ 10 # rest" using get(1) Cons.prems by auto
  from Cons.IH [OF get(3) c(4)] Cons.prems n(2) obtain i' where
    "consoleread killed target k j = (Returned (int target - int k + int (length cs) + 1), cs @ [10], k - length cs - 1, i')"
    "committed i' = rest" "pending i' = pending j" "input_ok i'" by auto
  then show ?case using n g ne get(2) c by simp
qed

section \<open>Properties\<close>


definition sample_console :: console where
  "sample_console = \<lparr>crt = replicate 2000 0, cursor = 1915, precrt = replicate 1920 0, uart = [], panicked = False,
     buffering = True, con_in = \<lparr>in_buf = replicate 128 0, in_r = 4294967294, in_w = 4294967294, in_e = 4294967294\<rparr>,
     in_last = 0, current_line = 1, woken = [], cctx = 0, clen = 0, cch = replicate 80 0\<rparr>"

lemma sample_console_ok: "screen_ok sample_console" "cons_ok sample_console" "cons_text sample_console = ([], [])"
  by (simp_all add: screen_ok_def cons_ok_def cons_text_def input_ok_def committed_def pending_def sample_console_def INPUT_BUF_def)


text \<open>C13. The interrupt handler implements a line editor. In buffering mode, \<open>consoleintr\<close> returns for
  every sequence of keys, and the committed text and the line being edited change as the abstract
  editor \<open>edit_key\<close> changes them: a key is appended, erase removes the last character of the line,
  kill removes the line, a line end or a full buffer commits the line, and keys that find the
  buffer full are dropped. The indices may wrap around.\<close>

theorem console_line_editor:
  assumes "cons_ok s"
  shows "\<exists>s'. consoleintr cs s = Ok (s', 16 \<in> set cs) \<and> cons_ok s' \<and> cons_text s' = fold edit_key cs (cons_text s)"
  using consoleintr_chars_ok [OF assms, of cs False] by (auto simp: consoleintr_def cons_ok_def)

theorem console_line_editor_witness:
  "\<exists>s'. consoleintr [104, 105, 8, 13, 120] sample_console = Ok (s', False) \<and> cons_text s' = ([104, 10], [120])"
  using console_line_editor [OF sample_console_ok(2), of "[104, 105, 8, 13, 120]"]
  by (auto simp: sample_console_ok(3) edit_key_def INPUT_BUF_def)

text \<open>C15. Reading a line. If the committed text begins with a line that fits the request and has no end mark,
  \<open>consoleread\<close> returns that line with its line end, and leaves the rest committed.\<close>

theorem consoleread_line:
  assumes "input_ok i" and "committed i = cs @ 10 # rest" and "4 \<notin> set cs" and "10 \<notin> set cs" and "length cs < n"
  shows "\<exists>i'. consoleread killed n n i = (Returned (int (length cs) + 1), cs @ [10], n - length cs - 1, i') \<and>
    committed i' = rest \<and> pending i' = pending i \<and> input_ok i'"
  using consoleread_ok [OF assms, of killed n] by simp

theorem consoleread_line_witness:
  "\<exists>i i'. input_ok i \<and> committed i = [104, 10, 120] \<and>
    consoleread False 80 80 i = (Returned 2, [104, 10], 78, i') \<and> committed i' = [120]"
proof -
  let ?i = "\<lparr>in_buf = [104, 10, 120] @ replicate 125 0, in_r = 0, in_w = 3, in_e = 3\<rparr>"
  have c: "committed ?i = [104] @ 10 # [120]" by (simp add: committed_def ring_content_def INPUT_BUF_def upt_rec)
  moreover have i: "input_ok ?i" unfolding input_ok_def c by (simp add: INPUT_BUF_def pending_def)
  ultimately show ?thesis using consoleread_line [OF i c, of 80 False] by fastforce
qed

end
