(* ===== verification/Cstring.thy ===== *)
theory Cstring
  imports Xv6_Prelude
begin

text \<open>
  The memory and string routines of the kernel (\<^verbatim>\<open>string.c\<close>) and of the user library
  (\<^verbatim>\<open>ulib.c\<close>). Memory is a function from 32-bit addresses to bytes and pointers are addresses, so
  overlapping buffers are in scope. A loop that runs to the end of a string is a partial function:
  on a memory without a terminator it does not return. A counted loop is recursion on its count.
\<close>

type_synonym mem = "uint \<Rightarrow> byte"

section \<open>Filling and moving memory\<close>

fun stosb :: "nat \<Rightarrow> uint \<Rightarrow> byte \<Rightarrow> mem \<Rightarrow> mem" where
  "stosb 0 a c m = m"
| "stosb (Suc n) a c m = stosb n (a + 1) c (m(a := c))"

definition store32 :: "uint \<Rightarrow> uint \<Rightarrow> mem \<Rightarrow> mem" where
  "store32 a w m = m(a := ucast w, a + 1 := ucast (drop_bit 8 w), a + 2 := ucast (drop_bit 16 w),
     a + 3 := ucast (drop_bit 24 w))"

fun stosl :: "nat \<Rightarrow> uint \<Rightarrow> uint \<Rightarrow> mem \<Rightarrow> mem" where
  "stosl 0 a w m = m"
| "stosl (Suc n) a w m = stosl n (a + 4) w (store32 a w m)"

definition memset :: "uint \<Rightarrow> uint \<Rightarrow> uint \<Rightarrow> mem \<Rightarrow> mem" where
  "memset dst c n m =
     (if dst mod 4 = 0 \<and> n mod 4 = 0
      then let c = c AND 0xFF in
        stosl (unat (n div 4)) dst (push_bit 24 c OR push_bit 16 c OR push_bit 8 c OR c) m
      else stosb (unat n) dst (ucast c) m)"

fun copy_up :: "nat \<Rightarrow> uint \<Rightarrow> uint \<Rightarrow> mem \<Rightarrow> mem" where
  "copy_up 0 d s m = m"
| "copy_up (Suc n) d s m = copy_up n (d + 1) (s + 1) (m(d := m s))"

fun copy_down :: "nat \<Rightarrow> uint \<Rightarrow> uint \<Rightarrow> mem \<Rightarrow> mem" where
  "copy_down 0 d s m = m"
| "copy_down (Suc n) d s m = copy_down n (d - 1) (s - 1) (m(d - 1 := m (s - 1)))"

definition memmove :: "uint \<Rightarrow> uint \<Rightarrow> uint \<Rightarrow> mem \<Rightarrow> mem" where
  "memmove dst src n m =
     (if src < dst \<and> dst < src + n then copy_down (unat n) (dst + n) (src + n) m
      else copy_up (unat n) dst src m)"

definition user_memset :: "uint \<Rightarrow> uint \<Rightarrow> uint \<Rightarrow> mem \<Rightarrow> mem" where
  "user_memset dst c n m = stosb (unat n) dst (ucast c) m"

definition user_memmove :: "uint \<Rightarrow> uint \<Rightarrow> int \<Rightarrow> mem \<Rightarrow> mem" where
  "user_memmove dst src n m = copy_up (nat n) dst src m"

section \<open>Comparing\<close>

fun memcmp :: "mem \<Rightarrow> uint \<Rightarrow> uint \<Rightarrow> nat \<Rightarrow> int" where
  "memcmp m s1 s2 0 = 0"
| "memcmp m s1 s2 (Suc n) =
     (if m s1 \<noteq> m s2 then uint (m s1) - uint (m s2) else memcmp m (s1 + 1) (s2 + 1) n)"

fun strncmp :: "mem \<Rightarrow> uint \<Rightarrow> uint \<Rightarrow> nat \<Rightarrow> int" where
  "strncmp m p q 0 = 0"
| "strncmp m p q (Suc n) =
     (if m p \<noteq> 0 \<and> m p = m q then strncmp m (p + 1) (q + 1) n else uint (m p) - uint (m q))"

partial_function (option) strcmp :: "mem \<Rightarrow> uint \<Rightarrow> uint \<Rightarrow> int option" where
  "strcmp m p q =
     (if m p \<noteq> 0 \<and> m p = m q then strcmp m (p + 1) (q + 1) else Some (uint (m p) - uint (m q)))"

section \<open>Copying strings\<close>

fun strncpy :: "nat \<Rightarrow> uint \<Rightarrow> uint \<Rightarrow> mem \<Rightarrow> mem" where
  "strncpy 0 s t m = m"
| "strncpy (Suc n) s t m =
     (if m t \<noteq> 0 then strncpy n (s + 1) (t + 1) (m(s := m t)) else stosb n (s + 1) 0 (m(s := 0)))"

fun safestr_loop :: "nat \<Rightarrow> uint \<Rightarrow> uint \<Rightarrow> mem \<Rightarrow> mem" where
  "safestr_loop 0 s t m = m(s := 0)"
| "safestr_loop (Suc n) s t m =
     (if m t \<noteq> 0 then safestr_loop n (s + 1) (t + 1) (m(s := m t)) else m(s := 0, s + 1 := 0))"

definition safestrcpy :: "uint \<Rightarrow> uint \<Rightarrow> int \<Rightarrow> mem \<Rightarrow> mem" where
  "safestrcpy s t n m = (if n \<le> 0 then m else safestr_loop (nat (n - 1)) s t m)"

partial_function (option) strcpy :: "uint \<Rightarrow> uint \<Rightarrow> mem \<Rightarrow> mem option" where
  "strcpy s t m =
     (if m t \<noteq> 0 then strcpy (s + 1) (t + 1) (m(s := m t)) else Some (m(s := 0)))"

section \<open>Scanning strings\<close>

partial_function (option) strlen_from :: "mem \<Rightarrow> uint \<Rightarrow> nat \<Rightarrow> nat option" where
  "strlen_from m s n = (if m (s + of_nat n) \<noteq> 0 then strlen_from m s (n + 1) else Some n)"

definition strlen :: "mem \<Rightarrow> uint \<Rightarrow> nat option" where
  "strlen m s = strlen_from m s 0"

partial_function (option) strchr :: "mem \<Rightarrow> uint \<Rightarrow> byte \<Rightarrow> uint option" where
  "strchr m s c =
     (if m s = 0 then Some 0 else if m s = c then Some s else strchr m (s + 1) c)"

partial_function (option) atoi_loop :: "mem \<Rightarrow> uint \<Rightarrow> uint \<Rightarrow> uint option" where
  "atoi_loop m s n =
     (if 48 \<le> m s \<and> m s \<le> 57 then atoi_loop m (s + 1) (n * 10 + ucast (m s) - 48) else Some n)"

definition atoi :: "mem \<Rightarrow> uint \<Rightarrow> int option" where
  "atoi m s = map_option sint (atoi_loop m s 0)"

text \<open>\<open>gets\<close> reads one character per system call; the input still to come is a list.\<close>

fun gets_loop :: "nat \<Rightarrow> uint \<Rightarrow> byte list \<Rightarrow> mem \<Rightarrow> mem \<times> byte list" where
  "gets_loop k p [] m = (m(p := 0), [])"
| "gets_loop 0 p (c # cs) m = (m(p := 0), c # cs)"
| "gets_loop (Suc k) p (c # cs) m =
     (let m = m(p := c) in
      if c = 10 \<or> c = 13 then (m(p + 1 := 0), cs) else gets_loop k (p + 1) cs m)"

definition gets :: "uint \<Rightarrow> int \<Rightarrow> byte list \<Rightarrow> mem \<Rightarrow> mem \<times> byte list" where
  "gets buf n cs m = gets_loop (nat (n - 1)) buf cs m"

declare strcmp.simps [code] strcpy.simps [code] strlen_from.simps [code] strchr.simps [code] atoi_loop.simps [code]


section \<open>Moving and filling, against their specifications\<close>

text \<open>Offsets from the base of a buffer are differences of addresses, so a buffer may wrap.\<close>

definition moved :: "uint \<Rightarrow> uint \<Rightarrow> nat \<Rightarrow> mem \<Rightarrow> mem" where
  "moved d s n m = (\<lambda>a. if unat (a - d) < n then m (s + (a - d)) else m a)"

definition filled :: "uint \<Rightarrow> nat \<Rightarrow> byte \<Rightarrow> mem \<Rightarrow> mem" where
  "filled d n c m = (\<lambda>a. if unat (a - d) < n then c else m a)"

lemma unat_pred: "(x::uint) \<noteq> 0 \<Longrightarrow> unat (x - 1) = unat x - 1"
  by (simp add: unat_minus_one)

lemma unat_bound: "unat (x::uint) < 2 ^ 32"
  using unsigned_less [of x, where ?'a = nat] by simp

lemma unat_m1: "unat (- 1 :: uint) = 2 ^ 32 - 1"
  by (simp add: unsigned_minus_1_eq_mask mask_eq_exp_minus_1)

lemma offset_Suc:
  assumes "n < 2 ^ 32"
  shows "unat (a - (d + 1) :: uint) < n \<longleftrightarrow> a \<noteq> d \<and> unat (a - d) < Suc n"
proof (cases "a = d")
  case True
  then show ?thesis using assms by (simp add: unat_m1)
next
  case False
  then have "a - d \<noteq> 0" by simp
  then have "unat (a - (d + 1)) = unat (a - d) - 1" "unat (a - d) \<noteq> 0"
    using unat_pred [of "a - d"] by (simp_all add: algebra_simps unat_eq_zero)
  with False show ?thesis by auto
qed

lemma stosb_filled: "n \<le> 2 ^ 32 \<Longrightarrow> stosb n d c m = filled d n c m"
proof (induction n arbitrary: d m)
  case (Suc n)
  then show ?case
    by (auto simp: filled_def fun_eq_iff offset_Suc)
qed (simp add: filled_def)

lemma copy_up_moved:
  assumes "n \<le> 2 ^ 32" and "unat (d - s) = 0 \<or> n \<le> unat (d - s)"
  shows "copy_up n d s m = moved d s n m"
  using assms
proof (induction n arbitrary: d s m)
  case (Suc n)
  have "(d + 1) - (s + 1) = d - s" by simp
  then have "copy_up (Suc n) d s m = moved (d + 1) (s + 1) n (m(d := m s))"
    using Suc.IH [of "d + 1" "s + 1"] Suc.prems unfolding copy_up.simps by auto
  also have "\<dots> = moved d s (Suc n) m"
  proof
    fix a
    show "moved (d + 1) (s + 1) n (m(d := m s)) a = moved d s (Suc n) m a"
    proof (cases "unat (a - (d + 1)) < n")
      case True
      then have a: "a \<noteq> d" "unat (a - d) < Suc n" using Suc.prems by (simp_all add: offset_Suc)
      have "s + (a - d) = d \<longleftrightarrow> a - d = d - s" by (auto simp: algebra_simps)
      then have "s + (a - d) = d \<Longrightarrow> m s = m (s + (a - d))"
        using a Suc.prems(2) by (auto simp: unat_eq_zero)
      with True a show ?thesis by (auto simp: moved_def algebra_simps)
    next
      case False
      then show ?thesis using Suc.prems by (auto simp: moved_def offset_Suc)
    qed
  qed
  finally show ?case .
qed (simp add: moved_def)


lemma offset_last:
  assumes "n < 2 ^ 32"
  shows "unat (a - d :: uint) < Suc n \<longleftrightarrow> unat (a - d) < n \<or> a = d + of_nat n"
proof -
  have "unat (of_nat n :: uint) = n" using assms by (simp add: unat_of_nat take_bit_eq_mod)
  then have "unat (a - d) = n \<longleftrightarrow> a - d = of_nat n" by (metis word_unat_eq_iff)
  also have "\<dots> \<longleftrightarrow> a = d + of_nat n" by (auto simp: algebra_simps)
  finally show ?thesis by auto
qed

lemma unat_add_of_nat:
  assumes "unat x + n < 2 ^ 32"
  shows "unat (x + of_nat n :: uint) = unat x + n"
  using assms by (simp add: unat_word_ariths unat_of_nat take_bit_eq_mod)

lemma copy_down_moved:
  assumes "n + unat (d - s) \<le> 2 ^ 32"
  shows "copy_down n (d + of_nat n) (s + of_nat n) m = moved d s n m"
  using assms
proof (induction n arbitrary: m)
  case (Suc n)
  let ?m = "m(d + of_nat n := m (s + of_nat n))"
  have n: "n < 2 ^ 32" using Suc.prems by simp
  have e: "x + of_nat (Suc n) - 1 = x + of_nat n" for x :: uint by simp
  have "copy_down (Suc n) (d + of_nat (Suc n)) (s + of_nat (Suc n)) m = moved d s n ?m"
    unfolding copy_down.simps e by (rule Suc.IH) (use Suc.prems in simp)
  also have "\<dots> = moved d s (Suc n) m"
  proof
    fix a
    have "s + (a - d) \<noteq> d + of_nat n" if "unat (a - d) < n"
    proof
      assume "s + (a - d) = d + of_nat n"
      then have e: "a - d = (d - s) + of_nat n" by (simp add: algebra_simps)
      have "unat (a - d) = unat (d - s) + n" unfolding e by (rule unat_add_of_nat) (use Suc.prems in simp)
      with that show False by simp
    qed
    then show "moved d s n ?m a = moved d s (Suc n) m a"
      using offset_last [OF n, of a d] by (auto simp: moved_def algebra_simps)
  qed
  finally show ?case .
qed (simp add: moved_def)

lemma memmove_moved:
  assumes "unat src + unat n \<le> 2 ^ 32" and "unat dst + unat n \<le> 2 ^ 32"
  shows "memmove dst src n m = moved dst src (unat n) m"
proof (cases "src < dst \<and> dst < src + n")
  case True
  then have lt: "unat src < unat dst" by (simp add: word_less_nat_alt)
  then have "unat (dst - src) = unat dst - unat src" by (simp add: unat_sub word_le_nat_alt)
  then have "unat n + unat (dst - src) \<le> 2 ^ 32" using assms lt by simp
  from copy_down_moved [OF this, of m] True show ?thesis by (simp add: memmove_def)
next
  case False
  have "unat (dst - src) = 0 \<or> unat n \<le> unat (dst - src)"
  proof (cases "src < dst")
    case True
    then have lt: "unat src < unat dst" by (simp add: word_less_nat_alt)
    then have sub: "unat (dst - src) = unat dst - unat src" by (simp add: unat_sub word_le_nat_alt)
    show ?thesis
    proof (cases "unat src + unat n < 2 ^ 32")
      case True
      then have "unat (src + n) = unat src + unat n" by (simp add: unat_word_ariths)
      moreover have "\<not> dst < src + n" using False \<open>src < dst\<close> by blast
      ultimately show ?thesis using sub by (auto simp: word_less_nat_alt)
    next
      case False
      then have "unat src + unat n = 2 ^ 32" using assms(1) by simp
      with lt assms(2) show ?thesis by simp
    qed
  next
    case False
    then have le: "unat dst \<le> unat src" by (simp add: word_less_nat_alt)
    show ?thesis
    proof (cases "dst = src")
      case False
      then have "unat dst < unat src" using le by (metis le_neq_implies_less word_unat_eq_iff)
      then have "unat (dst - src) = 2 ^ 32 + unat dst - unat src"
        using unat_bound [of src] by (simp add: unat_word_ariths unat_sub_if' split: if_splits)
      then show ?thesis using assms(1) by auto
    qed simp
  qed
  then show ?thesis using False unat_bound [of n] copy_up_moved [of "unat n" dst src m] by (auto simp: memmove_def)
qed

lemma offset_append:
  assumes "a + b \<le> 2 ^ 32"
  shows "unat (x - (d + of_nat a) :: uint) < b \<or> unat (x - d) < a \<longleftrightarrow> unat (x - d) < a + b"
  using assms
proof (induction b)
  case (Suc b)
  then show ?case
    using offset_last [of b x "d + of_nat a"] offset_last [of "a + b" x d] by (auto simp: add.assoc)
qed simp

lemma filled_append:
  "a + b \<le> 2 ^ 32 \<Longrightarrow> filled (d + of_nat a) b c (filled d a c m) = filled d (a + b) c m"
  using offset_append [of a b _ d] by (auto simp: filled_def fun_eq_iff)

lemma store32_filled:
  assumes "\<And>k. k < 4 \<Longrightarrow> ucast (drop_bit (8 * k) w) = (c :: byte)"
  shows "store32 a w m = filled a 4 c m"
proof -
  have "stosb (Suc (Suc (Suc (Suc 0)))) a c m = store32 a w m"
    using assms [of 0] assms [of 1] assms [of 2] assms [of 3] by (simp add: store32_def add.assoc)
  moreover have "stosb (Suc (Suc (Suc (Suc 0)))) a c m = filled a (Suc (Suc (Suc (Suc 0)))) c m"
    by (rule stosb_filled) simp
  ultimately show ?thesis by (simp only: numeral_eq_Suc pred_numeral_simps numeral_One One_nat_def BitM.simps)
qed

lemma stosl_filled:
  assumes "\<And>k. k < 4 \<Longrightarrow> ucast (drop_bit (8 * k) w) = (c :: byte)" and "4 * n \<le> 2 ^ 32"
  shows "stosl n a w m = filled a (4 * n) c m"
  using assms(2)
proof (induction n arbitrary: a m)
  case (Suc n)
  then have "stosl (Suc n) a w m = filled (a + 4) (4 * n) c (filled a 4 c m)"
    by (simp add: store32_filled [OF assms(1)])
  also have "\<dots> = filled a (4 + 4 * n) c m"
    using filled_append [of 4 "4 * n" a c m] Suc.prems by simp
  finally show ?case by simp
qed (simp add: filled_def)

lemma repeat_byte:
  fixes c :: uint
  assumes "k < 4"
  shows "ucast (drop_bit (8 * k) (push_bit 24 (c AND 0xFF) OR push_bit 16 (c AND 0xFF) OR
           push_bit 8 (c AND 0xFF) OR (c AND 0xFF))) = (ucast c :: byte)"
proof (rule bit_word_eqI)
  fix i
  assume "i < LENGTH(8)"
  then have i: "i < 8" by simp
  have "(0xFF :: uint) = mask 8" by (simp add: mask_eq_exp_minus_1)
  then have m: "c AND 0xFF = take_bit 8 c" by (simp only: take_bit_eq_mask)
  have "k = 0 \<or> k = 1 \<or> k = 2 \<or> k = 3" using assms by linarith
  then show "bit (ucast (drop_bit (8 * k) (push_bit 24 (c AND 0xFF) OR push_bit 16 (c AND 0xFF) OR
           push_bit 8 (c AND 0xFF) OR (c AND 0xFF))) :: byte) i = bit (ucast c :: byte) i"
    using i unfolding m by (elim disjE) (simp_all add: bit_simps)
qed

lemma memset_filled: "memset dst c n m = filled dst (unat n) (ucast c) m"
proof (cases "dst mod 4 = 0 \<and> n mod 4 = 0")
  case True
  have "unat n mod 4 = unat (n mod 4)" by (simp add: unat_mod)
  then have "unat n mod 4 = 0" using True by simp
  then have "4 * unat (n div 4) = unat n" using mult_div_mod_eq [of 4 "unat n"] by (simp add: unat_div)
  then show ?thesis
    using True stosl_filled [OF repeat_byte [of _ c], of "unat (n div 4)" dst m] unat_bound [of n]
    by (simp add: memset_def Let_def)
next
  case False
  then show ?thesis using unat_bound [of n] by (auto simp: memset_def stosb_filled)
qed


section \<open>Strings in memory\<close>

fun cstr :: "mem \<Rightarrow> uint \<Rightarrow> byte list \<Rightarrow> bool" where
  "cstr m p [] = (m p = 0)"
| "cstr m p (c # cs) = (c \<noteq> 0 \<and> m p = c \<and> cstr m (p + 1) cs)"

lemma cstr_cong:
  assumes "\<And>i. i \<le> length cs \<Longrightarrow> m' (p + of_nat i) = m (p + of_nat i)"
  shows "cstr m' p cs = cstr m p cs"
  using assms
proof (induction cs arbitrary: p)
  case (Cons c cs)
  have "m' (p + 1 + of_nat i) = m (p + 1 + of_nat i)" if "i \<le> length cs" for i
    using Cons.prems [of "Suc i"] that by (simp add: ac_simps)
  then have "cstr m' (p + 1) cs = cstr m (p + 1) cs" by (rule Cons.IH)
  then show ?case using Cons.prems [of 0] by simp
qed simp

lemma strlen_from_cstr: "cstr m (p + of_nat n) cs \<Longrightarrow> strlen_from m p n = Some (n + length cs)"
proof (induction cs arbitrary: n)
  case Nil
  then show ?case by (subst strlen_from.simps) simp
next
  case (Cons c cs)
  then have "strlen_from m p (n + 1) = Some (n + 1 + length cs)" by (intro Cons.IH) (simp add: ac_simps)
  with Cons.prems show ?case by (subst strlen_from.simps) simp
qed

lemma strlen_cstr: "cstr m p cs \<Longrightarrow> strlen m p = Some (length cs)"
  using strlen_from_cstr [of m p 0] by (simp add: strlen_def)

lemma strncmp_cstr:
  "cstr m p xs \<Longrightarrow> cstr m q ys \<Longrightarrow> strncmp m p q n = 0 \<longleftrightarrow> take n xs = take n ys"
proof (induction n arbitrary: p q xs ys)
  case (Suc n)
  show ?case
  proof (cases "m p = m q")
    case True
    with Suc show ?thesis by (cases xs; cases ys) auto
  next
    case False
    then have "take (Suc n) xs \<noteq> take (Suc n) ys" using Suc.prems by (cases xs; cases ys) auto
    with False show ?thesis by (simp add: word_uint_eq_iff)
  qed
qed simp

lemma strcmp_cstr:
  "cstr m p xs \<Longrightarrow> cstr m q ys \<Longrightarrow> \<exists>r. strcmp m p q = Some r \<and> (r = 0 \<longleftrightarrow> xs = ys)"
proof (induction xs arbitrary: p q ys)
  case Nil
  then show ?case by (cases ys) (subst strcmp.simps, force simp: uint_0_iff)+
next
  case (Cons x xs)
  show ?case
  proof (cases "m p = m q")
    case True
    with Cons.prems obtain zs where "ys = x # zs" "cstr m (q + 1) zs" by (cases ys) auto
    with Cons True show ?thesis by (subst strcmp.simps) simp
  next
    case False
    then have "x # xs \<noteq> ys" using Cons.prems by (cases ys) auto
    with False show ?thesis by (subst strcmp.simps) (simp add: word_uint_eq_iff)
  qed
qed

text \<open>The source of a copy is not overwritten while it is read.\<close>

definition apart :: "uint \<Rightarrow> nat \<Rightarrow> uint \<Rightarrow> nat \<Rightarrow> bool" where
  "apart d n s k \<longleftrightarrow> (\<forall>i \<le> k. n \<le> unat (s + of_nat i - d))"

lemma apart_step:
  assumes "apart d (Suc n) s (Suc k)" and "Suc n < 2 ^ 32"
  shows "apart (d + 1) n (s + 1) k" and "i \<le> Suc k \<Longrightarrow> s + of_nat i \<noteq> d"
proof -
  show "s + of_nat i \<noteq> d" if "i \<le> Suc k" for i
    using assms(1) that by (force simp: apart_def)
  show "apart (d + 1) n (s + 1) k"
    unfolding apart_def
  proof (intro allI impI)
    fix i
    assume "i \<le> k"
    then have "Suc n \<le> unat (s + of_nat (Suc i) - d)" using assms(1) unfolding apart_def by blast
    then have "unat (s + of_nat (Suc i) - d) \<noteq> 0" by simp
    then have "unat (s + of_nat (Suc i) - d - 1) = unat (s + of_nat (Suc i) - d) - 1"
      by (intro unat_pred) (auto simp: unat_eq_zero)
    moreover have "s + of_nat (Suc i) - d - 1 = s + 1 + of_nat i - (d + 1)" by (simp add: algebra_simps)
    ultimately show "n \<le> unat (s + 1 + of_nat i - (d + 1))"
      using \<open>Suc n \<le> unat (s + of_nat (Suc i) - d)\<close> by simp
  qed
qed

lemma safestr_loop_frame: "n < unat (a - s) \<Longrightarrow> safestr_loop n s t m a = m a"
proof (induction n arbitrary: s t m)
  case (Suc n)
  then have "a \<noteq> s" "a \<noteq> s + 1" by auto
  then have "unat (a - s - 1) = unat (a - s) - 1" by (intro unat_pred) simp
  then have "n < unat (a - (s + 1))" using Suc.prems by (simp add: algebra_simps)
  with Suc.IH \<open>a \<noteq> s\<close> \<open>a \<noteq> s + 1\<close> show ?case by simp
qed auto

lemma safestr_loop_cstr:
  assumes "cstr m t cs" and "apart s (Suc n) t (length cs)" and "Suc n < 2 ^ 32"
  shows "cstr (safestr_loop n s t m) s (take n cs)"
  using assms
proof (induction n arbitrary: s t m cs)
  case (Suc n)
  show ?case
  proof (cases cs)
    case Nil
    then show ?thesis using Suc.prems by simp
  next
    case (Cons c cs')
    note A = apart_step [OF Suc.prems(2) [unfolded Cons length_Cons] Suc.prems(3)]
    have c: "m t = c" "c \<noteq> 0" "cstr m (t + 1) cs'" using Suc.prems(1) Cons by auto
    have "t + 1 + of_nat i \<noteq> s" if "i \<le> length cs'" for i
      using A(2) [of "Suc i"] that by (simp add: ac_simps)
    then have "cstr (m(s := c)) (t + 1) cs'" using c(3) cstr_cong [of cs' "m(s := c)" "t + 1" m] by simp
    then have "cstr (safestr_loop n (s + 1) (t + 1) (m(s := c))) (s + 1) (take n cs')"
      using A(1) Suc.prems(3) by (intro Suc.IH) (simp_all add: fun_upd_def)
    moreover have "safestr_loop n (s + 1) (t + 1) (m(s := c)) s = c"
      using Suc.prems(3) by (subst safestr_loop_frame) (simp_all add: unat_m1)
    ultimately show ?thesis using c Cons by simp
  qed
qed simp

text \<open>\<open>gets\<close> takes input up to and including the first line end, and no more than fits.\<close>

fun first_line :: "nat \<Rightarrow> byte list \<Rightarrow> byte list" where
  "first_line k [] = []"
| "first_line 0 cs = []"
| "first_line (Suc k) (c # cs) = (if c = 10 \<or> c = 13 then [c] else c # first_line k cs)"

lemma gets_loop_frame: "k < unat (a - p) \<Longrightarrow> fst (gets_loop k p cs m) a = m a"
proof (induction k p cs m rule: gets_loop.induct)
  case (3 k p c cs m)
  then have "a \<noteq> p" "a \<noteq> p + 1" by auto
  then have "unat (a - p - 1) = unat (a - p) - 1" by (intro unat_pred) simp
  then have "k < unat (a - (p + 1))" using 3(2) by (simp add: algebra_simps)
  with 3(1) \<open>a \<noteq> p\<close> \<open>a \<noteq> p + 1\<close> show ?case by (simp add: Let_def fun_upd_def)
qed auto

lemma gets_loop_ok:
  assumes "0 \<notin> set cs" and "Suc k < 2 ^ 32"
  shows "cstr (fst (gets_loop k p cs m)) p (first_line k cs) \<and>
    cs = first_line k cs @ snd (gets_loop k p cs m)"
  using assms
proof (induction k p cs m rule: gets_loop.induct)
  case (3 k p c cs m)
  have "fst (gets_loop k (p + 1) cs (m(p := c))) p = c"
    using 3(3) by (subst gets_loop_frame) (simp_all add: unat_m1)
  with 3 show ?case by (auto simp: Let_def fun_upd_def)
qed auto


section \<open>Properties\<close>

text \<open>C10. \<open>memmove\<close> moves a block correctly whether or not source and destination overlap: if neither
  block runs past the end of the address space, every destination byte ends up with the value its
  source byte had before the call, and no other byte changes.\<close>

theorem memmove_correct:
  assumes "unat src + unat n \<le> 2 ^ 32" and "unat dst + unat n \<le> 2 ^ 32"
  shows "memmove dst src n m a = (if unat (a - dst) < unat n then m (src + (a - dst)) else m a)"
  by (simp add: memmove_moved [OF assms] moved_def)

theorem memmove_correct_witness:
  "memmove 102 100 5 (\<lambda>a. ucast a) 104 = 102"
  using memmove_correct [of 100 5 102 "\<lambda>a. ucast a" 104] by simp

text \<open>C11. \<open>safestrcpy\<close> always leaves a terminated string: copying a string \<open>cs\<close> into a buffer of
  \<open>n > 0\<close> bytes apart from it stores the first \<open>n - 1\<close> characters of \<open>cs\<close> and a terminator, and
  writes nothing outside the buffer.\<close>

theorem safestrcpy_terminates:
  assumes "cstr m t cs" and "apart s (nat n) t (length cs)" and "0 < n" and "n < 2 ^ 32"
  shows "cstr (safestrcpy s t n m) s (take (nat n - 1) cs) \<and>
    (nat n \<le> unat (a - s) \<longrightarrow> safestrcpy s t n m a = m a)"
proof -
  have n: "nat n = Suc (nat (n - 1))" using assms(3) by simp
  then show ?thesis
    using assms safestr_loop_cstr [OF assms(1), of s "nat (n - 1)"] safestr_loop_frame [of "nat (n - 1)" a s]
    by (auto simp: safestrcpy_def)
qed

definition sample_mem :: mem where
  "sample_mem = (\<lambda>a. if a = 200 then 104 else if a = 201 then 105 else 0)"

theorem safestrcpy_terminates_witness:
  "cstr (safestrcpy 100 200 2 sample_mem) 100 [104]"
proof -
  have "apart 100 (nat 2) 200 (length [104 :: byte, 105])"
    unfolding apart_def
  proof (intro allI impI)
    fix i
    assume "i \<le> length [104 :: byte, 105]"
    then consider "i = 0" | "i = 1" | "i = 2" by force
    then show "nat 2 \<le> unat (200 + of_nat i - 100 :: uint)" by cases simp_all
  qed
  then show ?thesis
    using safestrcpy_terminates [of sample_mem 200 "[104, 105]" 100 2 0] by (simp add: sample_mem_def)
qed

text \<open>C12. \<open>gets\<close> reads exactly one line: with \<open>n\<close> the size of the buffer and input free of NUL bytes,
  the buffer holds the input up to and including its first line end, cut off after \<open>n - 1\<close>
  characters, as a terminated string, and the rest of the input is still unread.\<close>

theorem gets_reads_line:
  assumes "0 \<notin> set cs" and "n < 2 ^ 32"
  shows "cstr (fst (gets buf n cs m)) buf (first_line (nat (n - 1)) cs) \<and>
    cs = first_line (nat (n - 1)) cs @ snd (gets buf n cs m)"
  using gets_loop_ok [OF assms(1), of "nat (n - 1)"] assms(2) by (simp add: gets_def)

theorem gets_reads_line_witness:
  "cstr (fst (gets 100 16 [108, 115, 10, 120] (\<lambda>_. 7))) 100 [108, 115, 10]"
proof -
  have "first_line (nat (16 - 1)) [108, 115, 10, 120] = [108, 115, 10]" by code_simp
  then show ?thesis using gets_reads_line [of "[108, 115, 10, 120]" 16 100 "\<lambda>_. 7"] by simp
qed

end
