(* ===== verification/Kalloc.thy ===== *)
theory Kalloc
  imports Cstring
begin

text \<open>
  The physical page allocator (\<^verbatim>\<open>kalloc.c\<close>). The free list is threaded through the free pages
  themselves: the first word of a free page is the address of the next one. The state is the
  memory and the \<^verbatim>\<open>struct kmem\<close>; addresses are kernel virtual addresses. The linker symbol
  \<^verbatim>\<open>end\<close>, the first address after the kernel, is a parameter. The locale \<open>page_store\<close> is
  what the virtual memory code relies on.
\<close>

definition PGSIZE :: uint where "PGSIZE = 4096"
definition KERNBASE :: uint where "KERNBASE = 0x80000000"
definition PHYSTOP :: uint where "PHYSTOP = 0xE000000"

definition PGROUNDUP :: "uint \<Rightarrow> uint" where
  "PGROUNDUP sz = (sz + PGSIZE - 1) AND NOT (PGSIZE - 1)"

definition PGROUNDDOWN :: "uint \<Rightarrow> uint" where
  "PGROUNDDOWN a = a AND NOT (PGSIZE - 1)"

definition V2P :: "uint \<Rightarrow> uint" where "V2P a = a - KERNBASE"
definition P2V :: "uint \<Rightarrow> uint" where "P2V a = a + KERNBASE"

definition load32 :: "mem \<Rightarrow> uint \<Rightarrow> uint" where
  "load32 m a = bytes_u32 [m a, m (a + 1), m (a + 2), m (a + 3)]"

record kmem =
  kmem_bytes :: mem
  use_lock :: bool
  freelist :: uint

definition kfree :: "uint \<Rightarrow> uint \<Rightarrow> 'a kmem_scheme \<Rightarrow> 'a kmem_scheme outcome" where
  "kfree kend v s =
     (if v mod PGSIZE \<noteq> 0 \<or> v < kend \<or> PHYSTOP \<le> V2P v then Panic ''kfree''
      else
        (let m = memset v 1 PGSIZE (kmem_bytes s)
         in Ok (s\<lparr>kmem_bytes := store32 v (freelist s) m, freelist := v\<rparr>)))"

definition kalloc :: "'a kmem_scheme \<Rightarrow> uint \<times> 'a kmem_scheme" where
  "kalloc s =
     (let r = freelist s in
      if r \<noteq> 0 then (r, s\<lparr>freelist := load32 (kmem_bytes s) r\<rparr>) else (0, s))"

text \<open>\<open>freerange\<close> is a loop over addresses; the fuel bounds the pages of a 32-bit space.\<close>

fun freerange_loop :: "nat \<Rightarrow> uint \<Rightarrow> uint \<Rightarrow> uint \<Rightarrow> 'a kmem_scheme \<Rightarrow> 'a kmem_scheme outcome" where
  "freerange_loop 0 kend vend p s = Diverge"
| "freerange_loop (Suc fuel) kend vend p s =
     (if p + PGSIZE \<le> vend then obind (kfree kend p s) (freerange_loop fuel kend vend (p + PGSIZE)) else Ok s)"

definition max_pages :: nat where "max_pages = 1048577"

definition freerange :: "uint \<Rightarrow> uint \<Rightarrow> uint \<Rightarrow> 'a kmem_scheme \<Rightarrow> 'a kmem_scheme outcome" where
  "freerange kend vstart vend s = freerange_loop max_pages kend vend (PGROUNDUP vstart) s"

definition kinit1 :: "uint \<Rightarrow> uint \<Rightarrow> uint \<Rightarrow> 'a kmem_scheme \<Rightarrow> 'a kmem_scheme outcome" where
  "kinit1 kend vstart vend s = freerange kend vstart vend (s\<lparr>use_lock := False\<rparr>)"

definition kinit2 :: "uint \<Rightarrow> uint \<Rightarrow> uint \<Rightarrow> 'a kmem_scheme \<Rightarrow> 'a kmem_scheme outcome" where
  "kinit2 kend vstart vend s =
     obind (freerange kend vstart vend s) (\<lambda>s. Ok (s\<lparr>use_lock := True\<rparr>))"

section \<open>Words in memory\<close>

definition in_page :: "uint \<Rightarrow> uint \<Rightarrow> bool" where
  "in_page p a \<longleftrightarrow> unat (a - p) < 4096"

lemma load32_store32 [simp]: "load32 (store32 a w m) a = w"
proof -
  have "store32 a w m a = ucast w" "store32 a w m (a + 1) = ucast (drop_bit 8 w)"
    "store32 a w m (a + 2) = ucast (drop_bit 16 w)" "store32 a w m (a + 3) = ucast (drop_bit 24 w)"
    by (simp_all add: store32_def)
  then have "[store32 a w m a, store32 a w m (a + 1), store32 a w m (a + 2), store32 a w m (a + 3)] = u32_bytes w"
    by (simp add: u32_bytes_def)
  then show ?thesis by (simp add: load32_def)
qed

lemma store32_other: "4 \<le> unat (x - a) \<Longrightarrow> store32 a w m x = m x"
  by (auto simp: store32_def)

lemma load32_cong:
  assumes "\<And>x. unat (x - a) < 4 \<Longrightarrow> m x = m' x"
  shows "load32 m a = load32 m' a"
  using assms [of a] assms [of "a + 1"] assms [of "a + 2"] assms [of "a + 3"] by (simp add: load32_def)

lemma unat_PGSIZE [simp]: "unat PGSIZE = 4096"
  by (simp add: PGSIZE_def)

lemma aligned_unat: "p mod PGSIZE = 0 \<longleftrightarrow> unat p mod 4096 = 0"
  using unat_mod [of p PGSIZE] by (metis unat_PGSIZE unat_eq_zero)

lemma page_no_wrap:
  assumes "p mod PGSIZE = 0" and "in_page p a"
  shows "unat a = unat p + unat (a - p)"
proof -
  obtain k where k: "unat p = 4096 * k" using assms(1) by (auto simp: aligned_unat)
  moreover have "4096 * k < 4096 * 1048576" using unat_bound [of p] k by simp
  ultimately have "unat p + unat (a - p) < 2 ^ 32" using assms(2) by (simp add: in_page_def)
  then have "unat (p + (a - p)) = unat p + unat (a - p)"
    using unat_word_ariths(1) [of p "a - p"] by simp
  then show ?thesis by simp
qed

lemma page_base: "P mod 4096 = 0 \<Longrightarrow> i < 4096 \<Longrightarrow> P = 4096 * ((P + i) div (4096::nat))"
  by (auto simp: mod_eq_0_iff_dvd elim!: dvdE)

lemma in_page_unique:
  assumes "p mod PGSIZE = 0" "q mod PGSIZE = 0" "in_page p a" "in_page q a"
  shows "p = q"
proof -
  have "unat p mod 4096 = 0" "unat q mod 4096 = 0" using assms(1,2) by (simp_all add: aligned_unat)
  moreover have "unat p + unat (a - p) = unat q + unat (a - q)"
    using page_no_wrap [OF assms(1,3)] page_no_wrap [OF assms(2,4)] by simp
  ultimately have "unat p = unat q"
    using page_base [of "unat p" "unat (a - p)"] page_base [of "unat q" "unat (a - q)"] assms(3,4)
    unfolding in_page_def by simp
  then show ?thesis by (simp add: word_unat_eq_iff)
qed

lemma in_page_word: "unat (x - p) < 4 \<Longrightarrow> in_page p x"
  by (simp add: in_page_def)

section \<open>The free list\<close>

fun free_list :: "mem \<Rightarrow> uint \<Rightarrow> uint list \<Rightarrow> bool" where
  "free_list m p [] = (p = 0)"
| "free_list m p (x # xs) = (p = x \<and> x \<noteq> 0 \<and> free_list m (load32 m x) xs)"

definition page_ok :: "uint \<Rightarrow> uint \<Rightarrow> bool" where
  "page_ok kend v \<longleftrightarrow> v mod PGSIZE = 0 \<and> kend \<le> v \<and> V2P v < PHYSTOP"

definition kinv :: "uint \<Rightarrow> 'a kmem_scheme \<Rightarrow> uint list \<Rightarrow> bool" where
  "kinv kend s xs \<longleftrightarrow> free_list (kmem_bytes s) (freelist s) xs \<and> distinct xs \<and> (\<forall>x \<in> set xs. page_ok kend x)"

definition set_bytes :: "mem \<Rightarrow> 'a kmem_scheme \<Rightarrow> 'a kmem_scheme" where
  "set_bytes m s = s\<lparr>kmem_bytes := m\<rparr>"

definition kenv :: "'a kmem_scheme \<Rightarrow> bool \<times> 'a" where
  "kenv s = (use_lock s, kmem.more s)"

lemma free_list_cong:
  assumes "\<And>x a. x \<in> set xs \<Longrightarrow> in_page x a \<Longrightarrow> m a = m' a"
  shows "free_list m p xs = free_list m' p xs"
  using assms
proof (induction xs arbitrary: p)
  case (Cons x xs)
  have "load32 m x = load32 m' x" by (rule load32_cong) (use Cons.prems in_page_word in auto)
  moreover have "free_list m q xs = free_list m' q xs" for q by (rule Cons.IH) (use Cons.prems in auto)
  ultimately show ?case by simp
qed simp

lemma page_ok_nonzero: "page_ok kend v \<Longrightarrow> v \<noteq> 0"
  by (auto simp: page_ok_def V2P_def KERNBASE_def PHYSTOP_def)

lemma page_ok_disjoint: "page_ok kend v \<Longrightarrow> page_ok kend w \<Longrightarrow> v \<noteq> w \<Longrightarrow> in_page v a \<Longrightarrow> \<not> in_page w a"
  by (metis in_page_unique page_ok_def)

section \<open>The contract\<close>

locale page_store =
  fixes alloc :: "'s \<Rightarrow> uint \<times> 's"
    and free :: "uint \<Rightarrow> 's \<Rightarrow> 's outcome"
    and bytes :: "'s \<Rightarrow> mem"
    and put :: "mem \<Rightarrow> 's \<Rightarrow> 's"
    and inv :: "'s \<Rightarrow> uint list \<Rightarrow> bool"
    and page :: "uint \<Rightarrow> bool"
    and env :: "'s \<Rightarrow> 'e"
  assumes alloc_none: "inv s [] \<Longrightarrow> alloc s = (0, s)"
    and alloc_some: "inv s (x # xs) \<Longrightarrow>
      \<exists>s'. alloc s = (x, s') \<and> inv s' xs \<and> bytes s' = bytes s \<and> env s' = env s"
    and free_ok: "inv s xs \<Longrightarrow> page v \<Longrightarrow> v \<notin> set xs \<Longrightarrow>
      \<exists>s'. free v s = Ok s' \<and> inv s' (v # xs) \<and> (\<forall>a. \<not> in_page v a \<longrightarrow> bytes s' a = bytes s a) \<and> env s' = env s"
    and put_ok: "inv s xs \<Longrightarrow> (\<And>x a. x \<in> set xs \<Longrightarrow> in_page x a \<Longrightarrow> m a = bytes s a) \<Longrightarrow>
      inv (put m s) xs \<and> bytes (put m s) = m \<and> env (put m s) = env s"
    and free_pages: "inv s xs \<Longrightarrow> distinct xs \<and> (\<forall>x \<in> set xs. page x)"
    and page_nonzero: "page v \<Longrightarrow> v \<noteq> 0"
    and page_disjoint: "page v \<Longrightarrow> page w \<Longrightarrow> v \<noteq> w \<Longrightarrow> in_page v a \<Longrightarrow> \<not> in_page w a"
begin

text \<open>Allocate a page and overwrite it, as the virtual memory code does for every new page.\<close>

lemma alloc_and_write:
  assumes "inv s (x # xs)" and "\<And>a. \<not> in_page x a \<Longrightarrow> m a = bytes s a"
  obtains s1 where "alloc s = (x, s1)" and "x \<noteq> 0" and "inv (put m s1) xs" and "bytes s1 = bytes s"
    and "bytes (put m s1) = m" and "env (put m s1) = env s"
proof -
  obtain s1 where s1: "alloc s = (x, s1)" "inv s1 xs" "bytes s1 = bytes s" "env s1 = env s"
    using alloc_some [OF assms(1)] by blast
  have x: "page x" "x \<notin> set xs" "\<forall>y \<in> set xs. page y" using free_pages [OF assms(1)] by auto
  have "m a = bytes s1 a" if "y \<in> set xs" "in_page y a" for y a
  proof -
    have "\<not> in_page x a" using page_disjoint [of y x a] x that by auto
    then show ?thesis using assms(2) s1(3) by simp
  qed
  then have "inv (put m s1) xs \<and> bytes (put m s1) = m \<and> env (put m s1) = env s1"
    by (intro put_ok s1(2)) blast
  with s1 page_nonzero [OF x(1)] that show thesis by simp
qed

text \<open>Freeing a page and allocating again gives it back.\<close>

lemma free_then_alloc:
  assumes "inv s xs" and "page v" and "v \<notin> set xs"
  obtains s1 s2 where "free v s = Ok s1" and "alloc s1 = (v, s2)" and "inv s2 xs" and "env s2 = env s"
    and "\<And>a. \<not> in_page v a \<Longrightarrow> bytes s2 a = bytes s a"
proof -
  obtain s1 where s1: "free v s = Ok s1" "inv s1 (v # xs)" "\<And>a. \<not> in_page v a \<Longrightarrow> bytes s1 a = bytes s a" "env s1 = env s"
    using free_ok [OF assms] by blast
  with alloc_some [OF s1(2)] that show thesis by metis
qed

end

lemma kfree_junk:
  assumes "page_ok kend v"
  shows "kfree kend v s = Ok (s\<lparr>kmem_bytes := store32 v (freelist s) (filled v 4096 1 (kmem_bytes s)), freelist := v\<rparr>)"
  using assms by (auto simp: kfree_def page_ok_def memset_filled)

interpretation ks: page_store kalloc "kfree kend" kmem_bytes set_bytes "kinv kend" "page_ok kend" kenv
  for kend
proof
  fix s :: "'a kmem_scheme" and xs v m x w a
  show "kalloc s = (0, s)" if "kinv kend s []" using that by (simp add: kinv_def kalloc_def)
  show "\<exists>s'. kalloc s = (x, s') \<and> kinv kend s' xs \<and> kmem_bytes s' = kmem_bytes s \<and> kenv s' = kenv s"
    if "kinv kend s (x # xs)" using that by (auto simp: kinv_def kalloc_def kenv_def)
  show "distinct xs \<and> (\<forall>x \<in> set xs. page_ok kend x)" if "kinv kend s xs" using that by (simp add: kinv_def)
  show "kinv kend (set_bytes m s) xs \<and> kmem_bytes (set_bytes m s) = m \<and> kenv (set_bytes m s) = kenv s"
    if "kinv kend s xs" "\<And>x a. x \<in> set xs \<Longrightarrow> in_page x a \<Longrightarrow> m a = kmem_bytes s a"
    using that free_list_cong [of xs m "kmem_bytes s"] by (simp add: kinv_def set_bytes_def kenv_def)
  show "v \<noteq> 0" if "page_ok kend v" using that by (rule page_ok_nonzero)
  show "\<not> in_page w a" if "page_ok kend v" "page_ok kend w" "v \<noteq> w" "in_page v a"
    using that by (rule page_ok_disjoint)
  show "\<exists>s'. kfree kend v s = Ok s' \<and> kinv kend s' (v # xs) \<and>
      (\<forall>a. \<not> in_page v a \<longrightarrow> kmem_bytes s' a = kmem_bytes s a) \<and> kenv s' = kenv s"
    if k: "kinv kend s xs" and v: "page_ok kend v" "v \<notin> set xs"
  proof -
    let ?m = "store32 v (freelist s) (filled v 4096 1 (kmem_bytes s))"
    have out: "?m a = kmem_bytes s a" if "\<not> in_page v a" for a
      using that by (simp add: in_page_def store32_other filled_def)
    have "free_list ?m (freelist s) xs = free_list (kmem_bytes s) (freelist s) xs"
    proof (rule free_list_cong)
      fix x a
      assume "x \<in> set xs" "in_page x a"
      then have "\<not> in_page v a" using page_ok_disjoint [of kend x v a] v k by (auto simp: kinv_def)
      then show "?m a = kmem_bytes s a" by (rule out)
    qed
    then show ?thesis
      using k v out page_ok_nonzero [OF v(1)] by (simp add: kfree_junk kinv_def kenv_def)
  qed
qed


section \<open>Allocated pages\<close>

text \<open>
  The allocator and its clients: pages are handed out, returned by the client that has them, and
  written only while allocated.
\<close>

inductive kstep :: "uint \<Rightarrow> 'a kmem_scheme \<times> uint set \<Rightarrow> 'a kmem_scheme \<times> uint set \<Rightarrow> bool" for kend where
  k_alloc: "kalloc s = (r, s') \<Longrightarrow> r \<noteq> 0 \<Longrightarrow> kstep kend (s, A) (s', insert r A)"
| k_free: "v \<in> A \<Longrightarrow> kfree kend v s = Ok s' \<Longrightarrow> kstep kend (s, A) (s', A - {v})"
| k_write: "p \<in> A \<Longrightarrow> in_page p a \<Longrightarrow> kstep kend (s, A) (set_bytes ((kmem_bytes s)(a := c)) s, A)"

definition kalloc_inv :: "uint \<Rightarrow> nat \<Rightarrow> 'a kmem_scheme \<times> uint set \<Rightarrow> bool" where
  "kalloc_inv kend n = (\<lambda>(s, A). \<exists>xs. kinv kend s xs \<and> finite A \<and> A \<inter> set xs = {} \<and>
     (\<forall>p \<in> A. page_ok kend p) \<and> card A + length xs = n)"

lemma kalloc_cases:
  assumes "kinv kend s xs" and "kalloc s = (r, s')" and "r \<noteq> 0"
  obtains ys where "xs = r # ys" and "kinv kend s' ys" and "page_ok kend r" and "r \<notin> set ys"
  using assms by (cases xs) (auto simp: kinv_def kalloc_def)

lemma kalloc_inv_step: "kstep kend p q \<Longrightarrow> kalloc_inv kend n p \<Longrightarrow> kalloc_inv kend n q"
proof (induction rule: kstep.induct)
  case (k_alloc s r s' A)
  then obtain xs where xs: "kinv kend s xs" "finite A" "A \<inter> set xs = {}" "\<forall>p \<in> A. page_ok kend p" "card A + length xs = n"
    by (auto simp: kalloc_inv_def)
  obtain ys where ys: "xs = r # ys" "kinv kend s' ys" "page_ok kend r" "r \<notin> set ys"
    by (rule kalloc_cases [OF xs(1) k_alloc(1,2)])
  then show ?case using xs by (auto simp: kalloc_inv_def intro!: exI [of _ ys])
next
  case (k_free v A s s')
  then obtain xs where xs: "kinv kend s xs" "finite A" "A \<inter> set xs = {}" "\<forall>p \<in> A. page_ok kend p" "card A + length xs = n"
    by (auto simp: kalloc_inv_def)
  have v: "page_ok kend v" "v \<notin> set xs" using k_free(1) xs by auto
  have "kinv kend s' (v # xs)" using ks.free_ok [OF xs(1) v] k_free(2) by auto
  moreover have "card (A - {v}) + 1 = card A" using k_free(1) xs(2) by (metis Suc_eq_plus1 card_Suc_Diff1)
  ultimately show ?case using xs by (auto simp: kalloc_inv_def intro!: exI [of _ "v # xs"])
next
  case (k_write p A a s c)
  then obtain xs where xs: "kinv kend s xs" "finite A" "A \<inter> set xs = {}" "\<forall>p \<in> A. page_ok kend p" "card A + length xs = n"
    by (auto simp: kalloc_inv_def)
  have "((kmem_bytes s)(a := c)) b = kmem_bytes s b" if "x \<in> set xs" "in_page x b" for x b
  proof -
    have "page_ok kend x" "page_ok kend p" "x \<noteq> p" using that(1) xs k_write(1) by (auto simp: kinv_def)
    then have "b \<noteq> a" using page_ok_disjoint [of kend x p a] k_write(2) that(2) by auto
    then show ?thesis by simp
  qed
  then have "kinv kend (set_bytes ((kmem_bytes s)(a := c)) s) xs"
    using ks.put_ok [OF xs(1), of "(kmem_bytes s)(a := c)"] by blast
  then show ?case using xs by (auto simp: kalloc_inv_def)
qed

lemma kalloc_inv_reachable: "(kstep kend)\<^sup>*\<^sup>* p q \<Longrightarrow> kalloc_inv kend n p \<Longrightarrow> kalloc_inv kend n q"
  by (induction rule: rtranclp_induct) (simp_all add: kalloc_inv_step)

section \<open>Filling the free list at boot\<close>

definition page_seq :: "uint \<Rightarrow> nat \<Rightarrow> uint list" where
  "page_seq p n = map (\<lambda>i. p + of_nat i * PGSIZE) [0..<n]"

lemma page_seq_Suc: "page_seq p (Suc n) = p # page_seq (p + PGSIZE) n"
  unfolding page_seq_def by (simp add: upt_conv_Cons map_Suc_upt [symmetric] algebra_simps del: upt_Suc)

lemma freerange_loop_ok:
  assumes "kinv kend s xs" and "\<forall>q \<in> set (page_seq p n). page_ok kend q \<and> q + PGSIZE \<le> vend"
    and "distinct (page_seq p n @ xs)" and "\<not> p + of_nat n * PGSIZE + PGSIZE \<le> vend" and "n < fuel"
  shows "\<exists>s'. freerange_loop fuel kend vend p s = Ok s' \<and> kinv kend s' (rev (page_seq p n) @ xs) \<and> kenv s' = kenv s"
  using assms
proof (induction n arbitrary: p s xs fuel)
  case 0
  then show ?case by (cases fuel) (simp_all add: page_seq_def)
next
  case (Suc n)
  then obtain f where f: "fuel = Suc f" by (cases fuel) auto
  have p: "page_ok kend p" "p + PGSIZE \<le> vend" "p \<notin> set xs" using Suc.prems(2,3) by (auto simp: page_seq_Suc)
  obtain t where t: "kfree kend p s = Ok t" "kinv kend t (p # xs)" "kenv t = kenv s"
    using ks.free_ok [OF Suc.prems(1) p(1,3)] by blast
  have "\<exists>s'. freerange_loop f kend vend (p + PGSIZE) t = Ok s' \<and>
      kinv kend s' (rev (page_seq (p + PGSIZE) n) @ p # xs) \<and> kenv s' = kenv t"
    by (rule Suc.IH [OF t(2)]) (use Suc.prems f in \<open>auto simp: page_seq_Suc algebra_simps\<close>)
  then show ?case using t p f by (auto simp: page_seq_Suc)
qed


lemma round_and: "(x AND NOT (PGSIZE - 1)) mod PGSIZE = 0"
proof -
  have m: "PGSIZE - 1 = mask 12" "PGSIZE = 2 ^ 12" by (simp_all add: PGSIZE_def mask_eq_exp_minus_1)
  have "take_bit 12 (x AND NOT (mask 12)) = 0"
    by (rule bit_word_eqI) (auto simp: bit_simps)
  then show ?thesis unfolding m(1) by (simp add: m(2) take_bit_eq_mod)
qed

lemma page_range:
  assumes "p mod PGSIZE = 0" and "KERNBASE \<le> kend" and "kend \<le> p" and "p \<le> vend" and "V2P vend \<le> PHYSTOP"
    and "n = unat (vend - p) div 4096"
  shows "q \<in> set (page_seq p n) \<Longrightarrow> page_ok kend q \<and> q + PGSIZE \<le> vend" and "distinct (page_seq p n)"
    and "\<not> p + of_nat n * PGSIZE + PGSIZE \<le> vend" and "n < max_pages"
proof -
  have "KERNBASE \<le> vend" using assms(2-4) by simp
  then have v: "unat vend = unat (V2P vend) + 0x80000000"
    using unat_sub [of KERNBASE vend] by (simp add: V2P_def KERNBASE_def word_le_nat_alt)
  moreover have "unat (V2P vend) \<le> 0xE000000" using assms(5) by (simp add: PHYSTOP_def word_le_nat_alt)
  ultimately have vb: "unat vend \<le> 0x8E000000" by simp
  have d: "unat (vend - p) = unat vend - unat p" using assms(4) by (simp add: unat_sub)
  have pv: "unat p \<le> unat vend" using assms(4) by (simp add: word_le_nat_alt)
  have n: "4096 * n \<le> unat vend - unat p" "unat vend - unat p < 4096 * n + 4096"
    using mult_div_mod_eq [of 4096 "unat vend - unat p"] mod_less_divisor [of 4096 "unat vend - unat p"]
    unfolding assms(6) d by linarith+
  have u: "unat (p + of_nat i * PGSIZE) = unat p + 4096 * i" if "i \<le> n" for i
  proof -
    have "unat p + 4096 * i < 2 ^ 32" using n(1) that vb pv by simp
    moreover have "p + of_nat i * PGSIZE = p + of_nat (4096 * i)" by (simp add: PGSIZE_def)
    ultimately show ?thesis using unat_add_of_nat [of p "4096 * i"] by simp
  qed
  have u1: "unat (p + of_nat i * PGSIZE + PGSIZE) = unat p + 4096 * i + 4096" if "i \<le> n" for i
  proof -
    have "unat (p + of_nat i * PGSIZE) + unat PGSIZE < 2 ^ 32" using n(1) that vb pv by (simp add: u)
    then show ?thesis using u [OF that] unat_word_ariths(1) [of "p + of_nat i * PGSIZE" PGSIZE] by simp
  qed
  show "\<not> p + of_nat n * PGSIZE + PGSIZE \<le> vend" using u1 [of n] n(2) pv by (simp add: word_le_nat_alt)
  have "4096 * n \<le> 0x8E000000" using n(1) vb by linarith
  then show "n < max_pages" by (simp add: max_pages_def)
  have "inj_on (\<lambda>i. p + of_nat i * PGSIZE) (set [0..<n])"
  proof (rule inj_onI)
    fix i j
    assume "i \<in> set [0..<n]" "j \<in> set [0..<n]" and eq: "p + of_nat i * PGSIZE = p + of_nat j * PGSIZE"
    then have ij: "i \<le> n" "j \<le> n" by auto
    have "unat p + 4096 * i = unat p + 4096 * j"
      using arg_cong [OF eq, of unat] unfolding u [OF ij(1)] u [OF ij(2)] .
    then show "i = j" by simp
  qed
  then show "distinct (page_seq p n)" unfolding page_seq_def distinct_map by simp
  show "page_ok kend q \<and> q + PGSIZE \<le> vend" if q: "q \<in> set (page_seq p n)"
  proof -
    obtain i where i: "i < n" "q = p + of_nat i * PGSIZE" using q by (auto simp: page_seq_def)
    have uq: "unat q = unat p + 4096 * i" and uq1: "unat (q + PGSIZE) = unat p + 4096 * i + 4096"
      using u [of i] u1 [of i] i by simp_all
    have le: "unat (q + PGSIZE) \<le> unat vend" using uq1 i(1) n(1) pv by linarith
    have "kend \<le> q" using assms(3) uq by (simp add: word_le_nat_alt)
    moreover have "q mod PGSIZE = 0" using assms(1) uq unfolding aligned_unat by simp
    moreover have "V2P q < PHYSTOP"
    proof -
      have "KERNBASE \<le> q" using assms(2) \<open>kend \<le> q\<close> by simp
      then have "unat (V2P q) = unat q - 0x80000000"
        using unat_sub [of KERNBASE q] by (simp add: V2P_def KERNBASE_def)
      then show ?thesis using le uq uq1 vb by (simp add: word_less_nat_alt PHYSTOP_def)
    qed
    ultimately show ?thesis using le by (simp add: page_ok_def word_le_nat_alt)
  qed
qed

section \<open>Properties\<close>

text \<open>C7. Booting fills the free list exactly: \<open>kinit1\<close> on a range between the end of the kernel and the
  top of memory returns, and the free list then consists of every whole page of the range, each once.\<close>

theorem kinit1_free_list:
  assumes "freelist s = 0" and "KERNBASE \<le> kend" and "kend \<le> PGROUNDUP vstart" and "PGROUNDUP vstart \<le> vend"
    and "V2P vend \<le> PHYSTOP"
  shows "\<exists>s'. kinit1 kend vstart vend s = Ok s' \<and>
    kinv kend s' (rev (page_seq (PGROUNDUP vstart) (unat (vend - PGROUNDUP vstart) div 4096)))"
proof -
  have al: "PGROUNDUP vstart mod PGSIZE = 0" unfolding PGROUNDUP_def by (rule round_and)
  note R = page_range [OF al assms(2-5) refl]
  have "kinv kend (s\<lparr>use_lock := False\<rparr>) []" using assms(1) by (simp add: kinv_def)
  then have "\<exists>s'. freerange_loop max_pages kend vend (PGROUNDUP vstart) (s\<lparr>use_lock := False\<rparr>) = Ok s' \<and>
      kinv kend s' (rev (page_seq (PGROUNDUP vstart) (unat (vend - PGROUNDUP vstart) div 4096)) @ []) \<and>
      kenv s' = kenv (s\<lparr>use_lock := False\<rparr>)"
    by (rule freerange_loop_ok [OF _ _ _ R(3,4)]) (use R(1,2) in \<open>simp_all only: append_Nil2, blast\<close>)
  then show ?thesis unfolding kinit1_def freerange_def append_Nil2 by blast
qed

theorem kinit1_free_list_witness:
  "\<exists>s'. kinit1 0x80100000 0x80101001 0x80104000 \<lparr>kmem_bytes = \<lambda>_. 7, use_lock = True, freelist = 0\<rparr> = Ok s' \<and>
    kinv 0x80100000 s' (rev (page_seq 0x80102000 2))"
proof -
  let ?s = "\<lparr>kmem_bytes = \<lambda>_. 7, use_lock = True, freelist = 0\<rparr>"
  have r: "PGROUNDUP 0x80101001 = 0x80102000" by (simp add: PGROUNDUP_def PGSIZE_def)
  have n: "unat (0x80104000 - 0x80102000 :: uint) div 4096 = 2" by simp
  have "\<exists>s'. kinit1 0x80100000 0x80101001 0x80104000 ?s = Ok s' \<and>
    kinv 0x80100000 s' (rev (page_seq (PGROUNDUP 0x80101001) (unat (0x80104000 - PGROUNDUP 0x80101001) div 4096)))"
    by (rule kinit1_free_list) (simp_all add: r KERNBASE_def V2P_def PHYSTOP_def)
  then show ?thesis unfolding r n .
qed


definition sample_kmem :: kmem where
  "sample_kmem = \<lparr>kmem_bytes = \<lambda>a. if a = 0x80400001 then 0x10 else if a = 0x80400002 then 0x40
     else if a = 0x80400003 then 0x80 else 0, use_lock = True, freelist = 0x80400000\<rparr>"

lemma sample_kinv: "kinv 0x80100000 sample_kmem [0x80400000, 0x80401000]"
  by (simp add: kinv_def sample_kmem_def load32_def bytes_u32_def page_ok_def PGSIZE_def V2P_def
      KERNBASE_def PHYSTOP_def)


end
