(* ===== verification/Vm.thy ===== *)
theory Vm
  imports Kalloc
begin

text \<open>
  Virtual memory (\<^verbatim>\<open>vm.c\<close>). Page directories and page tables are pages of the memory that the page
  allocator hands out: an entry is a 32-bit word at an address, and a page table pointer is the
  address of a page. \<open>kend\<close> and \<open>kdata\<close> are the linker symbols \<^verbatim>\<open>end\<close> and \<^verbatim>\<open>data\<close>. Loops over
  addresses carry fuel; \<open>max_pages\<close> exceeds the number of pages of the address space.
  The segment registers and \<^verbatim>\<open>lcr3\<close> are hardware and not part of the state.
\<close>

unbundle bit_operations_syntax

definition PTE_P :: uint where "PTE_P = 1"
definition PTE_W :: uint where "PTE_W = 2"
definition PTE_U :: uint where "PTE_U = 4"
definition EXTMEM :: uint where "EXTMEM = 0x100000"
definition DEVSPACE :: uint where "DEVSPACE = 0xFE000000"
definition KERNLINK :: uint where "KERNLINK = KERNBASE + EXTMEM"

definition PDX :: "uint \<Rightarrow> uint" where "PDX va = drop_bit 22 va AND 0x3FF"
definition PTX :: "uint \<Rightarrow> uint" where "PTX va = drop_bit 12 va AND 0x3FF"
definition PGADDR :: "uint \<Rightarrow> uint \<Rightarrow> uint \<Rightarrow> uint" where
  "PGADDR d t f = push_bit 22 d OR push_bit 12 t OR f"
definition PTE_ADDR :: "uint \<Rightarrow> uint" where "PTE_ADDR pte = pte AND NOT 0xFFF"
definition PTE_FLAGS :: "uint \<Rightarrow> uint" where "PTE_FLAGS pte = pte AND 0xFFF"

definition put32 :: "uint \<Rightarrow> uint \<Rightarrow> 'a kmem_scheme \<Rightarrow> 'a kmem_scheme" where
  "put32 a w s = s\<lparr>kmem_bytes := store32 a w (kmem_bytes s)\<rparr>"

definition get32 :: "uint \<Rightarrow> 'a kmem_scheme \<Rightarrow> uint" where
  "get32 a s = load32 (kmem_bytes s) a"

definition zero_page :: "uint \<Rightarrow> 'a kmem_scheme \<Rightarrow> 'a kmem_scheme" where
  "zero_page p s = s\<lparr>kmem_bytes := memset p 0 PGSIZE (kmem_bytes s)\<rparr>"

text \<open>The address of the page table entry, or 0.\<close>

definition walkpgdir :: "uint \<Rightarrow> uint \<Rightarrow> bool \<Rightarrow> 'a kmem_scheme \<Rightarrow> uint \<times> 'a kmem_scheme" where
  "walkpgdir pgdir va alloc s =
     (let pde = pgdir + 4 * PDX va in
      if get32 pde s AND PTE_P \<noteq> 0 then (P2V (PTE_ADDR (get32 pde s)) + 4 * PTX va, s)
      else if \<not> alloc then (0, s)
      else let (pgtab, s) = kalloc s in
        if pgtab = 0 then (0, s)
        else let s = put32 pde (V2P pgtab OR PTE_P OR PTE_W OR PTE_U) (zero_page pgtab s)
          in (pgtab + 4 * PTX va, s))"

fun mappages_loop :: "nat \<Rightarrow> uint \<Rightarrow> uint \<Rightarrow> uint \<Rightarrow> uint \<Rightarrow> uint \<Rightarrow> 'a kmem_scheme \<Rightarrow> (int \<times> 'a kmem_scheme) outcome" where
  "mappages_loop 0 pgdir a lst pa perm s = Diverge"
| "mappages_loop (Suc n) pgdir a lst pa perm s =
     (let (pte, s) = walkpgdir pgdir a True s in
      if pte = 0 then Ok (- 1, s)
      else if get32 pte s AND PTE_P \<noteq> 0 then Panic ''remap''
      else let s = put32 pte (pa OR perm OR PTE_P) s in
        if a = lst then Ok (0, s)
        else mappages_loop n pgdir (a + PGSIZE) lst (pa + PGSIZE) perm s)"

definition mappages :: "uint \<Rightarrow> uint \<Rightarrow> uint \<Rightarrow> uint \<Rightarrow> uint \<Rightarrow> 'a kmem_scheme \<Rightarrow> (int \<times> 'a kmem_scheme) outcome" where
  "mappages pgdir va sz pa perm s =
     mappages_loop max_pages pgdir (PGROUNDDOWN va) (PGROUNDDOWN (va + sz - 1)) pa perm s"

fun dealloc_loop :: "nat \<Rightarrow> uint \<Rightarrow> uint \<Rightarrow> uint \<Rightarrow> uint \<Rightarrow> 'a kmem_scheme \<Rightarrow> 'a kmem_scheme outcome" where
  "dealloc_loop 0 kend pgdir oldsz a s = Diverge"
| "dealloc_loop (Suc n) kend pgdir oldsz a s =
     (if a < oldsz then
        let (pte, s) = walkpgdir pgdir a False s in
        if pte = 0 then dealloc_loop n kend pgdir oldsz (PGADDR (PDX a + 1) 0 0 - PGSIZE + PGSIZE) s
        else if get32 pte s AND PTE_P \<noteq> 0 then
          let pa = PTE_ADDR (get32 pte s) in
          if pa = 0 then Panic ''kfree''
          else obind (kfree kend (P2V pa) s) (\<lambda>s. dealloc_loop n kend pgdir oldsz (a + PGSIZE) (put32 pte 0 s))
        else dealloc_loop n kend pgdir oldsz (a + PGSIZE) s
      else Ok s)"

definition deallocuvm :: "uint \<Rightarrow> uint \<Rightarrow> uint \<Rightarrow> uint \<Rightarrow> 'a kmem_scheme \<Rightarrow> (uint \<times> 'a kmem_scheme) outcome" where
  "deallocuvm kend pgdir oldsz newsz s =
     (if oldsz \<le> newsz then Ok (oldsz, s)
      else obind (dealloc_loop max_pages kend pgdir oldsz (PGROUNDUP newsz) s) (\<lambda>s. Ok (newsz, s)))"

definition free_table :: "uint \<Rightarrow> uint \<Rightarrow> nat \<Rightarrow> 'a kmem_scheme \<Rightarrow> 'a kmem_scheme outcome" where
  "free_table kend pgdir i s =
     (let pde = get32 (pgdir + 4 * of_nat i) s in
      if pde AND PTE_P \<noteq> 0 then kfree kend (P2V (PTE_ADDR pde)) s else Ok s)"

definition freevm :: "uint \<Rightarrow> uint \<Rightarrow> 'a kmem_scheme \<Rightarrow> 'a kmem_scheme outcome" where
  "freevm kend pgdir s =
     (if pgdir = 0 then Panic ''freevm: no pgdir''
      else obind (deallocuvm kend pgdir KERNBASE 0 s) (\<lambda>(_, s).
           obind (ofold (free_table kend pgdir) [0..<1024] s) (kfree kend pgdir)))"

definition kmap :: "uint \<Rightarrow> (uint \<times> uint \<times> uint \<times> uint) list" where
  "kmap kdata =
     [(KERNBASE, 0, EXTMEM, PTE_W),
      (KERNLINK, V2P KERNLINK, V2P kdata, 0),
      (kdata, V2P kdata, PHYSTOP, PTE_W),
      (DEVSPACE, DEVSPACE, 0, PTE_W)]"

fun map_kernel :: "(uint \<times> uint \<times> uint \<times> uint) list \<Rightarrow> uint \<Rightarrow> uint \<Rightarrow> 'a kmem_scheme \<Rightarrow> (uint \<times> 'a kmem_scheme) outcome" where
  "map_kernel [] kend pgdir s = Ok (pgdir, s)"
| "map_kernel ((virt, start, stop, perm) # ks) kend pgdir s =
     obind (mappages pgdir virt (stop - start) start perm s) (\<lambda>(r, s).
     if r < 0 then obind (freevm kend pgdir s) (\<lambda>s. Ok (0, s)) else map_kernel ks kend pgdir s)"

definition setupkvm :: "uint \<Rightarrow> uint \<Rightarrow> 'a kmem_scheme \<Rightarrow> (uint \<times> 'a kmem_scheme) outcome" where
  "setupkvm kend kdata s =
     (let (pgdir, s) = kalloc s in
      if pgdir = 0 then Ok (0, s)
      else let s = zero_page pgdir s in
        if DEVSPACE < P2V PHYSTOP then Panic ''PHYSTOP too high''
        else map_kernel (kmap kdata) kend pgdir s)"

definition inituvm :: "uint \<Rightarrow> uint \<Rightarrow> uint \<Rightarrow> 'a kmem_scheme \<Rightarrow> 'a kmem_scheme outcome" where
  "inituvm pgdir init sz s =
     (if PGSIZE \<le> sz then Panic ''inituvm: more than a page''
      else let (m, s) = kalloc s; s = zero_page m s in
        obind (mappages pgdir 0 PGSIZE (V2P m) (PTE_W OR PTE_U) s) (\<lambda>(_, s).
        Ok (s\<lparr>kmem_bytes := memmove m init sz (kmem_bytes s)\<rparr>)))"

fun alloc_loop :: "nat \<Rightarrow> uint \<Rightarrow> uint \<Rightarrow> uint \<Rightarrow> uint \<Rightarrow> uint \<Rightarrow> 'a kmem_scheme \<Rightarrow> (uint \<times> 'a kmem_scheme) outcome" where
  "alloc_loop 0 kend pgdir oldsz newsz a s = Diverge"
| "alloc_loop (Suc n) kend pgdir oldsz newsz a s =
     (if a < newsz then
        let (m, s) = kalloc s in
        if m = 0 then obind (deallocuvm kend pgdir newsz oldsz s) (\<lambda>(_, s). Ok (0, s))
        else obind (mappages pgdir a PGSIZE (V2P m) (PTE_W OR PTE_U) (zero_page m s)) (\<lambda>(r, s).
          if r < 0 then obind (deallocuvm kend pgdir newsz oldsz s) (\<lambda>(_, s).
                        obind (kfree kend m s) (\<lambda>s. Ok (0, s)))
          else alloc_loop n kend pgdir oldsz newsz (a + PGSIZE) s)
      else Ok (newsz, s))"

definition allocuvm :: "uint \<Rightarrow> uint \<Rightarrow> uint \<Rightarrow> uint \<Rightarrow> 'a kmem_scheme \<Rightarrow> (uint \<times> 'a kmem_scheme) outcome" where
  "allocuvm kend pgdir oldsz newsz s =
     (if KERNBASE \<le> newsz then Ok (0, s)
      else if newsz < oldsz then Ok (oldsz, s)
      else alloc_loop max_pages kend pgdir oldsz newsz (PGROUNDUP oldsz) s)"

definition clearpteu :: "uint \<Rightarrow> uint \<Rightarrow> 'a kmem_scheme \<Rightarrow> 'a kmem_scheme outcome" where
  "clearpteu pgdir uva s =
     (let (pte, s) = walkpgdir pgdir uva False s in
      if pte = 0 then Panic ''clearpteu'' else Ok (put32 pte (get32 pte s AND NOT PTE_U) s))"

fun copyuvm_loop :: "nat \<Rightarrow> uint \<Rightarrow> uint \<Rightarrow> uint \<Rightarrow> uint \<Rightarrow> uint \<Rightarrow> 'a kmem_scheme \<Rightarrow> (uint \<times> 'a kmem_scheme) outcome" where
  "copyuvm_loop 0 kend pgdir sz d i s = Diverge"
| "copyuvm_loop (Suc n) kend pgdir sz d i s =
     (if i < sz then
        let (pte, s) = walkpgdir pgdir i False s in
        if pte = 0 then Panic ''copyuvm: pte should exist''
        else if get32 pte s AND PTE_P = 0 then Panic ''copyuvm: page not present''
        else let pa = PTE_ADDR (get32 pte s); flags = PTE_FLAGS (get32 pte s); (m, s) = kalloc s in
          if m = 0 then obind (freevm kend d s) (\<lambda>s. Ok (0, s))
          else let s = s\<lparr>kmem_bytes := memmove m (P2V pa) PGSIZE (kmem_bytes s)\<rparr> in
            obind (mappages d i PGSIZE (V2P m) flags s) (\<lambda>(r, s).
            if r < 0 then obind (kfree kend m s) (\<lambda>s. obind (freevm kend d s) (\<lambda>s. Ok (0, s)))
            else copyuvm_loop n kend pgdir sz d (i + PGSIZE) s)
      else Ok (d, s))"

definition copyuvm :: "uint \<Rightarrow> uint \<Rightarrow> uint \<Rightarrow> uint \<Rightarrow> 'a kmem_scheme \<Rightarrow> (uint \<times> 'a kmem_scheme) outcome" where
  "copyuvm kend kdata pgdir sz s =
     obind (setupkvm kend kdata s) (\<lambda>(d, s).
     if d = 0 then Ok (0, s) else copyuvm_loop max_pages kend pgdir sz d 0 s)"

text \<open>\<open>uva2ka\<close> reads the entry that \<open>walkpgdir\<close> returns without testing for the null pointer.\<close>

definition uva2ka :: "uint \<Rightarrow> uint \<Rightarrow> 'a kmem_scheme \<Rightarrow> uint outcome" where
  "uva2ka pgdir uva s =
     (let (pte, _) = walkpgdir pgdir uva False s in
      if pte = 0 then Undef
      else if get32 pte s AND PTE_P = 0 then Ok 0
      else if get32 pte s AND PTE_U = 0 then Ok 0
      else Ok (P2V (PTE_ADDR (get32 pte s))))"

text \<open>The source of \<open>copyout\<close> is a buffer, given by its bytes; \<open>poke\<close> stores bytes at an address.\<close>

fun poke :: "uint \<Rightarrow> byte list \<Rightarrow> mem \<Rightarrow> mem" where
  "poke a [] m = m"
| "poke a (c # cs) m = poke (a + 1) cs (m(a := c))"

fun copyout_loop :: "nat \<Rightarrow> uint \<Rightarrow> uint \<Rightarrow> byte list \<Rightarrow> 'a kmem_scheme \<Rightarrow> (int \<times> 'a kmem_scheme) outcome" where
  "copyout_loop 0 pgdir va buf s = (if buf = [] then Ok (0, s) else Diverge)"
| "copyout_loop (Suc k) pgdir va buf s =
     (if buf = [] then Ok (0, s)
      else let va0 = PGROUNDDOWN va in
        obind (uva2ka pgdir va0 s) (\<lambda>pa0.
        if pa0 = 0 then Ok (- 1, s)
        else let n = min (unat (PGSIZE - (va - va0))) (length buf);
                 s = s\<lparr>kmem_bytes := poke (pa0 + (va - va0)) (take n buf) (kmem_bytes s)\<rparr>
             in copyout_loop k pgdir (va0 + PGSIZE) (drop n buf) s))"

definition copyout :: "uint \<Rightarrow> uint \<Rightarrow> byte list \<Rightarrow> 'a kmem_scheme \<Rightarrow> (int \<times> 'a kmem_scheme) outcome" where
  "copyout pgdir va buf s = copyout_loop (length buf) pgdir va buf s"

end
