(* ===== verification/Spinlock.thy ===== *)
theory Spinlock
  imports Kalloc
begin

text \<open>
  Spin locks and the interrupt-disable nesting (\<^verbatim>\<open>spinlock.c\<close>). Each processor has its interrupt
  flag and the fields \<^verbatim>\<open>ncli\<close> and \<^verbatim>\<open>intena\<close> of \<^verbatim>\<open>struct cpu\<close>; a lock has the word
  that \<^verbatim>\<open>xchg\<close> tests and the processor recorded as its holder. \<open>acquire\<close> and \<open>release\<close> are cut
  at the points where another processor can observe the lock, so that \<open>lock_step\<close> interleaves them.
\<close>

record cpu =
  if_flag :: bool      \<comment> \<open>FL_IF of the flags register\<close>
  ncli :: int
  intena :: bool

record spinlock =
  locked :: bool
  lk_cpu :: "nat option"

record spin =
  cpus :: "nat \<Rightarrow> cpu"
  locks :: "nat \<Rightarrow> spinlock"

definition initlock :: "nat \<Rightarrow> spin \<Rightarrow> spin" where
  "initlock l s = s\<lparr>locks := (locks s)(l := \<lparr>locked = False, lk_cpu = None\<rparr>)\<rparr>"

definition pushcli :: "nat \<Rightarrow> spin \<Rightarrow> spin" where
  "pushcli c s =
     (let k = cpus s c; eflags = if_flag k; k = k\<lparr>if_flag := False\<rparr>;
          k = (if ncli k = 0 then k\<lparr>intena := eflags\<rparr> else k)
      in s\<lparr>cpus := (cpus s)(c := k\<lparr>ncli := ncli k + 1\<rparr>)\<rparr>)"

definition popcli :: "nat \<Rightarrow> spin \<Rightarrow> spin outcome" where
  "popcli c s =
     (let k = cpus s c in
      if if_flag k then Panic ''popcli - interruptible''
      else let k = k\<lparr>ncli := ncli k - 1\<rparr> in
        if ncli k < 0 then Panic ''popcli''
        else let k = (if ncli k = 0 \<and> intena k then k\<lparr>if_flag := True\<rparr> else k)
          in Ok (s\<lparr>cpus := (cpus s)(c := k)\<rparr>))"

definition holding :: "nat \<Rightarrow> nat \<Rightarrow> spin \<Rightarrow> (bool \<times> spin) outcome" where
  "holding c l s =
     (let s = pushcli c s; r = locked (locks s l) \<and> lk_cpu (locks s l) = Some c
      in obind (popcli c s) (\<lambda>s. Ok (r, s)))"

text \<open>\<open>acquire\<close>: up to the loop, one round of the loop (\<^verbatim>\<open>xchg\<close> stores 1 and returns the old word),
  and the recording of the holder.\<close>

definition acquire_enter :: "nat \<Rightarrow> nat \<Rightarrow> spin \<Rightarrow> spin outcome" where
  "acquire_enter c l s =
     obind (holding c l (pushcli c s)) (\<lambda>(r, s). if r then Panic ''acquire'' else Ok s)"

definition acquire_xchg :: "nat \<Rightarrow> spin \<Rightarrow> bool \<times> spin" where
  "acquire_xchg l s = (locked (locks s l), s\<lparr>locks := (locks s)(l := (locks s l)\<lparr>locked := True\<rparr>)\<rparr>)"

definition acquire_record :: "nat \<Rightarrow> nat \<Rightarrow> spin \<Rightarrow> spin" where
  "acquire_record c l s = s\<lparr>locks := (locks s)(l := (locks s l)\<lparr>lk_cpu := Some c\<rparr>)\<rparr>"

definition release_enter :: "nat \<Rightarrow> nat \<Rightarrow> spin \<Rightarrow> spin outcome" where
  "release_enter c l s =
     obind (holding c l s) (\<lambda>(r, s).
     if \<not> r then Panic ''release'' else Ok (s\<lparr>locks := (locks s)(l := (locks s l)\<lparr>lk_cpu := None\<rparr>)\<rparr>))"

definition release_store :: "nat \<Rightarrow> spin \<Rightarrow> spin" where
  "release_store l s = s\<lparr>locks := (locks s)(l := (locks s l)\<lparr>locked := False\<rparr>)\<rparr>"

text \<open>The call stack recorded with a lock: at most ten return addresses along the frame pointers.\<close>

fun getcallerpcs_loop :: "nat \<Rightarrow> mem \<Rightarrow> uint \<Rightarrow> uint list" where
  "getcallerpcs_loop 0 m ebp = []"
| "getcallerpcs_loop (Suc n) m ebp =
     (if ebp = 0 \<or> ebp < KERNBASE \<or> ebp = 0xffffffff then replicate (Suc n) 0
      else load32 m (ebp + 4) # getcallerpcs_loop n m (load32 m ebp))"

definition getcallerpcs :: "mem \<Rightarrow> uint \<Rightarrow> uint list" where
  "getcallerpcs m v = getcallerpcs_loop 10 m (v - 8)"

section \<open>Interrupt nesting\<close>

definition cli_ok :: "cpu \<Rightarrow> bool" where
  "cli_ok k \<longleftrightarrow> 0 \<le> ncli k \<and> (0 < ncli k \<longrightarrow> \<not> if_flag k)"

lemma pushcli_popcli:
  assumes "cli_ok (cpus s c)"
  shows "\<exists>k. popcli c (pushcli c s) = Ok (s\<lparr>cpus := (cpus s)(c := k)\<rparr>) \<and>
    if_flag k = if_flag (cpus s c) \<and> ncli k = ncli (cpus s c) \<and> cli_ok k \<and>
    (0 < ncli k \<longrightarrow> intena k = intena (cpus s c))"
  using assms by (auto simp: popcli_def pushcli_def Let_def cli_ok_def)

lemma pushcli_cli_ok: "cli_ok (cpus s c) \<Longrightarrow> cli_ok (cpus (pushcli c s) c) \<and> 0 < ncli (cpus (pushcli c s) c)"
  by (simp add: pushcli_def cli_ok_def Let_def)

lemma pushcli_locks [simp]: "locks (pushcli c s) = locks s"
  by (simp add: pushcli_def Let_def)

lemma pushcli_other [simp]: "d \<noteq> c \<Longrightarrow> cpus (pushcli c s) d = cpus s d"
  by (simp add: pushcli_def Let_def)

lemma popcli_frame:
  assumes "popcli c s = Ok s'"
  shows "locks s' = locks s" and "d \<noteq> c \<Longrightarrow> cpus s' d = cpus s d"
    and "cli_ok (cpus s c) \<Longrightarrow> cli_ok (cpus s' c)" and "ncli (cpus s' c) = ncli (cpus s c) - 1"
  using assms by (auto simp: popcli_def cli_ok_def Let_def split: if_splits)

lemma holding_ok:
  assumes "cli_ok (cpus s c)"
  shows "\<exists>s'. holding c l s = Ok (locked (locks s l) \<and> lk_cpu (locks s l) = Some c, s') \<and> locks s' = locks s \<and>
    cli_ok (cpus s' c) \<and> ncli (cpus s' c) = ncli (cpus s c) \<and> (\<forall>d. d \<noteq> c \<longrightarrow> cpus s' d = cpus s d)"
proof -
  obtain k where "popcli c (pushcli c s) = Ok (s\<lparr>cpus := (cpus s)(c := k)\<rparr>)" "ncli k = ncli (cpus s c)" "cli_ok k"
    using pushcli_popcli [OF assms] by blast
  then show ?thesis by (simp add: holding_def Let_def)
qed

text \<open>A nested run of \<open>pushcli\<close> and as many \<open>popcli\<close>.\<close>

fun pushes :: "nat \<Rightarrow> nat \<Rightarrow> spin \<Rightarrow> spin" where
  "pushes c 0 s = s"
| "pushes c (Suc n) s = pushes c n (pushcli c s)"

fun pops :: "nat \<Rightarrow> nat \<Rightarrow> spin \<Rightarrow> spin outcome" where
  "pops c 0 s = Ok s"
| "pops c (Suc n) s = obind (popcli c s) (pops c n)"

lemma pops_append: "pops c (n + m) s = obind (pops c n s) (pops c m)"
  by (induction n arbitrary: s) (simp_all add: obind_assoc, metis obind_cong)

section \<open>Interleaving processors\<close>

datatype lpc = Running | Spinning nat | Acquired nat | Releasing nat

inductive lock_step :: "spin \<times> (nat \<Rightarrow> lpc) \<times> (nat \<times> nat) set \<Rightarrow> spin \<times> (nat \<Rightarrow> lpc) \<times> (nat \<times> nat) set \<Rightarrow> bool" where
  l_enter: "pc c = Running \<Longrightarrow> acquire_enter c l s = Ok s' \<Longrightarrow>
    lock_step (s, pc, crit) (s', pc(c := Spinning l), crit)"
| l_spin: "pc c = Spinning l \<Longrightarrow> acquire_xchg l s = (True, s') \<Longrightarrow> lock_step (s, pc, crit) (s', pc, crit)"
| l_win: "pc c = Spinning l \<Longrightarrow> acquire_xchg l s = (False, s') \<Longrightarrow>
    lock_step (s, pc, crit) (s', pc(c := Acquired l), crit)"
| l_record: "pc c = Acquired l \<Longrightarrow>
    lock_step (s, pc, crit) (acquire_record c l s, pc(c := Running), insert (c, l) crit)"
| l_leave: "pc c = Running \<Longrightarrow> release_enter c l s = Ok s' \<Longrightarrow>
    lock_step (s, pc, crit) (s', pc(c := Releasing l), crit - {(c, l)})"
| l_store: "pc c = Releasing l \<Longrightarrow> popcli c (release_store l s) = Ok s' \<Longrightarrow>
    lock_step (s, pc, crit) (s', pc(c := Running), crit)"

text \<open>Who has a lock: a processor inside its critical section, or about to enter or leave it.\<close>

definition owner :: "(nat \<Rightarrow> lpc) \<Rightarrow> (nat \<times> nat) set \<Rightarrow> nat \<Rightarrow> nat \<Rightarrow> bool" where
  "owner pc crit c l \<longleftrightarrow> (c, l) \<in> crit \<or> pc c = Acquired l \<or> pc c = Releasing l"

definition lock_inv :: "spin \<times> (nat \<Rightarrow> lpc) \<times> (nat \<times> nat) set \<Rightarrow> bool" where
  "lock_inv = (\<lambda>(s, pc, crit). (\<forall>c. cli_ok (cpus s c)) \<and>
     (\<forall>c l. owner pc crit c l \<longrightarrow> locked (locks s l)) \<and>
     (\<forall>c d l. owner pc crit c l \<longrightarrow> owner pc crit d l \<longrightarrow> c = d) \<and>
     (\<forall>c l. (c, l) \<in> crit \<longleftrightarrow> lk_cpu (locks s l) = Some c) \<and>
     (\<forall>c l. pc c = Acquired l \<or> pc c = Releasing l \<longrightarrow> (c, l) \<notin> crit))"

lemma acquire_enter_frame:
  assumes "cli_ok (cpus s c)" and "acquire_enter c l s = Ok s'"
  shows "locks s' = locks s" and "cli_ok (cpus s' c)" and "\<forall>d. d \<noteq> c \<longrightarrow> cpus s' d = cpus s d"
    and "\<not> (locked (locks s l) \<and> lk_cpu (locks s l) = Some c)"
proof -
  have "cli_ok (cpus (pushcli c s) c)" using pushcli_cli_ok [OF assms(1)] by blast
  from holding_ok [OF this, of l] assms(2)
  show "locks s' = locks s" "cli_ok (cpus s' c)" "\<forall>d. d \<noteq> c \<longrightarrow> cpus s' d = cpus s d"
    "\<not> (locked (locks s l) \<and> lk_cpu (locks s l) = Some c)"
    by (auto simp: acquire_enter_def split: if_splits)
qed

lemma release_enter_frame:
  assumes "cli_ok (cpus s c)" and "release_enter c l s = Ok s'"
  shows "locks s' = (locks s)(l := (locks s l)\<lparr>lk_cpu := None\<rparr>)" and "cli_ok (cpus s' c)"
    and "\<forall>d. d \<noteq> c \<longrightarrow> cpus s' d = cpus s d" and "locked (locks s l)" and "lk_cpu (locks s l) = Some c"
  using holding_ok [OF assms(1), of l] assms(2) by (auto simp: release_enter_def split: if_splits)

lemma lock_inv_step:
  assumes "lock_step x y" and "lock_inv x"
  shows "lock_inv y"
  using assms
proof (cases rule: lock_step.cases)
  case (l_enter pc c l s s' crit)
  have inv: "lock_inv (s, pc, crit)" using assms(2) l_enter(1) by simp
  then have "cli_ok (cpus s c)" by (simp add: lock_inv_def)
  note f = acquire_enter_frame [OF this l_enter(4)]
  have "cli_ok (cpus s' d)" for d using f(2,3) inv by (cases "d = c") (auto simp: lock_inv_def)
  moreover have "owner (pc(c := Spinning l)) crit d k = owner pc crit d k" for d k
    using l_enter(3) by (auto simp: owner_def)
  ultimately show ?thesis using inv l_enter(3) unfolding l_enter(2) lock_inv_def by (auto simp: f(1))
next
  case (l_spin pc c l s s' crit)
  then have "s' = s" by (cases s; cases "locks s l") (auto simp: acquire_xchg_def fun_upd_idem)
  then show ?thesis using l_spin(1,2) assms(2) by simp
next
  case (l_win pc c l s s' crit)
  have inv: "lock_inv (s, pc, crit)" using assms(2) l_win(1) by simp
  have nl: "\<not> locked (locks s l)" and s': "s' = s\<lparr>locks := (locks s)(l := (locks s l)\<lparr>locked := True\<rparr>)\<rparr>"
    using l_win(4) by (auto simp: acquire_xchg_def)
  have no: "\<not> owner pc crit d l" for d using inv nl unfolding lock_inv_def by blast
  have ow: "owner (pc(c := Acquired l)) crit d k \<longleftrightarrow> (if k = l then d = c else owner pc crit d k)" for d k
    using no [of d] l_win(3) by (auto simp: owner_def)
  have "(d, l) \<notin> crit" for d using no [of d] by (simp add: owner_def)
  then show ?thesis using inv unfolding l_win(2) lock_inv_def s' by (auto simp: ow split: if_splits)
next
  case (l_record pc c l s crit)
  have inv: "lock_inv (s, pc, crit)" using assms(2) l_record(1) by simp
  have cl: "owner pc crit c l" using l_record(3) by (simp add: owner_def)
  have un: "owner pc crit d l \<Longrightarrow> d = c" for d using inv cl unfolding lock_inv_def by blast
  have "(c, l) \<notin> crit" using inv l_record(3) unfolding lock_inv_def by blast
  then have no: "(d, l) \<notin> crit" for d using un [of d] by (auto simp: owner_def)
  have ow: "owner (pc(c := Running)) (insert (c, l) crit) d k = owner pc crit d k" for d k
    using l_record(3) by (auto simp: owner_def)
  have "pc d \<noteq> Acquired l \<and> pc d \<noteq> Releasing l" if "d \<noteq> c" for d
    using un [of d] that by (auto simp: owner_def)
  then show ?thesis using inv no unfolding l_record(2) lock_inv_def prod.case ow acquire_record_def by auto
next
  case (l_leave pc c l s s' crit)
  have inv: "lock_inv (s, pc, crit)" using assms(2) l_leave(1) by simp
  then have "cli_ok (cpus s c)" by (simp add: lock_inv_def)
  note f = release_enter_frame [OF this l_leave(4)]
  have cl: "(c, l) \<in> crit" using inv f(5) by (simp add: lock_inv_def)
  have ow: "owner (pc(c := Releasing l)) (crit - {(c, l)}) d k = owner pc crit d k" for d k
    using l_leave(3) cl by (auto simp: owner_def)
  have cli: "cli_ok (cpus s' d)" for d using f(2,3) inv by (cases "d = c") (auto simp: lock_inv_def)
  have "owner pc crit c l" using cl by (simp add: owner_def)
  then have un: "owner pc crit d l \<Longrightarrow> d = c" for d using inv unfolding lock_inv_def by blast
  then have crit: "(d, k) \<in> crit - {(c, l)} \<longleftrightarrow> lk_cpu (locks s' k) = Some d" for d k
    using inv by (cases "k = l") (auto simp: f(1) owner_def lock_inv_def)
  have own: "owner pc crit d k \<Longrightarrow> locked (locks s' k)" for d k using inv by (auto simp: f(1) lock_inv_def)
  have pcs: "(pc(c := Releasing l)) d = Acquired k \<or> (pc(c := Releasing l)) d = Releasing k \<Longrightarrow>
      (d, k) \<notin> crit - {(c, l)}" for d k
    using inv unfolding lock_inv_def by (auto split: if_splits)
  show ?thesis
    unfolding l_leave(2) lock_inv_def prod.case ow
    using inv cli own crit pcs unfolding lock_inv_def by blast
next
  case (l_store pc c l s s' crit)
  have inv: "lock_inv (s, pc, crit)" using assms(2) l_store(1) by simp
  have s': "locks s' = (locks s)(l := (locks s l)\<lparr>locked := False\<rparr>)"
    using popcli_frame(1) [OF l_store(4)] by (simp add: release_store_def)
  have "cli_ok (cpus s c)" using inv by (simp add: lock_inv_def)
  then have "cli_ok (cpus s' c)" using popcli_frame(3) [OF l_store(4)] by (simp add: release_store_def)
  moreover have "cpus s' d = cpus s d" if "d \<noteq> c" for d
    using popcli_frame(2) [OF l_store(4) that] by (simp add: release_store_def)
  ultimately have cli: "cli_ok (cpus s' d)" for d using inv by (cases "d = c") (auto simp: lock_inv_def)
  have o: "owner pc crit c l" using l_store(3) by (simp add: owner_def)
  have "(c, l) \<notin> crit" using inv l_store(3) unfolding lock_inv_def by blast
  note cl = o this
  have ow: "owner (pc(c := Running)) crit d k \<longleftrightarrow> owner pc crit d k \<and> k \<noteq> l" for d k
  proof (cases "k = l")
    case True
    have "\<not> owner (pc(c := Running)) crit d l"
    proof
      assume o: "owner (pc(c := Running)) crit d l"
      then have "owner pc crit d l" by (auto simp: owner_def split: if_splits)
      then have "d = c" using inv cl(1) unfolding lock_inv_def by blast
      with o cl(2) show False by (simp add: owner_def)
    qed
    with True show ?thesis by simp
  next
    case False
    then show ?thesis using l_store(3) by (auto simp: owner_def)
  qed
  have own: "owner pc crit d k \<and> k \<noteq> l \<Longrightarrow> locked (locks s' k)" for d k using inv by (auto simp: s' lock_inv_def)
  have lk: "lk_cpu (locks s' k) = lk_cpu (locks s k)" for k by (simp add: s')
  have pcs: "(pc(c := Running)) d = Acquired k \<or> (pc(c := Running)) d = Releasing k \<Longrightarrow> (d, k) \<notin> crit" for d k
    using inv unfolding lock_inv_def by (auto split: if_splits)
  show ?thesis
    unfolding l_store(2) lock_inv_def prod.case ow lk
    using inv cli own pcs unfolding lock_inv_def by blast
qed

lemma lock_inv_reachable: "lock_step\<^sup>*\<^sup>* x y \<Longrightarrow> lock_inv x \<Longrightarrow> lock_inv y"
  by (induction rule: rtranclp_induct) (simp_all add: lock_inv_step)

lemma pushes_pops:
  assumes "cli_ok (cpus s c)"
  shows "\<exists>s'. pops c n (pushes c n s) = Ok s' \<and> if_flag (cpus s' c) = if_flag (cpus s c) \<and>
    ncli (cpus s' c) = ncli (cpus s c) \<and> cli_ok (cpus s' c) \<and> locks s' = locks s \<and>
    (0 < ncli (cpus s c) \<longrightarrow> intena (cpus s' c) = intena (cpus s c))"
  using assms
proof (induction n arbitrary: s)
  case (Suc n)
  let ?t = "pushcli c s"
  have t: "cli_ok (cpus ?t c)" "0 < ncli (cpus ?t c)" using pushcli_cli_ok [OF Suc.prems] by simp_all
  from Suc.IH [OF t(1)] obtain u where
    u: "pops c n (pushes c n ?t) = Ok u" "if_flag (cpus u c) = if_flag (cpus ?t c)" "ncli (cpus u c) = ncli (cpus ?t c)"
      "locks u = locks s" "intena (cpus u c) = intena (cpus ?t c)" using t(2) by auto
  have "\<exists>s'. popcli c u = Ok s' \<and> if_flag (cpus s' c) = if_flag (cpus s c) \<and>
    ncli (cpus s' c) = ncli (cpus s c) \<and> cli_ok (cpus s' c) \<and> locks s' = locks s \<and>
    (0 < ncli (cpus s c) \<longrightarrow> intena (cpus s' c) = intena (cpus s c))"
    using u Suc.prems by (auto simp: popcli_def pushcli_def Let_def cli_ok_def)
  then show ?case using u(1) pops_append [of c n 1 "pushes c n ?t"] by auto
qed auto

section \<open>Properties\<close>

text \<open>C16. Mutual exclusion. Starting from processors outside any lock and free locks, after any interleaving of the
  steps of \<open>acquire\<close> and \<open>release\<close> on any number of processors and locks, two processors that are in the
  critical section of the same lock are the same processor, and the lock records it as its holder.\<close>

theorem spinlock_mutual_exclusion:
  assumes "\<And>c. cli_ok (cpus s0 c)" and "\<And>l. lk_cpu (locks s0 l) = None"
    and "lock_step\<^sup>*\<^sup>* (s0, \<lambda>_. Running, {}) (s, pc, crit)" and "(c, l) \<in> crit"
  shows "locked (locks s l) \<and> lk_cpu (locks s l) = Some c \<and> (\<forall>d. (d, l) \<in> crit \<longrightarrow> d = c)"
proof -
  have "lock_inv (s0, \<lambda>_. Running, {})" using assms(1,2) by (simp add: lock_inv_def owner_def)
  from lock_inv_reachable [OF assms(3) this] assms(4) show ?thesis
    unfolding lock_inv_def by (auto simp: owner_def)
qed

definition sample_spin :: spin where
  "sample_spin = \<lparr>cpus = \<lambda>_. \<lparr>if_flag = True, ncli = 0, intena = False\<rparr>, locks = \<lambda>_. \<lparr>locked = False, lk_cpu = None\<rparr>\<rparr>"

theorem spinlock_mutual_exclusion_witness:
  "\<exists>s pc. lock_step\<^sup>*\<^sup>* (sample_spin, \<lambda>_. Running, {}) (s, pc, {(0, 7)}) \<and> lk_cpu (locks s 7) = Some 0"
proof -
  have ok: "\<And>c. cli_ok (cpus sample_spin c)" "\<And>l. lk_cpu (locks sample_spin l) = None"
    by (simp_all add: sample_spin_def cli_ok_def)
  have "\<exists>s. acquire_enter 0 7 sample_spin = Ok s"
    by (simp add: acquire_enter_def holding_def pushcli_def popcli_def sample_spin_def Let_def)
  then obtain s where s: "acquire_enter 0 7 sample_spin = Ok s" ..
  have "\<not> locked (locks s 7)" using acquire_enter_frame(1) [OF ok(1) s] by (simp add: sample_spin_def)
  then obtain t where t: "acquire_xchg 7 s = (False, t)" by (simp add: acquire_xchg_def)
  let ?a = "(sample_spin, \<lambda>_. Running, {})" and ?p = "(\<lambda>_. Running)(0 := Spinning 7)"
  have "lock_step ?a (s, ?p, {})" by (rule l_enter [OF _ s]) simp
  moreover have "lock_step (s, ?p, {}) (t, ?p(0 := Acquired 7), {})" by (rule l_win [OF _ t]) simp
  moreover have "lock_step (t, ?p(0 := Acquired 7), {}) (acquire_record 0 7 t, ?p(0 := Acquired 7, 0 := Running), insert (0, 7) {})"
    by (rule l_record) simp
  ultimately have r: "lock_step\<^sup>*\<^sup>* ?a (acquire_record 0 7 t, ?p(0 := Acquired 7, 0 := Running), {(0, 7)})"
    by (meson rtranclp.rtrancl_into_rtrancl rtranclp.rtrancl_refl)
  from spinlock_mutual_exclusion [OF ok r, of 0 7] r show ?thesis by blast
qed

text \<open>C17. \<open>pushcli\<close> and \<open>popcli\<close> nest: any number of \<open>pushcli\<close> followed by as many \<open>popcli\<close> returns, with the
  interrupt flag and the nesting depth of before.\<close>

theorem cli_nesting_restores:
  assumes "cli_ok (cpus s c)"
  shows "\<exists>s'. pops c n (pushes c n s) = Ok s' \<and> if_flag (cpus s' c) = if_flag (cpus s c) \<and>
    ncli (cpus s' c) = ncli (cpus s c)"
  using pushes_pops [OF assms, of n] by blast

theorem cli_nesting_restores_witness:
  "\<exists>s'. pops 0 3 (pushes 0 3 sample_spin) = Ok s' \<and> if_flag (cpus s' 0)"
  using cli_nesting_restores [of sample_spin 0 3] by (auto simp: sample_spin_def cli_ok_def)

end
