(* ===== verification/Kernel.thy ===== *)
theory Kernel
  imports Fs Console Vm Spinlock
begin

text \<open>
  The state of the kernel that the file table, the process table and the system calls share, and the
  process primitives of \<^verbatim>\<open>proc.c\<close> that do not depend on files: sleep and wakeup, scheduling and kill.
  The state extends the state of the file system. A \<^verbatim>\<open>struct proc *\<close> is an index into the process
  table and \<open>cur\<close> is the process running on this processor. The spin lock \<^verbatim>\<open>ptable.lock\<close> makes
  each of these functions atomic. Of a trap frame the model keeps the fields that the kernel reads
  or sets; a context switch is the change of \<open>cur\<close>.
\<close>

definition NPROC :: nat where "NPROC = 64"
definition NOFILE :: nat where "NOFILE = 16"
definition NFILE :: nat where "NFILE = 100"
definition KSTACKSIZE :: uint where "KSTACKSIZE = 4096"

datatype procstate = UNUSED | EMBRYO | SLEEPING | RUNNABLE | RUNNING | ZOMBIE

text \<open>Sleep channels: the address of a process, of a field of a pipe, or of a named kernel object.\<close>

datatype chan = CProc nat | CPipe uint string | CNamed string

record trapframe =
  tf_eax :: uint
  tf_eip :: uint
  tf_esp :: uint
  tf_cs :: uint
  tf_ds :: uint
  tf_es :: uint
  tf_ss :: uint
  tf_eflags :: uint
  tf_trapno :: uint

record kcontext =
  c_edi :: uint
  c_esi :: uint
  c_ebx :: uint
  c_ebp :: uint
  c_eip :: uint

record proc =
  p_sz :: uint
  p_pgdir :: uint
  p_kstack :: uint
  p_state :: procstate
  p_pid :: int
  p_parent :: "nat option"
  p_tf :: trapframe
  p_context :: kcontext
  p_chan :: "chan option"
  p_killed :: bool
  p_ofile :: "nat option list"
  p_cwd :: "nat option"
  p_name :: "byte list"

datatype ftype = FD_NONE | FD_PIPE | FD_INODE

record file_t =
  f_type :: ftype
  f_ref :: int
  f_readable :: bool
  f_writable :: bool
  f_pipe :: uint
  f_ip :: nat
  f_off :: uint

record kernel = fs +
  ftable :: "file_t list"
  pipes :: "uint \<Rightarrow> pipe"       \<comment> \<open>by the address of their page\<close>
  pmem :: kmem
  ptable :: "proc list"
  initproc :: nat
  nextpid :: int
  cur :: nat
  con :: console
  ticks :: uint

definition pupd :: "nat \<Rightarrow> (proc \<Rightarrow> proc) \<Rightarrow> kernel \<Rightarrow> kernel" where
  "pupd p f s = s\<lparr>ptable := (ptable s)[p := f (ptable s ! p)]\<rparr>"

abbreviation myproc :: "kernel \<Rightarrow> proc" where
  "myproc s \<equiv> ptable s ! cur s"

text \<open>A computation on the page allocator, run inside the kernel.\<close>

definition on_mem :: "(kmem \<Rightarrow> ('r \<times> kmem) outcome) \<Rightarrow> kernel \<Rightarrow> ('r \<times> kernel) outcome" where
  "on_mem f s = obind (f (pmem s)) (\<lambda>(r, m). Ok (r, s\<lparr>pmem := m\<rparr>))"

section \<open>Sleep and wakeup\<close>

definition wake_proc :: "chan \<Rightarrow> proc \<Rightarrow> proc" where
  "wake_proc ch p = (if p_state p = SLEEPING \<and> p_chan p = Some ch then p\<lparr>p_state := RUNNABLE\<rparr> else p)"

definition wakeup1 :: "chan \<Rightarrow> kernel \<Rightarrow> kernel" where
  "wakeup1 ch s = s\<lparr>ptable := map (wake_proc ch) (ptable s)\<rparr>"

definition wakeup :: "chan \<Rightarrow> kernel \<Rightarrow> kernel" where
  "wakeup ch s = wakeup1 ch s"

text \<open>The guards of \<open>sched\<close>, with what the processor knows of the lock and of interrupts.\<close>

definition sched :: "bool \<Rightarrow> cpu \<Rightarrow> kernel \<Rightarrow> kernel outcome" where
  "sched held c s =
     (if \<not> held then Panic ''sched ptable.lock''
      else if ncli c \<noteq> 1 then Panic ''sched locks''
      else if p_state (myproc s) = RUNNING then Panic ''sched running''
      else if if_flag c then Panic ''sched interruptible''
      else Ok s)"

text \<open>A processor inside the section of \<^verbatim>\<open>ptable.lock\<close> and of no other lock.\<close>

definition in_ptable :: cpu where
  "in_ptable = \<lparr>if_flag = False, ncli = 1, intena = True\<rparr>"

definition yield :: "kernel \<Rightarrow> kernel outcome" where
  "yield s = sched True in_ptable (pupd (cur s) (\<lambda>p. p\<lparr>p_state := RUNNABLE\<rparr>) s)"

text \<open>\<open>sleep\<close> up to the switch, and what it does after the process is switched to again.\<close>

definition sleep_enter :: "chan \<Rightarrow> kernel \<Rightarrow> kernel outcome" where
  "sleep_enter ch s =
     sched True in_ptable (pupd (cur s) (\<lambda>p. p\<lparr>p_chan := Some ch, p_state := SLEEPING\<rparr>) s)"

definition sleep_leave :: "kernel \<Rightarrow> kernel" where
  "sleep_leave s = pupd (cur s) (\<lambda>p. p\<lparr>p_chan := None\<rparr>) s"

text \<open>The scheduler at process \<open>p\<close> of its table scan: it switches to a runnable process.\<close>

definition switchuvm :: "nat \<Rightarrow> kernel \<Rightarrow> kernel outcome" where
  "switchuvm p s =
     (if p_kstack (ptable s ! p) = 0 then Panic ''switchuvm: no kstack''
      else if p_pgdir (ptable s ! p) = 0 then Panic ''switchuvm: no pgdir''
      else Ok s)"

definition scheduler_at :: "nat \<Rightarrow> kernel \<Rightarrow> (bool \<times> kernel) outcome" where
  "scheduler_at p s =
     (if p_state (ptable s ! p) \<noteq> RUNNABLE then Ok (False, s)
      else obind (switchuvm p (s\<lparr>cur := p, mypid := p_pid (ptable s ! p)\<rparr>)) (\<lambda>s.
        Ok (True, pupd p (\<lambda>p. p\<lparr>p_state := RUNNING\<rparr>) s)))"

fun scheduler_scan :: "nat list \<Rightarrow> kernel \<Rightarrow> kernel outcome" where
  "scheduler_scan [] s = Ok s"
| "scheduler_scan (p # ps) s =
     obind (scheduler_at p s) (\<lambda>(switched, s). if switched then Ok s else scheduler_scan ps s)"

definition kill :: "int \<Rightarrow> kernel \<Rightarrow> int \<times> kernel" where
  "kill pid s =
     (case find (\<lambda>i. p_pid (ptable s ! i) = pid) [0..<NPROC] of
        None \<Rightarrow> (- 1, s)
      | Some i \<Rightarrow> (0, pupd i (\<lambda>p. let p = p\<lparr>p_killed := True\<rparr> in
          if p_state p = SLEEPING then p\<lparr>p_state := RUNNABLE\<rparr> else p) s))"

section \<open>Listing processes\<close>

definition states :: "procstate \<Rightarrow> byte list" where
  "states st = map (\<lambda>c. of_nat (of_char c)) (case st of
     UNUSED \<Rightarrow> ''unused'' | EMBRYO \<Rightarrow> ''embryo'' | SLEEPING \<Rightarrow> ''sleep ''
   | RUNNABLE \<Rightarrow> ''runble'' | RUNNING \<Rightarrow> ''run   '' | ZOMBIE \<Rightarrow> ''zombie'')"

definition ascii :: "string \<Rightarrow> byte list" where
  "ascii t = map (\<lambda>c. of_nat (of_char c)) t"

definition kprintf :: "string \<Rightarrow> parg list \<Rightarrow> kernel \<Rightarrow> kernel outcome" where
  "kprintf fmt as s = obind (cprintf (Some (ascii fmt)) as (con s)) (\<lambda>c. Ok (s\<lparr>con := c\<rparr>))"

definition procdump_at :: "nat \<Rightarrow> kernel \<Rightarrow> kernel outcome" where
  "procdump_at i s =
     (let p = ptable s ! i in
      if p_state p = UNUSED then Ok s
      else obind (kprintf ''%d %s %s'' [Num (word_of_int (p_pid p)), Str (Some (states (p_state p))), Str (Some (p_name p))] s) (\<lambda>s.
        obind (if p_state p = SLEEPING then
                 ofold (\<lambda>pc. kprintf '' %p'' [Num pc])
                   (takeWhile (\<lambda>pc. pc \<noteq> 0) (getcallerpcs (kmem_bytes (pmem s)) (c_ebp (p_context p) + 8))) s
               else Ok s) (kprintf [CHR 0x0A] [])))"

definition procdump :: "kernel \<Rightarrow> kernel outcome" where
  "procdump s = ofold procdump_at [0..<NPROC] s"

section \<open>User memory\<close>

text \<open>Kernel code uses user addresses directly; the processor translates them by the page table of the
  current process, and an access to a page that is not present is a fault in the kernel.\<close>

definition user_addr :: "uint \<Rightarrow> kernel \<Rightarrow> uint outcome" where
  "user_addr a s =
     (let (pte, _) = walkpgdir (p_pgdir (myproc s)) a False (pmem s) in
      if pte = 0 \<or> get32 pte (pmem s) AND PTE_P = 0 then Panic ''trap''
      else Ok (P2V (PTE_ADDR (get32 pte (pmem s))) + (a AND 0xFFF)))"

definition user_load :: "uint \<Rightarrow> kernel \<Rightarrow> byte outcome" where
  "user_load a s = obind (user_addr a s) (\<lambda>k. Ok (kmem_bytes (pmem s) k))"

definition user_store :: "uint \<Rightarrow> byte \<Rightarrow> kernel \<Rightarrow> kernel outcome" where
  "user_store a c s =
     obind (user_addr a s) (\<lambda>k. Ok (s\<lparr>pmem := (pmem s)\<lparr>kmem_bytes := (kmem_bytes (pmem s))(k := c)\<rparr>\<rparr>))"

fun user_loads :: "nat \<Rightarrow> uint \<Rightarrow> kernel \<Rightarrow> byte list outcome" where
  "user_loads 0 a s = Ok []"
| "user_loads (Suc n) a s = obind (user_load a s) (\<lambda>c. obind (user_loads n (a + 1) s) (\<lambda>cs. Ok (c # cs)))"

fun user_stores :: "byte list \<Rightarrow> uint \<Rightarrow> kernel \<Rightarrow> kernel outcome" where
  "user_stores [] a s = Ok s"
| "user_stores (c # cs) a s = obind (user_store a c s) (user_stores cs (a + 1))"

section \<open>System call arguments\<close>

definition fetchint :: "uint \<Rightarrow> kernel \<Rightarrow> uint option outcome" where
  "fetchint addr s =
     (if p_sz (myproc s) \<le> addr \<or> p_sz (myproc s) < addr + 4 then Ok None
      else obind (user_loads 4 addr s) (\<lambda>bs. Ok (Some (bytes_u32 bs))))"

fun fetchstr_loop :: "nat \<Rightarrow> uint \<Rightarrow> kernel \<Rightarrow> byte list option outcome" where
  "fetchstr_loop 0 a s = Ok None"
| "fetchstr_loop (Suc n) a s =
     obind (user_load a s) (\<lambda>c.
     if c = 0 then Ok (Some [])
     else obind (fetchstr_loop n (a + 1) s) (\<lambda>r. Ok (map_option ((#) c) r)))"

definition fetchstr :: "uint \<Rightarrow> kernel \<Rightarrow> byte list option outcome" where
  "fetchstr addr s =
     (if p_sz (myproc s) \<le> addr then Ok None
      else fetchstr_loop (unat (p_sz (myproc s)) - unat addr) addr s)"

definition argint :: "nat \<Rightarrow> kernel \<Rightarrow> uint option outcome" where
  "argint n s = fetchint (tf_esp (p_tf (myproc s)) + 4 + 4 * of_nat n) s"

definition argptr :: "nat \<Rightarrow> int \<Rightarrow> kernel \<Rightarrow> uint option outcome" where
  "argptr n len s =
     obind (argint n s) (\<lambda>r. case r of None \<Rightarrow> Ok None
     | Some i \<Rightarrow>
         if len < 0 \<or> p_sz (myproc s) \<le> i \<or> p_sz (myproc s) < i + word_of_int len then Ok None else Ok (Some i))"

definition argstr :: "nat \<Rightarrow> kernel \<Rightarrow> byte list option outcome" where
  "argstr n s = obind (argint n s) (\<lambda>r. case r of None \<Rightarrow> Ok None | Some addr \<Rightarrow> fetchstr addr s)"

end
