(* ===== verification/File.thy ===== *)
theory File
  imports Kernel
begin

text \<open>
  The file table (\<^verbatim>\<open>file.c\<close>), the allocation of pipes (\<open>pipealloc\<close> of \<^verbatim>\<open>pipe.c\<close>) and the device
  switch, whose only entry is the console. A \<^verbatim>\<open>struct file *\<close> is an index into the table. A read
  or a write that has to wait reports the channel; the bytes of user buffers are lists. \<open>kend\<close> is the
  linker symbol \<^verbatim>\<open>end\<close>, which \<open>kfree\<close> compares with.
\<close>

definition fupd :: "nat \<Rightarrow> (file_t \<Rightarrow> file_t) \<Rightarrow> kernel \<Rightarrow> kernel" where
  "fupd f g s = s\<lparr>ftable := (ftable s)[f := g (ftable s ! f)]\<rparr>"

section \<open>The console as a device\<close>

definition console_read :: "kernel devread" where
  "console_read ip n s =
     obind (iunlock ip s) (\<lambda>s.
     let k = nat (sint n); (res, bs, _, i) = consoleread (p_killed (myproc s)) k k (con_in (con s));
         s = s\<lparr>con := (con s)\<lparr>con_in := i\<rparr>\<rparr> in
     case res of Waiting ch \<Rightarrow> Sleep ch
     | Returned r \<Rightarrow> obind (ilock ip s) (\<lambda>s. Ok (r, bs, s)))"

definition console_write :: "kernel devwrite" where
  "console_write ip bs s =
     obind (iunlock ip s) (\<lambda>s.
     obind (consolewrite bs (con s)) (\<lambda>(r, c).
     obind (ilock ip (s\<lparr>con := c\<rparr>)) (\<lambda>s. Ok (r, s))))"

definition devsw :: "kernel devsw" where
  "devsw major = (if major = 1 then (Some console_read, Some console_write) else (None, None))"

section \<open>File structures\<close>

definition filealloc :: "kernel \<Rightarrow> nat option \<times> kernel" where
  "filealloc s =
     (case find (\<lambda>f. f_ref (ftable s ! f) = 0) [0..<NFILE] of
        None \<Rightarrow> (None, s)
      | Some f \<Rightarrow> (Some f, fupd f (\<lambda>x. x\<lparr>f_ref := 1\<rparr>) s))"

definition filedup :: "nat \<Rightarrow> kernel \<Rightarrow> kernel outcome" where
  "filedup f s =
     (if f_ref (ftable s ! f) < 1 then Panic ''filedup''
      else Ok (fupd f (\<lambda>x. x\<lparr>f_ref := f_ref x + 1\<rparr>) s))"

definition close_pipe :: "uint \<Rightarrow> uint \<Rightarrow> bool \<Rightarrow> kernel \<Rightarrow> kernel outcome" where
  "close_pipe kend a writable s =
     (let (p, wakes, dead) = pipeclose writable (pipes s a);
          s = fold (\<lambda>f. wakeup (CPipe a f)) wakes (s\<lparr>pipes := (pipes s)(a := p)\<rparr>)
      in if dead then obind (kfree kend a (pmem s)) (\<lambda>m. Ok (s\<lparr>pmem := m\<rparr>)) else Ok s)"

definition fileclose :: "uint \<Rightarrow> nat \<Rightarrow> kernel \<Rightarrow> kernel outcome" where
  "fileclose kend f s =
     (if f_ref (ftable s ! f) < 1 then Panic ''fileclose''
      else let s = fupd f (\<lambda>x. x\<lparr>f_ref := f_ref x - 1\<rparr>) s in
        if 0 < f_ref (ftable s ! f) then Ok s
        else let ff = ftable s ! f; s = fupd f (\<lambda>x. x\<lparr>f_ref := 0, f_type := FD_NONE\<rparr>) s in
          case f_type ff of
            FD_PIPE \<Rightarrow> close_pipe kend (f_pipe ff) (f_writable ff) s
          | FD_INODE \<Rightarrow> obind (begin_op s) (\<lambda>s. obind (iput (f_ip ff) s) end_op)
          | FD_NONE \<Rightarrow> Ok s)"

definition filestat :: "nat \<Rightarrow> kernel \<Rightarrow> (stat option \<times> kernel) outcome" where
  "filestat f s =
     (let x = ftable s ! f in
      if f_type x = FD_INODE then
        obind (ilock (f_ip x) s) (\<lambda>s.
        let st = stati (f_ip x) s in
        obind (iunlock (f_ip x) s) (\<lambda>s. Ok (Some st, s)))
      else Ok (None, s))"

definition fileread :: "nat \<Rightarrow> int \<Rightarrow> kernel \<Rightarrow> (io_result \<times> byte list \<times> kernel) outcome" where
  "fileread f n s =
     (let x = ftable s ! f in
      if \<not> f_readable x then Ok (Returned (- 1), [], s)
      else case f_type x of
        FD_PIPE \<Rightarrow>
          let a = f_pipe x; (res, bs, wakes, p) = piperead (p_killed (myproc s)) n (pipes s a)
          in Ok (res, bs, fold (\<lambda>c. wakeup (CPipe a c)) wakes (s\<lparr>pipes := (pipes s)(a := p)\<rparr>))
      | FD_INODE \<Rightarrow>
          obind (ilock (f_ip x) s) (\<lambda>s.
          obind (readi devsw (f_ip x) (f_off x) (word_of_int n) s) (\<lambda>(r, bs, s).
          let s = (if 0 < r then fupd f (\<lambda>x. x\<lparr>f_off := f_off x + word_of_int r\<rparr>) s else s) in
          obind (iunlock (f_ip x) s) (\<lambda>s. Ok (Returned r, bs, s))))
      | FD_NONE \<Rightarrow> Panic ''fileread'')"

text \<open>One transaction writes at most three blocks, \<^verbatim>\<open>((MAXOPBLOCKS-1-1-2)/2)*512\<close> bytes. The fuel is the
  number of bytes; every round writes at least one or stops.\<close>

definition max_write :: nat where "max_write = 1536"

fun filewrite_loop :: "nat \<Rightarrow> nat \<Rightarrow> byte list \<Rightarrow> kernel \<Rightarrow> (bool \<times> kernel) outcome" where
  "filewrite_loop 0 f src s = (if src = [] then Ok (True, s) else Diverge)"
| "filewrite_loop (Suc k) f src s =
     (if src = [] then Ok (True, s)
      else let n1 = min (length src) max_write; ip = f_ip (ftable s ! f) in
        obind (begin_op s) (\<lambda>s.
        obind (ilock ip s) (\<lambda>s.
        obind (writei devsw ip (take n1 src) (f_off (ftable s ! f)) s) (\<lambda>(r, s).
        let s = (if 0 < r then fupd f (\<lambda>x. x\<lparr>f_off := f_off x + word_of_int r\<rparr>) s else s) in
        obind (iunlock ip s) (\<lambda>s.
        obind (end_op s) (\<lambda>s.
        if r < 0 then Ok (False, s)
        else if r \<noteq> int n1 then Panic ''short filewrite''
        else filewrite_loop k f (drop n1 src) s))))))"

definition filewrite :: "nat \<Rightarrow> byte list \<Rightarrow> kernel \<Rightarrow> (io_result \<times> kernel) outcome" where
  "filewrite f src s =
     (let x = ftable s ! f in
      if \<not> f_writable x then Ok (Returned (- 1), s)
      else case f_type x of
        FD_PIPE \<Rightarrow>
          let a = f_pipe x; (res, _, wakes, p) = pipewrite (p_killed (myproc s)) (int (length src)) src (pipes s a)
          in Ok (res, fold (\<lambda>c. wakeup (CPipe a c)) wakes (s\<lparr>pipes := (pipes s)(a := p)\<rparr>))
      | FD_INODE \<Rightarrow>
          obind (filewrite_loop (length src) f src s) (\<lambda>(ok, s).
          Ok (Returned (if ok then int (length src) else - 1), s))
      | FD_NONE \<Rightarrow> Panic ''filewrite'')"

definition pipealloc :: "uint \<Rightarrow> kernel \<Rightarrow> ((nat \<times> nat) option \<times> kernel) outcome" where
  "pipealloc kend s =
     (case filealloc s of
        (None, s) \<Rightarrow> Ok (None, s)
      | (Some f0, s) \<Rightarrow>
          (case filealloc s of
             (None, s) \<Rightarrow> obind (fileclose kend f0 s) (\<lambda>s. Ok (None, s))
           | (Some f1, s) \<Rightarrow>
               let (p, m) = kalloc (pmem s); s = s\<lparr>pmem := m\<rparr> in
               if p = 0 then obind (fileclose kend f0 s) (\<lambda>s. obind (fileclose kend f1 s) (\<lambda>s. Ok (None, s)))
               else
                 let s = s\<lparr>pipes := (pipes s)(p := pipeinit (p_data (pipes s p)))\<rparr>;
                     s = fupd f0 (\<lambda>x. x\<lparr>f_type := FD_PIPE, f_readable := True, f_writable := False, f_pipe := p\<rparr>) s;
                     s = fupd f1 (\<lambda>x. x\<lparr>f_type := FD_PIPE, f_readable := False, f_writable := True, f_pipe := p\<rparr>) s
                 in Ok (Some (f0, f1), s)))"

end
