(* ===== verification/Sysfile.thy ===== *)
theory Sysfile
  imports File
begin

text \<open>
  The file system calls (\<^verbatim>\<open>sysfile.c\<close>). Each system call is a function from the kernel state to its
  result and the new state; its arguments come from the user stack. A call that has to wait is the
  outcome \<open>Sleep\<close>. \<open>kend\<close> is the linker symbol \<^verbatim>\<open>end\<close>.
\<close>

unbundle bit_operations_syntax

definition O_RDONLY :: uint where "O_RDONLY = 0"
definition O_WRONLY :: uint where "O_WRONLY = 1"
definition O_RDWR :: uint where "O_RDWR = 2"
definition O_CREATE :: uint where "O_CREATE = 0x200"

type_synonym syscall = "kernel \<Rightarrow> (int \<times> kernel) outcome"

definition cwd :: "kernel \<Rightarrow> nat" where
  "cwd s = (case p_cwd (myproc s) of Some i \<Rightarrow> i | None \<Rightarrow> NINODE)"

text \<open>\<open>Some (fd, f)\<close>, or \<open>None\<close> where the code returns \<open>-1\<close>.\<close>

definition argfd :: "nat \<Rightarrow> kernel \<Rightarrow> (nat \<times> nat) option outcome" where
  "argfd n s =
     obind (argint n s) (\<lambda>r. case r of None \<Rightarrow> Ok None
     | Some w \<Rightarrow>
         let fd = sint w in
         if fd < 0 \<or> int NOFILE \<le> fd then Ok None
         else Ok (map_option (\<lambda>f. (nat fd, f)) (p_ofile (myproc s) ! nat fd)))"

definition set_ofile :: "nat \<Rightarrow> nat option \<Rightarrow> kernel \<Rightarrow> kernel" where
  "set_ofile fd x s = pupd (cur s) (\<lambda>p. p\<lparr>p_ofile := (p_ofile p)[fd := x]\<rparr>) s"

definition fdalloc :: "nat \<Rightarrow> kernel \<Rightarrow> nat option \<times> kernel" where
  "fdalloc f s =
     (case find (\<lambda>fd. p_ofile (myproc s) ! fd = None) [0..<NOFILE] of
        None \<Rightarrow> (None, s)
      | Some fd \<Rightarrow> (Some fd, set_ofile fd (Some f) s))"

definition sys_dup :: syscall where
  "sys_dup s =
     obind (argfd 0 s) (\<lambda>r. case r of None \<Rightarrow> Ok (- 1, s)
     | Some (_, f) \<Rightarrow>
         (case fdalloc f s of (None, s) \<Rightarrow> Ok (- 1, s)
          | (Some fd, s) \<Rightarrow> obind (filedup f s) (\<lambda>s. Ok (int fd, s))))"

definition sys_read :: syscall where
  "sys_read s =
     obind (argfd 0 s) (\<lambda>r. case r of None \<Rightarrow> Ok (- 1, s)
     | Some (_, f) \<Rightarrow>
     obind (argint 2 s) (\<lambda>r. case r of None \<Rightarrow> Ok (- 1, s)
     | Some n \<Rightarrow>
     obind (argptr 1 (sint n) s) (\<lambda>r. case r of None \<Rightarrow> Ok (- 1, s)
     | Some p \<Rightarrow>
     obind (fileread f (sint n) s) (\<lambda>(res, bs, s). case res of
       Waiting ch \<Rightarrow> Sleep ch
     | Returned k \<Rightarrow> obind (user_stores bs p s) (\<lambda>s. Ok (k, s))))))"

definition sys_write :: syscall where
  "sys_write s =
     obind (argfd 0 s) (\<lambda>r. case r of None \<Rightarrow> Ok (- 1, s)
     | Some (_, f) \<Rightarrow>
     obind (argint 2 s) (\<lambda>r. case r of None \<Rightarrow> Ok (- 1, s)
     | Some n \<Rightarrow>
     obind (argptr 1 (sint n) s) (\<lambda>r. case r of None \<Rightarrow> Ok (- 1, s)
     | Some p \<Rightarrow>
     obind (user_loads (nat (sint n)) p s) (\<lambda>src.
     obind (filewrite f src s) (\<lambda>(res, s). case res of
       Waiting ch \<Rightarrow> Sleep ch
     | Returned k \<Rightarrow> Ok (k, s))))))"

definition sys_close :: "uint \<Rightarrow> syscall" where
  "sys_close kend s =
     obind (argfd 0 s) (\<lambda>r. case r of None \<Rightarrow> Ok (- 1, s)
     | Some (fd, f) \<Rightarrow> obind (fileclose kend f (set_ofile fd None s)) (\<lambda>s. Ok (0, s)))"

text \<open>\<^verbatim>\<open>struct stat\<close> as the compiler lays it out: two bytes of padding after each short.\<close>

definition stat_bytes :: "stat \<Rightarrow> byte list" where
  "stat_bytes st = u16_bytes (st_type st) @ [0, 0] @ u32_bytes (st_dev st) @ u32_bytes (st_ino st) @
     u16_bytes (st_nlink st) @ [0, 0] @ u32_bytes (st_size st)"

definition sys_fstat :: syscall where
  "sys_fstat s =
     obind (argfd 0 s) (\<lambda>r. case r of None \<Rightarrow> Ok (- 1, s)
     | Some (_, f) \<Rightarrow>
     obind (argptr 1 20 s) (\<lambda>r. case r of None \<Rightarrow> Ok (- 1, s)
     | Some p \<Rightarrow>
     obind (filestat f s) (\<lambda>(st, s). case st of None \<Rightarrow> Ok (- 1, s)
     | Some st \<Rightarrow> obind (user_stores (stat_bytes st) p s) (\<lambda>s. Ok (0, s)))))"

definition fail_op :: "kernel \<Rightarrow> (int \<times> kernel) outcome" where
  "fail_op s = obind (end_op s) (\<lambda>s. Ok (- 1, s))"

definition link_bad :: "nat \<Rightarrow> kernel \<Rightarrow> (int \<times> kernel) outcome" where
  "link_bad ip s =
     obind (ilock ip s) (\<lambda>s.
     obind (iupdate ip (iupd ip (\<lambda>x. x\<lparr>i_nlink := i_nlink x - 1\<rparr>) s)) (\<lambda>s.
     obind (iunlockput ip s) fail_op))"

definition sys_link :: syscall where
  "sys_link s =
     obind (argstr 0 s) (\<lambda>r. case r of None \<Rightarrow> Ok (- 1, s)
     | Some old \<Rightarrow>
     obind (argstr 1 s) (\<lambda>r. case r of None \<Rightarrow> Ok (- 1, s)
     | Some new \<Rightarrow>
     obind (begin_op s) (\<lambda>s.
     obind (namei devsw (cwd s) old s) (\<lambda>(r, s). case r of None \<Rightarrow> fail_op s
     | Some ip \<Rightarrow>
     obind (ilock ip s) (\<lambda>s.
     if i_type (icache s ! ip) = T_DIR then obind (iunlockput ip s) fail_op
     else
       obind (iupdate ip (iupd ip (\<lambda>x. x\<lparr>i_nlink := i_nlink x + 1\<rparr>) s)) (\<lambda>s.
       obind (iunlock ip s) (\<lambda>s.
       obind (nameiparent devsw (cwd s) new s) (\<lambda>(r, s). case r of None \<Rightarrow> link_bad ip s
       | Some (dp, name) \<Rightarrow>
       obind (ilock dp s) (\<lambda>s.
       obind (if i_dev (icache s ! dp) \<noteq> i_dev (icache s ! ip) then Ok (- 1, s)
              else dirlink devsw dp name (i_inum (icache s ! ip)) s) (\<lambda>(r, s).
       obind (iunlockput dp s) (\<lambda>s.
       if r < 0 then link_bad ip s
       else obind (iput ip s) (\<lambda>s. obind (end_op s) (\<lambda>s. Ok (0, s))))))))))))))"

fun isdirempty_loop :: "nat \<Rightarrow> nat \<Rightarrow> uint \<Rightarrow> kernel \<Rightarrow> (bool \<times> kernel) outcome" where
  "isdirempty_loop 0 dp off s = Diverge"
| "isdirempty_loop (Suc k) dp off s =
     (if off < i_size (icache s ! dp) then
        obind (readi devsw dp off 16 s) (\<lambda>(r, de, s).
        if r \<noteq> 16 then Panic ''isdirempty: readi''
        else if half_at de 0 \<noteq> 0 then Ok (False, s)
        else isdirempty_loop k dp (off + 16) s)
      else Ok (True, s))"

definition isdirempty :: "nat \<Rightarrow> kernel \<Rightarrow> (bool \<times> kernel) outcome" where
  "isdirempty dp s = isdirempty_loop (Suc (unat (i_size (icache s ! dp)))) dp 32 s"

definition unlink_bad :: "nat \<Rightarrow> kernel \<Rightarrow> (int \<times> kernel) outcome" where
  "unlink_bad dp s = obind (iunlockput dp s) fail_op"

definition sys_unlink :: syscall where
  "sys_unlink s =
     obind (argstr 0 s) (\<lambda>r. case r of None \<Rightarrow> Ok (- 1, s)
     | Some path \<Rightarrow>
     obind (begin_op s) (\<lambda>s.
     obind (nameiparent devsw (cwd s) path s) (\<lambda>(r, s). case r of None \<Rightarrow> fail_op s
     | Some (dp, name) \<Rightarrow>
     obind (ilock dp s) (\<lambda>s.
     if namecmp name (ascii ''.'') = 0 \<or> namecmp name (ascii ''..'') = 0 then unlink_bad dp s
     else
     obind (dirlookup devsw dp name s) (\<lambda>(r, s). case r of None \<Rightarrow> unlink_bad dp s
     | Some (ip, off) \<Rightarrow>
     obind (ilock ip s) (\<lambda>s.
     if sint (i_nlink (icache s ! ip)) < 1 then Panic ''unlink: nlink < 1''
     else
     obind (if i_type (icache s ! ip) = T_DIR then isdirempty ip s else Ok (True, s)) (\<lambda>(empty, s).
     if \<not> empty then obind (iunlockput ip s) (unlink_bad dp)
     else
     obind (writei devsw dp (replicate 16 0) off s) (\<lambda>(r, s).
     if r \<noteq> 16 then Panic ''unlink: writei''
     else
     obind (if i_type (icache s ! ip) = T_DIR
            then iupdate dp (iupd dp (\<lambda>x. x\<lparr>i_nlink := i_nlink x - 1\<rparr>) s) else Ok s) (\<lambda>s.
     obind (iunlockput dp s) (\<lambda>s.
     obind (iupdate ip (iupd ip (\<lambda>x. x\<lparr>i_nlink := i_nlink x - 1\<rparr>) s)) (\<lambda>s.
     obind (iunlockput ip s) (\<lambda>s.
     obind (end_op s) (\<lambda>s. Ok (0, s))))))))))))))"

definition create_dots :: "nat \<Rightarrow> nat \<Rightarrow> kernel \<Rightarrow> kernel outcome" where
  "create_dots ip dp s =
     obind (iupdate dp (iupd dp (\<lambda>x. x\<lparr>i_nlink := i_nlink x + 1\<rparr>) s)) (\<lambda>s.
     obind (dirlink devsw ip (ascii ''.'') (i_inum (icache s ! ip)) s) (\<lambda>(r, s).
     if r < 0 then Panic ''create dots''
     else obind (dirlink devsw ip (ascii ''..'') (i_inum (icache s ! dp)) s) (\<lambda>(r, s).
       if r < 0 then Panic ''create dots'' else Ok s)))"

definition create :: "byte list \<Rightarrow> ushort \<Rightarrow> ushort \<Rightarrow> ushort \<Rightarrow> kernel \<Rightarrow> (nat option \<times> kernel) outcome" where
  "create path type major minor s =
     obind (nameiparent devsw (cwd s) path s) (\<lambda>(r, s). case r of None \<Rightarrow> Ok (None, s)
     | Some (dp, name) \<Rightarrow>
     obind (ilock dp s) (\<lambda>s.
     obind (dirlookup devsw dp name s) (\<lambda>(r, s). case r of
       Some (ip, _) \<Rightarrow>
         obind (iunlockput dp s) (\<lambda>s.
         obind (ilock ip s) (\<lambda>s.
         if type = T_FILE \<and> i_type (icache s ! ip) = T_FILE then Ok (Some ip, s)
         else obind (iunlockput ip s) (\<lambda>s. Ok (None, s))))
     | None \<Rightarrow>
         obind (ialloc (i_dev (icache s ! dp)) type s) (\<lambda>(ip, s).
         obind (ilock ip s) (\<lambda>s.
         obind (iupdate ip (iupd ip (\<lambda>x. x\<lparr>i_major := major, i_minor := minor, i_nlink := 1\<rparr>) s)) (\<lambda>s.
         obind (if type = T_DIR then create_dots ip dp s else Ok s) (\<lambda>s.
         obind (dirlink devsw dp name (i_inum (icache s ! ip)) s) (\<lambda>(r, s).
         if r < 0 then Panic ''create: dirlink''
         else obind (iunlockput dp s) (\<lambda>s. Ok (Some ip, s))))))))))"

definition open_inode :: "byte list \<Rightarrow> uint \<Rightarrow> kernel \<Rightarrow> (nat option \<times> kernel) outcome" where
  "open_inode path omode s =
     (if omode AND O_CREATE \<noteq> 0 then create path T_FILE 0 0 s
      else obind (namei devsw (cwd s) path s) (\<lambda>(r, s). case r of None \<Rightarrow> Ok (None, s)
        | Some ip \<Rightarrow>
            obind (ilock ip s) (\<lambda>s.
            if i_type (icache s ! ip) = T_DIR \<and> omode \<noteq> O_RDONLY
            then obind (iunlockput ip s) (\<lambda>s. Ok (None, s)) else Ok (Some ip, s))))"

definition sys_open :: "uint \<Rightarrow> syscall" where
  "sys_open kend s =
     obind (argstr 0 s) (\<lambda>r. case r of None \<Rightarrow> Ok (- 1, s)
     | Some path \<Rightarrow>
     obind (argint 1 s) (\<lambda>r. case r of None \<Rightarrow> Ok (- 1, s)
     | Some omode \<Rightarrow>
     obind (begin_op s) (\<lambda>s.
     obind (open_inode path omode s) (\<lambda>(r, s). case r of None \<Rightarrow> fail_op s
     | Some ip \<Rightarrow>
       let (f, s) = filealloc s;
           (fd, s) = (case f of None \<Rightarrow> (None, s) | Some f \<Rightarrow> fdalloc f s) in
       case (f, fd) of
         (Some f, Some fd) \<Rightarrow>
           obind (iunlock ip s) (\<lambda>s.
           obind (end_op s) (\<lambda>s.
           Ok (int fd, fupd f (\<lambda>x. x\<lparr>f_type := FD_INODE, f_ip := ip, f_off := 0,
             f_readable := (omode AND O_WRONLY = 0),
             f_writable := (omode AND O_WRONLY \<noteq> 0 \<or> omode AND O_RDWR \<noteq> 0)\<rparr>) s)))
       | _ \<Rightarrow>
           obind (case f of None \<Rightarrow> Ok s | Some f \<Rightarrow> fileclose kend f s) (\<lambda>s.
           obind (iunlockput ip s) fail_op)))))"

definition sys_mkdir :: syscall where
  "sys_mkdir s =
     obind (begin_op s) (\<lambda>s.
     obind (argstr 0 s) (\<lambda>r. case r of None \<Rightarrow> fail_op s
     | Some path \<Rightarrow>
     obind (create path T_DIR 0 0 s) (\<lambda>(r, s). case r of None \<Rightarrow> fail_op s
     | Some ip \<Rightarrow> obind (iunlockput ip s) (\<lambda>s. obind (end_op s) (\<lambda>s. Ok (0, s))))))"

definition sys_mknod :: syscall where
  "sys_mknod s =
     obind (begin_op s) (\<lambda>s.
     obind (argstr 0 s) (\<lambda>r. case r of None \<Rightarrow> fail_op s
     | Some path \<Rightarrow>
     obind (argint 1 s) (\<lambda>r. case r of None \<Rightarrow> fail_op s
     | Some major \<Rightarrow>
     obind (argint 2 s) (\<lambda>r. case r of None \<Rightarrow> fail_op s
     | Some minor \<Rightarrow>
     obind (create path T_DEV (ucast major) (ucast minor) s) (\<lambda>(r, s). case r of None \<Rightarrow> fail_op s
     | Some ip \<Rightarrow> obind (iunlockput ip s) (\<lambda>s. obind (end_op s) (\<lambda>s. Ok (0, s))))))))"

definition sys_chdir :: syscall where
  "sys_chdir s =
     obind (begin_op s) (\<lambda>s.
     obind (argstr 0 s) (\<lambda>r. case r of None \<Rightarrow> fail_op s
     | Some path \<Rightarrow>
     obind (namei devsw (cwd s) path s) (\<lambda>(r, s). case r of None \<Rightarrow> fail_op s
     | Some ip \<Rightarrow>
     obind (ilock ip s) (\<lambda>s.
     if i_type (icache s ! ip) \<noteq> T_DIR then obind (iunlockput ip s) fail_op
     else
       obind (iunlock ip s) (\<lambda>s.
       obind (iput (cwd s) s) (\<lambda>s.
       obind (end_op s) (\<lambda>s. Ok (0, pupd (cur s) (\<lambda>p. p\<lparr>p_cwd := Some ip\<rparr>) s))))))))"

definition sys_pipe :: "uint \<Rightarrow> syscall" where
  "sys_pipe kend s =
     obind (argptr 0 8 s) (\<lambda>r. case r of None \<Rightarrow> Ok (- 1, s)
     | Some fd \<Rightarrow>
     obind (pipealloc kend s) (\<lambda>(r, s). case r of None \<Rightarrow> Ok (- 1, s)
     | Some (rfile, wfile) \<Rightarrow>
       let close2 = \<lambda>s. obind (fileclose kend rfile s) (\<lambda>s. obind (fileclose kend wfile s) (\<lambda>s. Ok (- 1, s))) in
       case fdalloc rfile s of
         (None, s) \<Rightarrow> close2 s
       | (Some fd0, s) \<Rightarrow>
           (case fdalloc wfile s of
              (None, s) \<Rightarrow> close2 (set_ofile fd0 None s)
            | (Some fd1, s) \<Rightarrow>
                obind (user_stores (u32_bytes (of_nat fd0) @ u32_bytes (of_nat fd1)) fd s) (\<lambda>s. Ok (0, s)))))"

end
