(* ===== verification/Proc.thy ===== *)
theory Proc
  imports Sysfile
begin

text \<open>
  Processes (\<^verbatim>\<open>proc.c\<close>): creation, growth, exit and wait. The linker symbols \<^verbatim>\<open>end\<close> and \<^verbatim>\<open>data\<close> and the
  addresses of \<^verbatim>\<open>trapret\<close> and \<^verbatim>\<open>forkret\<close> are the fields of a parameter; so are the address and the
  size of the embedded first program.
\<close>

unbundle bit_operations_syntax

record linkage =
  l_end :: uint
  l_data :: uint
  l_trapret :: uint
  l_forkret :: uint
  l_initcode :: uint
  l_initsize :: uint

definition tf0 :: trapframe where
  "tf0 = \<lparr>tf_eax = 0, tf_eip = 0, tf_esp = 0, tf_cs = 0, tf_ds = 0, tf_es = 0, tf_ss = 0, tf_eflags = 0, tf_trapno = 0\<rparr>"

text \<open>The kernel stack of a new process: below the trap frame of 76 bytes lies the return address of the context.\<close>

definition allocproc :: "linkage \<Rightarrow> kernel \<Rightarrow> nat option \<times> kernel" where
  "allocproc L s =
     (case find (\<lambda>i. p_state (ptable s ! i) = UNUSED) [0..<NPROC] of
        None \<Rightarrow> (None, s)
      | Some i \<Rightarrow>
          let s = pupd i (\<lambda>p. p\<lparr>p_state := EMBRYO, p_pid := nextpid s\<rparr>) s;
              s = s\<lparr>nextpid := nextpid s + 1\<rparr>;
              (k, m) = kalloc (pmem s);
              s = pupd i (\<lambda>p. p\<lparr>p_kstack := k\<rparr>) (s\<lparr>pmem := m\<rparr>)
          in if k = 0 then (None, pupd i (\<lambda>p. p\<lparr>p_state := UNUSED\<rparr>) s)
             else let sp = k + KSTACKSIZE - 76 - 4;
                      s = s\<lparr>pmem := put32 sp (l_trapret L) (pmem s)\<rparr>
               in (Some i, pupd i (\<lambda>p. p\<lparr>p_context :=
                     \<lparr>c_edi = 0, c_esi = 0, c_ebx = 0, c_ebp = 0, c_eip = l_forkret L\<rparr>\<rparr>) s))"

text \<open>\<open>safestrcpy\<close> into the 16 bytes of a process name, as the string that is stored.\<close>

definition name16 :: "byte list \<Rightarrow> byte list" where
  "name16 t = take 15 (takeWhile (\<lambda>c. c \<noteq> 0) t)"

definition userinit :: "linkage \<Rightarrow> kernel \<Rightarrow> kernel outcome" where
  "userinit L s =
     (case allocproc L s of
        (None, s) \<Rightarrow> Undef
      | (Some p, s) \<Rightarrow>
          obind (on_mem (setupkvm (l_end L) (l_data L)) (s\<lparr>initproc := p\<rparr>)) (\<lambda>(pgdir, s).
          if pgdir = 0 then Panic ''userinit: out of memory?''
          else
            obind (inituvm pgdir (l_initcode L) (l_initsize L) (pmem s)) (\<lambda>m.
            let s = pupd p (\<lambda>q. q\<lparr>p_pgdir := pgdir, p_sz := PGSIZE,
                  p_tf := tf0\<lparr>tf_cs := 0x1B, tf_ds := 0x23, tf_es := 0x23, tf_ss := 0x23, tf_eflags := 0x200,
                    tf_esp := PGSIZE, tf_eip := 0\<rparr>,
                  p_name := name16 (ascii ''initcode'')\<rparr>) (s\<lparr>pmem := m\<rparr>) in
            obind (namei devsw NINODE (ascii ''/'') s) (\<lambda>(ip, s).
            Ok (pupd p (\<lambda>q. q\<lparr>p_cwd := ip, p_state := RUNNABLE\<rparr>) s)))))"

definition growproc :: "linkage \<Rightarrow> int \<Rightarrow> kernel \<Rightarrow> (int \<times> kernel) outcome" where
  "growproc L n s =
     (let p = myproc s; sz = p_sz p in
      obind (if 0 < n then on_mem (allocuvm (l_end L) (p_pgdir p) sz (sz + word_of_int n)) s
             else if n < 0 then on_mem (deallocuvm (l_end L) (p_pgdir p) sz (sz + word_of_int n)) s
             else Ok (sz, s)) (\<lambda>(sz, s).
      if n \<noteq> 0 \<and> sz = 0 then Ok (- 1, s)
      else obind (switchuvm (cur s) (pupd (cur s) (\<lambda>p. p\<lparr>p_sz := sz\<rparr>) s)) (\<lambda>s. Ok (0, s))))"

definition fork_file :: "nat \<Rightarrow> nat \<Rightarrow> kernel \<Rightarrow> kernel outcome" where
  "fork_file np i s =
     (case p_ofile (myproc s) ! i of None \<Rightarrow> Ok s
      | Some f \<Rightarrow> obind (filedup f s) (\<lambda>s. Ok (pupd np (\<lambda>p. p\<lparr>p_ofile := (p_ofile p)[i := Some f]\<rparr>) s)))"

definition fork :: "linkage \<Rightarrow> kernel \<Rightarrow> (int \<times> kernel) outcome" where
  "fork L s =
     (case allocproc L s of
        (None, s) \<Rightarrow> Ok (- 1, s)
      | (Some np, s) \<Rightarrow>
          obind (on_mem (copyuvm (l_end L) (l_data L) (p_pgdir (myproc s)) (p_sz (myproc s))) s) (\<lambda>(pgdir, s).
          let s = pupd np (\<lambda>q. q\<lparr>p_pgdir := pgdir\<rparr>) s in
          if pgdir = 0 then
            obind (kfree (l_end L) (p_kstack (ptable s ! np)) (pmem s)) (\<lambda>m.
            Ok (- 1, pupd np (\<lambda>q. q\<lparr>p_kstack := 0, p_state := UNUSED\<rparr>) (s\<lparr>pmem := m\<rparr>)))
          else
            let p = myproc s;
                s = pupd np (\<lambda>q. q\<lparr>p_sz := p_sz p, p_parent := Some (cur s), p_tf := (p_tf p)\<lparr>tf_eax := 0\<rparr>\<rparr>) s in
            obind (ofold (fork_file np) [0..<NOFILE] s) (\<lambda>s.
            let (ip, s) = idup (cwd s) s;
                s = pupd np (\<lambda>q. q\<lparr>p_cwd := Some ip, p_name := name16 (p_name (myproc s))\<rparr>) s;
                pid = p_pid (ptable s ! np)
            in Ok (pid, pupd np (\<lambda>q. q\<lparr>p_state := RUNNABLE\<rparr>) s))))"

definition exit_file :: "uint \<Rightarrow> nat \<Rightarrow> kernel \<Rightarrow> kernel outcome" where
  "exit_file kend fd s =
     (case p_ofile (myproc s) ! fd of None \<Rightarrow> Ok s
      | Some f \<Rightarrow> obind (fileclose kend f s) (\<lambda>s. Ok (set_ofile fd None s)))"

text \<open>A child of the exiting process becomes a child of the first process, which is woken for a zombie.\<close>

definition reparent :: "nat \<Rightarrow> kernel \<Rightarrow> kernel" where
  "reparent i s =
     (if p_parent (ptable s ! i) = Some (cur s) then
        let s = pupd i (\<lambda>p. p\<lparr>p_parent := Some (initproc s)\<rparr>) s
        in if p_state (ptable s ! i) = ZOMBIE then wakeup1 (CProc (initproc s)) s else s
      else s)"

definition exit_tail :: "kernel \<Rightarrow> kernel outcome" where
  "exit_tail s =
     (let s = (case p_parent (myproc s) of Some p \<Rightarrow> wakeup1 (CProc p) s | None \<Rightarrow> s);
          s = fold reparent [0..<NPROC] s
      in sched True in_ptable (pupd (cur s) (\<lambda>p. p\<lparr>p_state := ZOMBIE\<rparr>) s))"

definition exit :: "uint \<Rightarrow> kernel \<Rightarrow> kernel outcome" where
  "exit kend s =
     (if cur s = initproc s then Panic ''init exiting''
      else
        obind (ofold (exit_file kend) [0..<NOFILE] s) (\<lambda>s.
        obind (begin_op s) (\<lambda>s.
        obind (iput (cwd s) s) (\<lambda>s.
        obind (end_op s) (\<lambda>s.
        exit_tail (pupd (cur s) (\<lambda>p. p\<lparr>p_cwd := None\<rparr>) s))))))"

definition is_child :: "kernel \<Rightarrow> nat \<Rightarrow> bool" where
  "is_child s i \<longleftrightarrow> p_parent (ptable s ! i) = Some (cur s)"

text \<open>One round of the loop of \<open>wait\<close>: it reaps a zombie child, fails, or goes to sleep.\<close>

definition wait :: "uint \<Rightarrow> kernel \<Rightarrow> (io_result \<times> kernel) outcome" where
  "wait kend s =
     (case find (\<lambda>i. is_child s i \<and> p_state (ptable s ! i) = ZOMBIE) [0..<NPROC] of
        Some i \<Rightarrow>
          let p = ptable s ! i in
          obind (kfree kend (p_kstack p) (pmem s)) (\<lambda>m.
          obind (freevm kend (p_pgdir p) m) (\<lambda>m.
          Ok (Returned (p_pid p), pupd i (\<lambda>p. p\<lparr>p_kstack := 0, p_pid := 0, p_parent := None, p_name := [],
            p_killed := False, p_state := UNUSED\<rparr>) (s\<lparr>pmem := m\<rparr>))))
      | None \<Rightarrow>
          if \<not> list_ex (is_child s) [0..<NPROC] \<or> p_killed (myproc s) then Ok (Returned (- 1), s)
          else obind (sleep_enter (CProc (cur s)) s) (\<lambda>s. Ok (Waiting ''wait'', s)))"

text \<open>The first process to run initialises the file system.\<close>

definition forkret :: "bool \<Rightarrow> kernel \<Rightarrow> kernel outcome" where
  "forkret first s = (if first then obind (iinit ROOTDEV s) (initlog ROOTDEV) else Ok s)"

end
