(* ===== verification/Syscall.thy ===== *)
theory Syscall
  imports Proc
begin

text \<open>
  \<open>exec\<close> (\<^verbatim>\<open>exec.c\<close>, with \<open>loaduvm\<close> of \<^verbatim>\<open>vm.c\<close>), the remaining system calls (\<^verbatim>\<open>sysproc.c\<close>), the dispatcher
  (\<^verbatim>\<open>syscall.c\<close>) and the trap handler (\<^verbatim>\<open>trap.c\<close>). A system call that reads an argument without
  checking that it could be fetched uses an undefined value, which is the outcome \<open>Undef\<close>.
\<close>

unbundle bit_operations_syntax

section \<open>exec\<close>

definition MAXARG :: nat where "MAXARG = 32"
definition ELF_MAGIC :: uint where "ELF_MAGIC = 0x464C457F"
definition ELF_PROG_LOAD :: uint where "ELF_PROG_LOAD = 1"

record proghdr =
  ph_type :: uint
  ph_off :: uint
  ph_vaddr :: uint
  ph_filesz :: uint
  ph_memsz :: uint

definition bytes_ph :: "byte list \<Rightarrow> proghdr" where
  "bytes_ph b = \<lparr>ph_type = word_at b 0, ph_off = word_at b 4, ph_vaddr = word_at b 8, ph_filesz = word_at b 16, ph_memsz = word_at b 20\<rparr>"

record elfhdr =
  e_magic :: uint
  e_entry :: uint
  e_phoff :: uint
  e_phnum :: ushort

definition bytes_elf :: "byte list \<Rightarrow> elfhdr" where
  "bytes_elf b = \<lparr>e_magic = word_at b 0, e_entry = word_at b 24, e_phoff = word_at b 28, e_phnum = half_at b 44\<rparr>"

fun loaduvm_loop :: "nat \<Rightarrow> uint \<Rightarrow> uint \<Rightarrow> nat \<Rightarrow> uint \<Rightarrow> uint \<Rightarrow> uint \<Rightarrow> kernel \<Rightarrow> (int \<times> kernel) outcome" where
  "loaduvm_loop 0 pgdir addr ip offset sz i s = Diverge"
| "loaduvm_loop (Suc k) pgdir addr ip offset sz i s =
     (if i < sz then
        let (pte, _) = walkpgdir pgdir (addr + i) False (pmem s) in
        if pte = 0 then Panic ''loaduvm: address should exist''
        else let pa = PTE_ADDR (get32 pte (pmem s)); n = (if sz - i < PGSIZE then sz - i else PGSIZE) in
          obind (readi devsw ip (offset + i) n s) (\<lambda>(r, bs, s).
          let s = s\<lparr>pmem := (pmem s)\<lparr>kmem_bytes := poke (P2V pa) bs (kmem_bytes (pmem s))\<rparr>\<rparr> in
          if r \<noteq> sint n then Ok (- 1, s)
          else loaduvm_loop k pgdir addr ip offset sz (i + PGSIZE) s)
      else Ok (0, s))"

definition loaduvm :: "uint \<Rightarrow> uint \<Rightarrow> nat \<Rightarrow> uint \<Rightarrow> uint \<Rightarrow> kernel \<Rightarrow> (int \<times> kernel) outcome" where
  "loaduvm pgdir addr ip offset sz s =
     (if addr mod PGSIZE \<noteq> 0 then Panic ''loaduvm: addr must be page aligned''
      else loaduvm_loop max_pages pgdir addr ip offset sz 0 s)"

definition exec_bad :: "uint \<Rightarrow> uint \<Rightarrow> nat option \<Rightarrow> kernel \<Rightarrow> (int \<times> kernel) outcome" where
  "exec_bad kend pgdir ip s =
     obind (if pgdir \<noteq> 0 then obind (freevm kend pgdir (pmem s)) (\<lambda>m. Ok (s\<lparr>pmem := m\<rparr>)) else Ok s) (\<lambda>s.
     case ip of None \<Rightarrow> Ok (- 1, s) | Some i \<Rightarrow> obind (iunlockput i s) fail_op)"

text \<open>The segments of the program; \<open>None\<close> is the jump to \<open>bad\<close>.\<close>

fun exec_load :: "nat \<Rightarrow> uint \<Rightarrow> nat \<Rightarrow> uint \<Rightarrow> uint \<Rightarrow> uint \<Rightarrow> kernel \<Rightarrow> (uint option \<times> kernel) outcome" where
  "exec_load 0 kend ip pgdir off sz s = Ok (Some sz, s)"
| "exec_load (Suc k) kend ip pgdir off sz s =
     obind (readi devsw ip off 32 s) (\<lambda>(r, bs, s).
     if r \<noteq> 32 then Ok (None, s)
     else let ph = bytes_ph bs in
       if ph_type ph \<noteq> ELF_PROG_LOAD then exec_load k kend ip pgdir (off + 32) sz s
       else if ph_memsz ph < ph_filesz ph \<or> ph_vaddr ph + ph_memsz ph < ph_vaddr ph then Ok (None, s)
       else
         obind (on_mem (allocuvm kend pgdir sz (ph_vaddr ph + ph_memsz ph)) s) (\<lambda>(sz, s).
         if sz = 0 \<or> ph_vaddr ph mod PGSIZE \<noteq> 0 then Ok (None, s)
         else
           obind (loaduvm pgdir (ph_vaddr ph) ip (ph_off ph) (ph_filesz ph) s) (\<lambda>(r, s).
           if r < 0 then Ok (None, s) else exec_load k kend ip pgdir (off + 32) sz s)))"

fun exec_args :: "byte list list \<Rightarrow> uint \<Rightarrow> uint \<Rightarrow> uint list \<Rightarrow> kernel \<Rightarrow> ((uint \<times> uint list) option \<times> kernel) outcome" where
  "exec_args [] pgdir sp ptrs s = Ok (Some (sp, ptrs), s)"
| "exec_args (a # as) pgdir sp ptrs s =
     (if MAXARG \<le> length ptrs then Ok (None, s)
      else let sp = (sp - (of_nat (length a) + 1)) AND NOT 3 in
        obind (on_mem (copyout pgdir sp (a @ [0])) s) (\<lambda>(r, s).
        if r < 0 then Ok (None, s) else exec_args as pgdir sp (ptrs @ [sp]) s))"

definition ustack :: "uint \<Rightarrow> uint list \<Rightarrow> uint list" where
  "ustack sp ptrs = [0xffffffff, of_nat (length ptrs), sp - (of_nat (length ptrs) + 1) * 4] @ ptrs @ [0]"

definition base_name :: "byte list \<Rightarrow> byte list" where
  "base_name path = rev (takeWhile (\<lambda>c. c \<noteq> 47) (rev path))"

definition exec_commit :: "uint \<Rightarrow> byte list \<Rightarrow> uint \<Rightarrow> uint \<Rightarrow> uint \<Rightarrow> uint \<Rightarrow> kernel \<Rightarrow> (int \<times> kernel) outcome" where
  "exec_commit kend path pgdir sz sp entry s =
     (let oldpgdir = p_pgdir (myproc s);
          s = pupd (cur s) (\<lambda>p. p\<lparr>p_name := name16 (base_name path), p_pgdir := pgdir, p_sz := sz,
                p_tf := (p_tf p)\<lparr>tf_eip := entry, tf_esp := sp\<rparr>\<rparr>) s in
      obind (switchuvm (cur s) s) (\<lambda>s.
      obind (freevm kend oldpgdir (pmem s)) (\<lambda>m. Ok (0, s\<lparr>pmem := m\<rparr>))))"

definition exec_stack :: "uint \<Rightarrow> byte list \<Rightarrow> byte list list \<Rightarrow> uint \<Rightarrow> uint \<Rightarrow> uint \<Rightarrow> kernel \<Rightarrow> (int \<times> kernel) outcome" where
  "exec_stack kend path argv pgdir sz entry s =
     (let sz = PGROUNDUP sz in
      obind (on_mem (allocuvm kend pgdir sz (sz + 2 * PGSIZE)) s) (\<lambda>(sz, s).
      if sz = 0 then exec_bad kend pgdir None s
      else
        obind (clearpteu pgdir (sz - 2 * PGSIZE) (pmem s)) (\<lambda>m.
        obind (exec_args argv pgdir sz [] (s\<lparr>pmem := m\<rparr>)) (\<lambda>(r, s). case r of
          None \<Rightarrow> exec_bad kend pgdir None s
        | Some (sp, ptrs) \<Rightarrow>
            let us = ustack sp ptrs; sp = sp - (3 + of_nat (length ptrs) + 1) * 4 in
            obind (on_mem (copyout pgdir sp (concat (map u32_bytes us))) s) (\<lambda>(r, s).
            if r < 0 then exec_bad kend pgdir None s
            else exec_commit kend path pgdir sz sp entry s)))))"

definition exec :: "linkage \<Rightarrow> byte list \<Rightarrow> byte list list \<Rightarrow> kernel \<Rightarrow> (int \<times> kernel) outcome" where
  "exec L path argv s =
     (let kend = l_end L in
      obind (begin_op s) (\<lambda>s.
      obind (namei devsw (cwd s) path s) (\<lambda>(r, s). case r of
        None \<Rightarrow> obind (end_op s) (\<lambda>s. obind (kprintf (''exec: fail'' @ [CHR 0x0A]) [] s) (\<lambda>s. Ok (- 1, s)))
      | Some ip \<Rightarrow>
          obind (ilock ip s) (\<lambda>s.
          obind (readi devsw ip 0 52 s) (\<lambda>(r, bs, s).
          let elf = bytes_elf bs in
          if r \<noteq> 52 \<or> e_magic elf \<noteq> ELF_MAGIC then exec_bad kend 0 (Some ip) s
          else
            obind (on_mem (setupkvm kend (l_data L)) s) (\<lambda>(pgdir, s).
            if pgdir = 0 then exec_bad kend 0 (Some ip) s
            else
              obind (exec_load (unat (e_phnum elf)) kend ip pgdir (e_phoff elf) 0 s) (\<lambda>(r, s). case r of
                None \<Rightarrow> exec_bad kend pgdir (Some ip) s
              | Some sz \<Rightarrow>
                  obind (iunlockput ip s) (\<lambda>s.
                  obind (end_op s) (exec_stack kend path argv pgdir sz (e_entry elf))))))))))"

fun exec_argv :: "nat \<Rightarrow> uint \<Rightarrow> kernel \<Rightarrow> byte list list option outcome" where
  "exec_argv 0 uargv s = Ok None"
| "exec_argv (Suc k) uargv s =
     obind (fetchint uargv s) (\<lambda>r. case r of None \<Rightarrow> Ok None
     | Some uarg \<Rightarrow>
         if uarg = 0 then Ok (Some [])
         else obind (fetchstr uarg s) (\<lambda>r. case r of None \<Rightarrow> Ok None
           | Some a \<Rightarrow> obind (exec_argv k (uargv + 4) s) (\<lambda>r. Ok (map_option ((#) a) r))))"

definition sys_exec :: "linkage \<Rightarrow> syscall" where
  "sys_exec L s =
     obind (argstr 0 s) (\<lambda>r. case r of None \<Rightarrow> Ok (- 1, s)
     | Some path \<Rightarrow>
     obind (argint 1 s) (\<lambda>r. case r of None \<Rightarrow> Ok (- 1, s)
     | Some uargv \<Rightarrow>
     obind (exec_argv MAXARG uargv s) (\<lambda>r. case r of None \<Rightarrow> Ok (- 1, s)
     | Some argv \<Rightarrow> exec L path argv s)))"

section \<open>Process system calls\<close>

definition sys_fork :: "linkage \<Rightarrow> syscall" where
  "sys_fork L s = fork L s"

definition sys_exit :: "linkage \<Rightarrow> syscall" where
  "sys_exit L s = obind (exit (l_end L) s) (\<lambda>s. Ok (0, s))"

definition sys_wait :: "linkage \<Rightarrow> syscall" where
  "sys_wait L s =
     obind (wait (l_end L) s) (\<lambda>(r, s). case r of Returned k \<Rightarrow> Ok (k, s) | Waiting ch \<Rightarrow> Sleep ch)"

definition sys_kill :: syscall where
  "sys_kill s = obind (argint 0 s) (\<lambda>r. case r of None \<Rightarrow> Ok (- 1, s) | Some pid \<Rightarrow> Ok (kill (sint pid) s))"

definition sys_getpid :: syscall where
  "sys_getpid s = Ok (p_pid (myproc s), s)"

definition sys_sbrk :: "linkage \<Rightarrow> syscall" where
  "sys_sbrk L s =
     obind (argint 0 s) (\<lambda>r. case r of None \<Rightarrow> Ok (- 1, s)
     | Some n \<Rightarrow>
         let addr = p_sz (myproc s) in
         obind (growproc L (sint n) s) (\<lambda>(r, s). Ok (if r < 0 then - 1 else sint addr, s)))"

text \<open>One round of the waiting loop of \<open>sys_sleep\<close>; \<open>ticks0\<close> is the tick count at the call.\<close>

definition sleep_round :: "uint \<Rightarrow> uint \<Rightarrow> syscall" where
  "sleep_round ticks0 n s =
     (if ticks s - ticks0 < n then if p_killed (myproc s) then Ok (- 1, s) else Sleep ''ticks'' else Ok (0, s))"

definition sys_sleep :: syscall where
  "sys_sleep s = obind (argint 0 s) (\<lambda>r. case r of None \<Rightarrow> Ok (- 1, s) | Some n \<Rightarrow> sleep_round (ticks s) n s)"

definition sys_uptime :: syscall where
  "sys_uptime s = Ok (sint (ticks s), s)"

section \<open>Console system calls\<close>

definition on_con :: "(console \<Rightarrow> console outcome) \<Rightarrow> kernel \<Rightarrow> kernel outcome" where
  "on_con f s = obind (f (con s)) (\<lambda>c. Ok (s\<lparr>con := c\<rparr>))"

definition arg :: "nat \<Rightarrow> kernel \<Rightarrow> int outcome" where
  "arg n s = obind (argint n s) (\<lambda>r. case r of None \<Rightarrow> Undef | Some v \<Rightarrow> Ok (sint v))"

definition sys_clrscr :: syscall where
  "sys_clrscr s = obind (on_con clrscr s) (\<lambda>s. Ok (0, s))"

definition sys_getcursor :: syscall where
  "sys_getcursor s = Ok (getcursor (con s), s)"

definition sys_setcursor :: syscall where
  "sys_setcursor s = obind (arg 0 s) (\<lambda>pos. obind (on_con (setcursor pos) s) (\<lambda>s. Ok (0, s)))"

definition sys_setconsbuf :: syscall where
  "sys_setconsbuf s = obind (arg 0 s) (\<lambda>b. Ok (0, s\<lparr>con := setconsbuf (b \<noteq> 0) (con s)\<rparr>))"

definition sys_scrputc :: syscall where
  "sys_scrputc s = obind (arg 0 s) (\<lambda>pos. obind (arg 1 s) (\<lambda>c. obind (on_con (scrputc pos c) s) (\<lambda>s. Ok (0, s))))"

definition sys_curmove :: syscall where
  "sys_curmove s = obind (arg 0 s) (\<lambda>move. obind (arg 1 s) (\<lambda>mode. obind (on_con (curmove move mode) s) (\<lambda>s. Ok (0, s))))"

definition sys_getcch :: syscall where
  "sys_getcch s = obind (arg 0 s) (\<lambda>pos. obind (getcch pos (con s)) (\<lambda>ch. Ok (uint ch, s)))"

definition sys_pushword :: syscall where
  "sys_pushword s =
     obind (arg 0 s) (\<lambda>pos. obind (arg 1 s) (\<lambda>line.
     obind (pushword pos line (con s)) (\<lambda>(ch, c). Ok (uint ch, s\<lparr>con := c\<rparr>))))"

definition sys_putchar :: syscall where
  "sys_putchar s = obind (arg 0 s) (\<lambda>pos. obind (arg 1 s) (\<lambda>c. obind (on_con (putchar pos c) s) (\<lambda>s. Ok (0, s))))"

definition sys_savescr :: syscall where
  "sys_savescr s = obind (on_con savescr s) (\<lambda>s. Ok (0, s))"

definition sys_restorescr :: syscall where
  "sys_restorescr s = obind (on_con restorescr s) (\<lambda>s. Ok (0, s))"

text \<open>The editor's list of lines lives in user memory: 80 characters, then the length, the line number,
  the paragraph and the pointer to the next line.\<close>

definition user_word :: "uint \<Rightarrow> kernel \<Rightarrow> uint outcome" where
  "user_word a s = obind (user_loads 4 a s) (\<lambda>bs. Ok (bytes_u32 bs))"

fun find_line :: "nat \<Rightarrow> uint \<Rightarrow> kernel \<Rightarrow> uint outcome" where
  "find_line 0 l s = Diverge"
| "find_line (Suc k) l s =
     (if l = 0 then Ok 0
      else obind (user_word (l + 84) s) (\<lambda>no.
        if sint no < current_line (con s) then obind (user_word (l + 92) s) (\<lambda>nx. find_line k nx s) else Ok l))"

definition mirrorctx :: "nat \<Rightarrow> uint \<Rightarrow> int \<Rightarrow> kernel \<Rightarrow> kernel outcome" where
  "mirrorctx fuel t mode s =
     (if mode = 1 then
        if t = 0 then Panic ''ctx is null''
        else obind (user_word t s) (\<lambda>start.
          if start = 0 then Panic ''ctx-start is null''
          else obind (find_line fuel start s) (\<lambda>l.
            if l = 0 then Undef
            else obind (user_loads 80 l s) (\<lambda>cs.
              if 0 \<notin> set cs then Undef
              else Ok (s\<lparr>con := (con s)\<lparr>cctx := t, clen := length (takeWhile (\<lambda>c. c \<noteq> 0) cs), cch := cs\<rparr>\<rparr>))))
      else Ok (s\<lparr>con := (con s)\<lparr>cctx := 0\<rparr>\<rparr>))"

definition sys_mirrorctx :: "nat \<Rightarrow> syscall" where
  "sys_mirrorctx fuel s =
     obind (argptr 0 8 s) (\<lambda>r. case r of None \<Rightarrow> Undef
     | Some t \<Rightarrow> obind (arg 1 s) (\<lambda>mode. obind (mirrorctx fuel t mode s) (\<lambda>s. Ok (0, s))))"

definition sys_setline :: syscall where
  "sys_setline s = obind (arg 0 s) (\<lambda>l. Ok (0, s\<lparr>con := setline l (con s)\<rparr>))"

definition sys_getline :: syscall where
  "sys_getline s = Ok (getline (con s), s)"

definition sys_deletech :: syscall where
  "sys_deletech s = obind (arg 0 s) (\<lambda>l. obind (arg 1 s) (\<lambda>n. obind (on_con (deletech l n) s) (\<lambda>s. Ok (0, s))))"

definition sys_getinput :: syscall where
  "sys_getinput s = Ok (getinput (con s), s)"

section \<open>Dispatch\<close>

definition syscalls :: "linkage \<Rightarrow> (int \<times> syscall) list" where
  "syscalls L = (let kend = l_end L in
     [(1, sys_fork L), (2, sys_exit L), (3, sys_wait L), (4, sys_pipe kend), (5, sys_read), (6, sys_kill),
      (7, sys_exec L), (8, sys_fstat), (9, sys_chdir), (10, sys_dup), (11, sys_getpid), (12, sys_sbrk L),
      (13, sys_sleep), (14, sys_uptime), (15, sys_open kend), (16, sys_write), (17, sys_mknod), (18, sys_unlink),
      (19, sys_link), (20, sys_mkdir), (21, sys_close kend), (22, sys_clrscr), (23, sys_setcursor), (24, sys_getcursor),
      (25, sys_setconsbuf), (26, sys_scrputc), (27, sys_curmove), (28, sys_getcch), (29, sys_pushword), (30, sys_putchar),
      (31, sys_savescr), (32, sys_restorescr), (33, sys_mirrorctx max_pages), (34, sys_setline), (35, sys_getline),
      (36, sys_deletech), (37, sys_getinput)])"

definition set_eax :: "int \<Rightarrow> kernel \<Rightarrow> kernel" where
  "set_eax r s = pupd (cur s) (\<lambda>p. p\<lparr>p_tf := (p_tf p)\<lparr>tf_eax := word_of_int r\<rparr>\<rparr>) s"

definition dispatch :: "linkage \<Rightarrow> kernel \<Rightarrow> kernel outcome" where
  "dispatch L s =
     (let num = sint (tf_eax (p_tf (myproc s))) in
      case map_of (syscalls L) num of
        Some f \<Rightarrow> obind (f s) (\<lambda>(r, s). Ok (set_eax r s))
      | None \<Rightarrow>
          obind (kprintf (''%d %s: unknown sys call %d'' @ [CHR 0x0A])
            [Num (word_of_int (p_pid (myproc s))), Str (Some (p_name (myproc s))), Num (word_of_int num)] s) (\<lambda>s.
          Ok (set_eax (- 1) s)))"

section \<open>Traps\<close>

definition T_SYSCALL :: uint where "T_SYSCALL = 64"
definition T_IRQ0 :: uint where "T_IRQ0 = 32"

text \<open>What the hardware contributes to an interrupt: the processor number, the characters the keyboard
  and the serial port deliver, and the fault address. A process may be running on the processor or not.\<close>

record irq =
  irq_cpu :: nat
  irq_kbd :: "int list"
  irq_uart :: "int list"
  irq_cr2 :: uint
  irq_err :: uint
  irq_proc :: bool

definition console_intr :: "int list \<Rightarrow> kernel \<Rightarrow> kernel outcome" where
  "console_intr cs s =
     obind (consoleintr cs (con s)) (\<lambda>(c, dump).
     let s = s\<lparr>con := c\<lparr>woken := []\<rparr>\<rparr>; s = (if woken c = [] then s else wakeup (CNamed ''input.r'') s) in
     if dump then procdump s else Ok s)"

definition clock_tick :: "kernel \<Rightarrow> kernel" where
  "clock_tick s = wakeup (CNamed ''ticks'') (s\<lparr>ticks := ticks s + 1\<rparr>)"

definition device_trap :: "irq \<Rightarrow> trapframe \<Rightarrow> kernel \<Rightarrow> kernel outcome" where
  "device_trap q tf s =
     (let no = tf_trapno tf in
      if no = T_IRQ0 + 0 then Ok (if irq_cpu q = 0 then clock_tick s else s)
      else if no = T_IRQ0 + 14 \<or> no = T_IRQ0 + 15 then Ok s
      else if no = T_IRQ0 + 1 then console_intr (irq_kbd q) s
      else if no = T_IRQ0 + 4 then console_intr (irq_uart q) s
      else if no = T_IRQ0 + 7 \<or> no = T_IRQ0 + 31 then
        kprintf (''cpu%d: spurious interrupt at %x:%x'' @ [CHR 0x0A]) [Num (of_nat (irq_cpu q)), Num (tf_cs tf), Num (tf_eip tf)] s
      else if \<not> irq_proc q \<or> tf_cs tf AND 3 = 0 then
        obind (kprintf (''unexpected trap %d from cpu %d eip %x (cr2=0x%x)'' @ [CHR 0x0A])
          [Num no, Num (of_nat (irq_cpu q)), Num (tf_eip tf), Num (irq_cr2 q)] s) (\<lambda>s. Panic ''trap'')
      else
        obind (kprintf (''pid %d %s: trap %d err %d on cpu %d eip 0x%x addr 0x%x--kill proc'' @ [CHR 0x0A])
          [Num (word_of_int (p_pid (myproc s))), Str (Some (p_name (myproc s))), Num no, Num (irq_err q),
           Num (of_nat (irq_cpu q)), Num (tf_eip tf), Num (irq_cr2 q)] s) (\<lambda>s.
        Ok (pupd (cur s) (\<lambda>p. p\<lparr>p_killed := True\<rparr>) s)))"

definition exit_if_killed :: "linkage \<Rightarrow> bool \<Rightarrow> kernel \<Rightarrow> kernel outcome" where
  "exit_if_killed L cond s = (if cond \<and> p_killed (myproc s) then exit (l_end L) s else Ok s)"

text \<open>The handler up to the point where it gives up the processor; a process that exits does not come back.\<close>

definition trap :: "linkage \<Rightarrow> irq \<Rightarrow> trapframe \<Rightarrow> kernel \<Rightarrow> kernel outcome" where
  "trap L q tf s =
     (if tf_trapno tf = T_SYSCALL then
        if p_killed (myproc s) then exit (l_end L) s
        else obind (dispatch L (pupd (cur s) (\<lambda>p. p\<lparr>p_tf := tf\<rparr>) s)) (exit_if_killed L True)
      else
        obind (device_trap q tf s) (\<lambda>s.
        let user = irq_proc q \<and> tf_cs tf AND 3 = 3 in
        if user \<and> p_killed (myproc s) then exit (l_end L) s
        else if irq_proc q \<and> p_state (myproc s) = RUNNING \<and> tf_trapno tf = T_IRQ0 + 0
        then obind (yield s) (exit_if_killed L user)
        else exit_if_killed L user s))"

end
