(* ===== verification/Kernel_Laws.thy ===== *)
theory Kernel_Laws
  imports Kernel
begin

text \<open>
  Laws of the process primitives and of the arguments of system calls: a sleeper is woken by a wakeup on its
  channel, a pass of the scheduler runs every runnable process, and pointers and strings that the
  kernel accepts from a process lie inside its memory.
\<close>

unbundle bit_operations_syntax

section \<open>A pass of the scheduler\<close>

text \<open>One pass of the scheduler over the table. \<open>run p\<close> is what happens between the switch to process \<open>p\<close> and
  the switch back. The result lists the processes that ran.\<close>

fun scheduler_pass :: "(nat \<Rightarrow> kernel \<Rightarrow> kernel) \<Rightarrow> nat list \<Rightarrow> kernel \<Rightarrow> (nat list \<times> kernel) outcome" where
  "scheduler_pass run [] s = Ok ([], s)"
| "scheduler_pass run (p # ps) s =
     obind (scheduler_at p s) (\<lambda>(switched, s).
     obind (scheduler_pass run ps (if switched then run p s else s)) (\<lambda>(tr, s).
     Ok (if switched then p # tr else tr, s)))"

text \<open>A table of processes in which every runnable process has a kernel stack and a page table.\<close>

definition procs_ok :: "kernel \<Rightarrow> bool" where
  "procs_ok s \<longleftrightarrow> length (ptable s) = NPROC \<and>
     (\<forall>p < NPROC. p_state (ptable s ! p) = RUNNABLE \<longrightarrow> p_kstack (ptable s ! p) \<noteq> 0 \<and> p_pgdir (ptable s ! p) \<noteq> 0)"

lemma pupd_sel [simp]:
  "length (ptable (pupd p f s)) = length (ptable s)"
  "p < length (ptable s) \<Longrightarrow> ptable (pupd p f s) ! q = (if q = p then f (ptable s ! p) else ptable s ! q)"
  "cur (pupd p f s) = cur s"
  by (simp_all add: pupd_def nth_list_update)

lemma scheduler_at_ok:
  assumes "procs_ok s" and "p < NPROC"
  shows "\<exists>s'. scheduler_at p s = Ok (p_state (ptable s ! p) = RUNNABLE, s') \<and> procs_ok s' \<and> (\<forall>q. q \<noteq> p \<longrightarrow> ptable s' ! q = ptable s ! q)"
proof (cases "p_state (ptable s ! p) = RUNNABLE")
  case True
  then show ?thesis using assms by (auto simp: scheduler_at_def switchuvm_def procs_ok_def)
next
  case False
  then show ?thesis using assms(1) by (simp add: scheduler_at_def)
qed

lemma scheduler_pass_runs:
  assumes "procs_ok s" and "set ps \<subseteq> {..<NPROC}" and "q \<in> set ps \<Longrightarrow> p_state (ptable s ! q) = RUNNABLE"
    and run: "\<And>p s. procs_ok s \<Longrightarrow> p < NPROC \<Longrightarrow> procs_ok (run p s)"
      "\<And>p s. procs_ok s \<Longrightarrow> p < NPROC \<Longrightarrow> p \<noteq> q \<Longrightarrow> p_state (ptable s ! q) = RUNNABLE \<Longrightarrow> p_state (ptable (run p s) ! q) = RUNNABLE"
    and "distinct ps"
  shows "\<exists>tr s'. scheduler_pass run ps s = Ok (tr, s') \<and> (q \<in> set ps \<longrightarrow> q \<in> set tr)"
  using assms(1-3,6)
proof (induction ps arbitrary: s)
  case (Cons p ps)
  have p: "p < NPROC" using Cons.prems(2) by simp
  obtain s1 where s1: "scheduler_at p s = Ok (p_state (ptable s ! p) = RUNNABLE, s1)" "procs_ok s1"
    "\<And>q. q \<noteq> p \<Longrightarrow> ptable s1 ! q = ptable s ! q"
    using scheduler_at_ok [OF Cons.prems(1) p] by auto
  define s2 where "s2 = (if p_state (ptable s ! p) = RUNNABLE then run p s1 else s1)"
  have "procs_ok s2" using run(1) [OF s1(2) p] s1(2) by (simp add: s2_def)
  moreover have "p_state (ptable s2 ! q) = RUNNABLE" if "q \<in> set ps"
  proof -
    have "q \<noteq> p" using Cons.prems(4) that by auto
    then have "p_state (ptable s1 ! q) = RUNNABLE" using s1(3) Cons.prems(3) that by simp
    then show ?thesis using run(2) [OF s1(2) p] \<open>q \<noteq> p\<close> by (simp add: s2_def)
  qed
  ultimately obtain tr s' where "scheduler_pass run ps s2 = Ok (tr, s')" "q \<in> set ps \<longrightarrow> q \<in> set tr"
    using Cons.IH [of s2] Cons.prems(2,4) by auto
  then show ?case using s1(1) Cons.prems(3) by (auto simp: s2_def)
qed simp

section \<open>Arguments\<close>

lemma unat_add_below:
  assumes "a < sz" and "sz \<le> KERNBASE" and "0 \<le> n" and "n < 2 ^ 31"
  shows "unat (a + word_of_int n) = unat a + nat n"
proof -
  have a: "unat a < 2 ^ 31" using assms(1,2) by (simp add: KERNBASE_def word_less_nat_alt word_le_nat_alt)
  have n: "unat (word_of_int n :: uint) = nat n"
    using assms(3,4) by (simp add: unat_eq_nat_uint uint_word_of_int_eq take_bit_int_eq_self)
  have "nat n < 2 ^ 31" using assms(3,4) by simp
  then show ?thesis using a n unat_plus_simple [of a "word_of_int n"] no_olen_add_nat [of a "word_of_int n"] by simp
qed

lemma fetchstr_loop_str:
  "fetchstr_loop n a s = Ok (Some cs) \<Longrightarrow> length cs < n \<and> 0 \<notin> set cs \<and> user_loads (Suc (length cs)) a s = Ok (cs @ [0])"
proof (induction n arbitrary: a cs)
  case (Suc n)
  from Suc.prems obtain c where c: "user_load a s = Ok c"
    "(if c = 0 then Ok (Some []) else obind (fetchstr_loop n (a + 1) s) (\<lambda>r. Ok (map_option ((#) c) r))) = Ok (Some cs)"
    by (auto elim!: obind_OkE)
  show ?case
  proof (cases "c = 0")
    case True
    then show ?thesis using c by simp
  next
    case False
    then obtain ds where ds: "fetchstr_loop n (a + 1) s = Ok (Some ds)" "cs = c # ds"
      using c(2) by (auto elim!: obind_OkE)
    then show ?thesis using Suc.IH [OF ds(1)] c(1) False by simp
  qed
qed simp

section \<open>Properties\<close>

text \<open>A process whose first page table and first page stand in physical memory, with the string \<^verbatim>\<open>hi\<close> at
  address 16, in a table where all other entries are unused.\<close>

definition sample_proc :: proc where
  "sample_proc = \<lparr>p_sz = 19, p_pgdir = 0x80001000, p_kstack = 0x80005000, p_state = RUNNING, p_pid = 1, p_parent = None,
     p_tf = \<lparr>tf_eax = 0, tf_eip = 0, tf_esp = 0, tf_cs = 27, tf_ds = 35, tf_es = 35, tf_ss = 35, tf_eflags = 512, tf_trapno = 64\<rparr>,
     p_context = \<lparr>c_edi = 0, c_esi = 0, c_ebx = 0, c_ebp = 0, c_eip = 0\<rparr>,
     p_chan = None, p_killed = False, p_ofile = replicate NOFILE None, p_cwd = None, p_name = []\<rparr>"

definition sample_bytes :: mem where
  "sample_bytes = (\<lambda>a. if a = 0x80001000 then 0x07 else if a = 0x80001001 then 0x20 else if a = 0x80002000 then 0x07
     else if a = 0x80002001 then 0x30 else if a = 0x80003010 then 104 else if a = 0x80003011 then 105 else 0)"

definition sample_kernel :: kernel where
  "sample_kernel = \<lparr>bufs = [], disk = (\<lambda>_. []), disksize = 0, dwrites = [], mypid = 1, log_start = 2, log_size = 30,
     log_outstanding = 0, log_committing = False, log_dev = 1, lh_n = 0, lh_block = [],
     sb = \<lparr>sb_size = 50, sb_nblocks = 8, sb_ninodes = 16, sb_nlog = 30, sb_logstart = 2, sb_inodestart = 32, sb_bmapstart = 40\<rparr>,
     icache = [], ftable = [], pipes = (\<lambda>_. pipeinit []), pmem = \<lparr>kmem_bytes = sample_bytes, use_lock = True, freelist = 0\<rparr>,
     ptable = sample_proc # replicate 63 (sample_proc\<lparr>p_state := UNUSED\<rparr>), initproc = 0, nextpid = 2, cur = 0,
     con = sample_console, ticks = 0\<rparr>"

lemmas sample_kernel_simps = sample_kernel_def sample_proc_def sample_bytes_def



text \<open>C26. The scheduler starves no process. In a table where every runnable process has a kernel stack and
  a page table, a pass of the scheduler returns and switches to every process that is runnable at
  its start and stays so while the others run.\<close>

theorem scheduler_fair:
  assumes "procs_ok s" and "q < NPROC" and "p_state (ptable s ! q) = RUNNABLE"
    and "\<And>p s. procs_ok s \<Longrightarrow> p < NPROC \<Longrightarrow> procs_ok (run p s)"
    and "\<And>p s. procs_ok s \<Longrightarrow> p < NPROC \<Longrightarrow> p \<noteq> q \<Longrightarrow> p_state (ptable s ! q) = RUNNABLE \<Longrightarrow> p_state (ptable (run p s) ! q) = RUNNABLE"
  shows "\<exists>tr s'. scheduler_pass run [0..<NPROC] s = Ok (tr, s') \<and> q \<in> set tr"
proof -
  have "\<exists>tr s'. scheduler_pass run [0..<NPROC] s = Ok (tr, s') \<and> (q \<in> set [0..<NPROC] \<longrightarrow> q \<in> set tr)"
    by (rule scheduler_pass_runs) (use assms in auto)
  then show ?thesis using assms(2) by simp
qed

lemma sample_yielded:
  "procs_ok (pupd 0 (\<lambda>p. p\<lparr>p_state := RUNNABLE\<rparr>) sample_kernel)"
  "p_state (ptable (pupd 0 (\<lambda>p. p\<lparr>p_state := RUNNABLE\<rparr>) sample_kernel) ! 0) = RUNNABLE"
  by (auto simp: procs_ok_def sample_kernel_def NPROC_def sample_proc_def nth_Cons split: nat.splits)

theorem scheduler_fair_witness:
  "\<exists>tr s'. scheduler_pass (\<lambda>p. pupd p (\<lambda>p. p\<lparr>p_state := ZOMBIE\<rparr>)) [0..<NPROC]
     (pupd 0 (\<lambda>p. p\<lparr>p_state := RUNNABLE\<rparr>) sample_kernel) = Ok (tr, s') \<and> 0 \<in> set tr"
  by (rule scheduler_fair [OF sample_yielded(1) _ sample_yielded(2)]) (auto simp: procs_ok_def NPROC_def)

text \<open>C27. A pointer argument that the kernel accepts lies inside the memory of the process: for a process no larger
  than the user address space and a length that fits an \<^verbatim>\<open>int\<close>, \<open>argptr\<close> accepts only an address from which
  \<open>len\<close> bytes end at or before the size of the process, in spite of the wrap-around of its sum.\<close>

theorem argptr_inside:
  assumes "argptr n len s = Ok (Some a)" and "p_sz (myproc s) \<le> KERNBASE" and "len < 2 ^ 31"
  shows "0 \<le> len \<and> unat a + nat len \<le> unat (p_sz (myproc s))"
proof -
  from assms(1) have a: "0 \<le> len" "a < p_sz (myproc s)" "a + word_of_int len \<le> p_sz (myproc s)"
    by (auto simp: argptr_def not_le not_less split: option.splits if_splits elim!: obind_OkE)
  then show ?thesis using unat_add_below [OF a(2) assms(2) a(1) assms(3)] by (simp add: word_le_nat_alt)
qed

lemma sample_argptr: "argptr 0 10 sample_kernel = Ok (Some 0)"
proof -
  have four: "user_loads 4 a s = user_loads (Suc (Suc (Suc (Suc 0)))) a s" for a s by (simp add: eval_nat_numeral)
  show ?thesis
    by (simp add: argptr_def argint_def fetchint_def four user_load_def user_addr_def walkpgdir_def get32_def load32_def
      PDX_def PTX_def PTE_ADDR_def PTE_P_def P2V_def KERNBASE_def bytes_u32_def sample_kernel_simps)
qed

theorem argptr_inside_witness:
  "argptr 0 10 sample_kernel = Ok (Some 0) \<and> unat (0 :: uint) + nat 10 \<le> unat (p_sz (myproc sample_kernel))"
  using argptr_inside [OF sample_argptr] sample_argptr by (simp add: sample_kernel_def sample_proc_def KERNBASE_def)

text \<open>C28. A string argument that the kernel accepts ends inside the memory of the process: when \<open>fetchstr\<close> returns a
  string, it has no NUL inside, the bytes at the address are the string and a NUL, and the last of
  them lies below the size of the process.\<close>

theorem fetchstr_inside:
  assumes "fetchstr addr s = Ok (Some cs)"
  shows "0 \<notin> set cs \<and> user_loads (length cs + 1) addr s = Ok (cs @ [0]) \<and> unat addr + length cs < unat (p_sz (myproc s))"
  using assms fetchstr_loop_str [of "unat (p_sz (myproc s)) - unat addr" addr s cs]
  by (auto simp: fetchstr_def split: if_splits)

lemma sample_fetchstr: "fetchstr 16 sample_kernel = Ok (Some [104, 105])"
proof -
  have "fetchstr 16 sample_kernel = fetchstr_loop 3 16 sample_kernel"
    by (simp add: fetchstr_def sample_kernel_def sample_proc_def)
  then show ?thesis by (simp add: numeral_3_eq_3 user_load_def user_addr_def walkpgdir_def get32_def load32_def
    PDX_def PTX_def PTE_ADDR_def PTE_P_def P2V_def KERNBASE_def bytes_u32_def sample_kernel_simps)
qed

theorem fetchstr_inside_witness:
  "user_loads 3 16 sample_kernel = Ok [104, 105, 0] \<and> fetchstr 16 sample_kernel = Ok (Some [104, 105])"
  using fetchstr_inside [OF sample_fetchstr] sample_fetchstr by (simp add: numeral_3_eq_3)

end
