(* ===== verification/Syscall_Laws.thy ===== *)
theory Syscall_Laws
  imports Syscall Kernel_Laws
begin

text \<open>
  Laws of system calls: descriptors that \<^verbatim>\<open>dup\<close> hands out and \<^verbatim>\<open>close\<close> takes back, and the screen calls that
  store outside the screen.
\<close>

lemma argint_four: "user_loads 4 a s = user_loads (Suc (Suc (Suc (Suc 0)))) a s"
  by (simp add: eval_nat_numeral)

lemma find_upt:
  "find P [0..<n] = Some i \<Longrightarrow> i < n \<and> P i \<and> (\<forall>j < i. \<not> P j)"
  "find P [0..<n] = None \<longleftrightarrow> (\<forall>j < n. \<not> P j)"
  by (auto simp: find_Some_iff find_None_iff)

lemma pupd_same: "f (ptable s ! p) = ptable s ! p \<Longrightarrow> pupd p f s = s"
  by (cases s) (simp add: pupd_def)

lemma pupd_pupd: "p < length (ptable s) \<Longrightarrow> pupd p f (pupd p g s) = pupd p (\<lambda>x. f (g x)) s"
  by (simp add: pupd_def)

lemma ofile_update_same: "p_ofile p ! fd = x \<Longrightarrow> p\<lparr>p_ofile := (p_ofile p)[fd := x]\<rparr> = p"
  by (cases p) auto

lemma set_ofile_undo:
  assumes "cur s < length (ptable s)" and "p_ofile (myproc s) ! fd = None"
  shows "set_ofile fd None (set_ofile fd x s) = s"
proof -
  have "set_ofile fd None (set_ofile fd x s) = pupd (cur s) (\<lambda>p. p\<lparr>p_ofile := (p_ofile p)[fd := None]\<rparr>) s"
    unfolding set_ofile_def pupd_sel(3) pupd_pupd [OF assms(1)] by simp
  also have "\<dots> = s" by (rule pupd_same) (rule ofile_update_same [OF assms(2)])
  finally show ?thesis .
qed

lemma fupd_undo: "f < length (ftable s) \<Longrightarrow> g (h (ftable s ! f)) = ftable s ! f \<Longrightarrow> fupd f g (fupd f h s) = s"
  by (cases s) (simp add: fupd_def)

lemma fupd_set_ofile: "fupd f g (set_ofile fd x s) = set_ofile fd x (fupd f g s)"
  by (simp add: fupd_def set_ofile_def pupd_def)

section \<open>Properties\<close>

text \<open>C30. \<^verbatim>\<open>dup\<close> gives the lowest free descriptor, and closing it undoes the call: with an open file as its argument and a free
  descriptor, \<open>sys_dup\<close> returns the lowest one, makes it refer to the same file, counts one reference more, and
  closing that descriptor gives exactly the state before.\<close>

theorem dup_close:
  assumes "argfd 0 s = Ok (Some (fd0, f))" and "1 \<le> f_ref (ftable s ! f)" and "f < length (ftable s)"
    and "cur s < length (ptable s)" and "length (p_ofile (myproc s)) = NOFILE"
    and "j < NOFILE" and "p_ofile (myproc s) ! j = None"
  shows "\<exists>fd s'. sys_dup s = Ok (int fd, s') \<and> p_ofile (myproc s) ! fd = None \<and> (\<forall>i < fd. p_ofile (myproc s) ! i \<noteq> None) \<and>
    p_ofile (myproc s') ! fd = Some f \<and> f_ref (ftable s' ! f) = f_ref (ftable s ! f) + 1 \<and>
    fileclose kend f (set_ofile fd None s') = Ok s"
proof -
  obtain fd where fd: "find (\<lambda>fd. p_ofile (myproc s) ! fd = None) [0..<NOFILE] = Some fd"
    using assms(6,7) find_upt(2) [of "\<lambda>fd. p_ofile (myproc s) ! fd = None" NOFILE] by fastforce
  note low = find_upt(1) [OF fd]
  define s' where "s' = fupd f (\<lambda>x. x\<lparr>f_ref := f_ref x + 1\<rparr>) (set_ofile fd (Some f) s)"
  have ft: "ftable (set_ofile fd (Some f) s) = ftable s" by (simp add: set_ofile_def pupd_def)
  have "sys_dup s = Ok (int fd, s')"
    using assms(1,2) ft by (simp add: sys_dup_def fdalloc_def fd filedup_def s'_def)
  moreover have "p_ofile (myproc s') ! fd = Some f"
    using assms(4,5) low by (simp add: s'_def fupd_def set_ofile_def pupd_def)
  moreover have "f_ref (ftable s' ! f) = f_ref (ftable s ! f) + 1"
    using assms(3) ft by (simp add: s'_def fupd_def)
  moreover have "set_ofile fd None s' = fupd f (\<lambda>x. x\<lparr>f_ref := f_ref x + 1\<rparr>) s"
    using low unfolding s'_def fupd_set_ofile [symmetric] by (simp add: set_ofile_undo [OF assms(4)])
  then have "fileclose kend f (set_ofile fd None s') = Ok s"
    using assms(2,3) by (simp add: fileclose_def fupd_undo) (simp add: fupd_def)
  ultimately show ?thesis using low by (intro exI [of _ fd] exI [of _ s'] conjI) simp_all
qed

definition sample_open :: kernel where
  "sample_open = (pupd 0 (\<lambda>p. p\<lparr>p_ofile := (replicate NOFILE None)[0 := Some 0]\<rparr>) sample_kernel)\<lparr>ftable :=
     [\<lparr>f_type = FD_INODE, f_ref = 1, f_readable = True, f_writable = True, f_pipe = 0, f_ip = 0, f_off = 0\<rparr>]\<rparr>"

lemma sample_open_argfd: "argfd 0 sample_open = Ok (Some (0, 0))"
  by (simp add: argfd_def argint_def fetchint_def argint_four user_load_def user_addr_def walkpgdir_def get32_def load32_def
    PDX_def PTX_def PTE_ADDR_def PTE_P_def P2V_def KERNBASE_def bytes_u32_def NOFILE_def sample_open_def pupd_def
    sample_kernel_simps)

theorem dup_close_witness:
  "\<exists>fd s'. sys_dup sample_open = Ok (int fd, s') \<and> fd \<noteq> 0 \<and> p_ofile (myproc s') ! fd = Some 0 \<and>
    fileclose 0x80100000 0 (set_ofile fd None s') = Ok sample_open"
proof -
  have s: "1 \<le> f_ref (ftable sample_open ! 0)" "0 < length (ftable sample_open)" "cur sample_open < length (ptable sample_open)"
    "p_ofile (myproc sample_open) = (replicate NOFILE None)[0 := Some 0]"
    by (simp_all add: sample_open_def sample_kernel_def pupd_def)
  have o: "length (p_ofile (myproc sample_open)) = NOFILE" "p_ofile (myproc sample_open) ! 1 = None"
    "p_ofile (myproc sample_open) ! 0 \<noteq> None" "1 < NOFILE"
    unfolding s(4) by (simp_all add: NOFILE_def)
  obtain fd s' where r: "sys_dup sample_open = Ok (int fd, s')" "p_ofile (myproc sample_open) ! fd = None"
    "p_ofile (myproc s') ! fd = Some 0" "fileclose 0x80100000 0 (set_ofile fd None s') = Ok sample_open"
    using dup_close [OF sample_open_argfd s(1-3) o(1,4,2), of "0x80100000"] by (elim exE conjE) (rule that)
  then have "fd \<noteq> 0" using o(3) by metis
  then show ?thesis by (intro exI [of _ fd] exI [of _ s'] conjI r(1,3,4))
qed

text \<open>C31. A user process can make the kernel store outside the screen: whatever state the kernel is in, system call 30, \<^verbatim>\<open>putchar\<close>, with
  a position that is negative or behind the last cell of the screen is undefined behaviour of the kernel.\<close>

theorem putchar_outside_screen:
  assumes "tf_eax (p_tf (myproc s)) = 30" and "argint 0 s = Ok (Some pos)" and "argint 1 s = Ok (Some c)"
    and "sint pos < 0 \<or> int (length (crt (con s))) \<le> sint pos"
  shows "dispatch L s = Undef"
proof -
  have "sys_putchar s = Undef"
    using assms(2-4) by (auto simp: sys_putchar_def arg_def on_con_def putchar_def setcch_def aset_def)
  moreover have "map_of (syscalls L) 30 = Some sys_putchar" by (simp add: syscalls_def Let_def)
  ultimately show ?thesis using assms(1) by (simp add: dispatch_def)
qed

definition sample_putchar :: kernel where
  "sample_putchar = pupd 0 (\<lambda>p. p\<lparr>p_sz := 24, p_tf := (p_tf p)\<lparr>tf_eax := 30, tf_esp := 12\<rparr>\<rparr>) sample_kernel"

lemma sample_putchar_args: "argint 0 sample_putchar = Ok (Some 26984)" "argint 1 sample_putchar = Ok (Some 0)"
  by (simp_all add: argint_def fetchint_def argint_four user_load_def user_addr_def walkpgdir_def get32_def load32_def
    PDX_def PTX_def PTE_ADDR_def PTE_P_def P2V_def KERNBASE_def bytes_u32_def sample_putchar_def pupd_def
    sample_kernel_simps)

theorem putchar_outside_screen_witness:
  "dispatch \<lparr>l_end = 0x80100000, l_data = 0x80108000, l_trapret = 0, l_forkret = 0, l_initcode = 0, l_initsize = 0\<rparr> sample_putchar = Undef"
  by (rule putchar_outside_screen [OF _ sample_putchar_args])
    (simp_all add: sample_putchar_def pupd_def sample_kernel_def sample_console_def)

end
