(* ===== verification/Kbd.thy ===== *)
theory Kbd
  imports Pipe
begin

text \<open>
  The keyboard driver (\<^verbatim>\<open>kbd.c\<close>, \<^verbatim>\<open>kbd.h\<close>): the scan code tables and the decoder \<open>kbdgetc\<close> with its
  modifier state. The status and data ports are arguments.
\<close>

unbundle bit_operations_syntax

definition table :: "byte list \<Rightarrow> (nat \<times> byte) list \<Rightarrow> nat \<Rightarrow> byte" where
  "table init extra i =
     (case map_of extra i of Some v \<Rightarrow> v | None \<Rightarrow> if i < length init then init ! i else 0)"

definition SHIFT :: byte where "SHIFT = 1"
definition CTL :: byte where "CTL = 2"
definition ALT :: byte where "ALT = 4"
definition CAPSLOCK :: byte where "CAPSLOCK = 8"
definition NUMLOCK :: byte where "NUMLOCK = 16"
definition SCROLLLOCK :: byte where "SCROLLLOCK = 32"
definition E0ESC :: uint where "E0ESC = 64"

definition shiftcode :: "nat \<Rightarrow> byte" where
  "shiftcode = table [] [(0x1D, CTL), (0x2A, SHIFT), (0x36, SHIFT), (0x38, ALT), (0x9D, CTL), (0xB8, ALT)]"

definition togglecode :: "nat \<Rightarrow> byte" where
  "togglecode = table [] [(0x3A, CAPSLOCK), (0x45, NUMLOCK), (0x46, SCROLLLOCK)]"

definition keypad :: "byte \<Rightarrow> byte \<Rightarrow> (nat \<times> byte) list" where
  "keypad enter slash =
     [(0x9C, enter), (0xB5, slash), (0xC8, 0xE2), (0xD0, 0xE3), (0xC9, 0xE6), (0xD1, 0xE7),
      (0xCB, 0xE4), (0xCD, 0xE5), (0x97, 0xE0), (0xCF, 0xE1), (0xD2, 0xE8), (0xD3, 0xE9)]"

definition normalmap :: "nat \<Rightarrow> byte" where
  "normalmap = table
    [0, 27, 49, 50, 51, 52, 53, 54, 55, 56, 57, 48, 45, 61, 8, 9,
     113, 119, 101, 114, 116, 121, 117, 105, 111, 112, 91, 93, 10, 0, 97, 115,
     100, 102, 103, 104, 106, 107, 108, 59, 39, 96, 0, 92, 122, 120, 99, 118,
     98, 110, 109, 44, 46, 47, 0, 42, 0, 32, 0, 0, 0, 0, 0, 0,
     0, 0, 0, 0, 0, 0, 0, 55, 56, 57, 45, 52, 53, 54, 43, 49,
     50, 51, 48, 46, 0, 0, 0, 0] (keypad 10 47)"

definition shiftmap :: "nat \<Rightarrow> byte" where
  "shiftmap = table
    [0, 27, 33, 64, 35, 36, 37, 94, 38, 42, 40, 41, 95, 43, 8, 9,
     81, 87, 69, 82, 84, 89, 85, 73, 79, 80, 123, 125, 10, 0, 65, 83,
     68, 70, 71, 72, 74, 75, 76, 58, 34, 126, 0, 124, 90, 88, 67, 86,
     66, 78, 77, 60, 62, 63, 0, 42, 0, 32, 0, 0, 0, 0, 0, 0,
     0, 0, 0, 0, 0, 0, 0, 55, 56, 57, 45, 52, 53, 54, 43, 49,
     50, 51, 48, 46, 0, 0, 0, 0] (keypad 10 47)"

text \<open>In the control table the entry \<open>C('/')\<close> is \<open>47 - 64\<close>, stored in an unsigned character.\<close>

definition ctlmap :: "nat \<Rightarrow> byte" where
  "ctlmap = table
    [0, 0, 0, 0, 0, 0, 0, 0, 0, 0, 0, 0, 0, 0, 0, 0,
     17, 23, 5, 18, 20, 25, 21, 9, 15, 16, 0, 0, 13, 0, 1, 19,
     4, 6, 7, 8, 10, 11, 12, 0, 0, 0, 0, 28, 26, 24, 3, 22,
     2, 14, 13, 0, 0, (47 - 64), 0, 0] (keypad 13 (47 - 64))"

definition charcode :: "nat \<Rightarrow> nat \<Rightarrow> byte" where
  "charcode k = [normalmap, shiftmap, ctlmap, ctlmap] ! k"

definition KBS_DIB :: byte where "KBS_DIB = 1"

text \<open>The result and the new modifier state, for one reading of the status and the data port.\<close>

definition kbdgetc :: "byte \<Rightarrow> byte \<Rightarrow> uint \<Rightarrow> int \<times> uint" where
  "kbdgetc st port shift =
     (if st AND KBS_DIB = 0 then (- 1, shift)
      else let data = (ucast port :: uint) in
        if data = 0xE0 then (0, shift OR E0ESC)
        else if data AND 0x80 \<noteq> 0 then
          let data = (if shift AND E0ESC \<noteq> 0 then data else data AND 0x7F)
          in (0, shift AND NOT (ucast (shiftcode (unat data)) OR E0ESC))
        else
          let (data, shift) = (if shift AND E0ESC \<noteq> 0 then (data OR 0x80, shift AND NOT E0ESC) else (data, shift));
              shift = shift OR ucast (shiftcode (unat data));
              shift = shift XOR ucast (togglecode (unat data));
              c = ucast (charcode (unat (shift AND 3)) (unat data)) :: uint;
              c = (if shift AND ucast CAPSLOCK \<noteq> 0 then
                     if 97 \<le> c \<and> c \<le> 122 then c + 65 - 97
                     else if 65 \<le> c \<and> c \<le> 90 then c + 97 - 65 else c
                   else c)
          in (uint c, shift))"

text \<open>What \<open>kbdintr\<close> hands to the console: the results for a sequence of pending scan codes.\<close>

fun scan_codes :: "byte list \<Rightarrow> uint \<Rightarrow> int list \<times> uint" where
  "scan_codes [] shift = ([], shift)"
| "scan_codes (b # bs) shift =
     (let (c, shift) = kbdgetc KBS_DIB b shift; (cs, shift) = scan_codes bs shift in (c # cs, shift))"

section \<open>Properties\<close>

lemma shiftcode_lshift: "shiftcode 42 = 1" "togglecode 42 = 0" "charcode 1 42 = 0"
  by (simp_all add: shiftcode_def togglecode_def table_def SHIFT_def charcode_def shiftmap_def keypad_def)

lemma sh_bits:
  fixes sh :: uint
  assumes "sh AND 0x4B = 0"
  shows "sh AND 64 = 0" "(sh OR 1) AND 64 = 0" "(sh OR 1) AND 3 = 1" "(sh OR 1) AND 8 = 0"
    "(sh OR 1) AND NOT 65 = sh"
proof -
  have b: "(sh AND 0x4B) AND k = 0" for k using assms by simp
  have m: "sh AND k = 0" if "0x4B AND k = k" for k :: uint
    using b [of k] that by (simp add: and.assoc)
  show a: "sh AND 64 = 0" by (rule m) simp
  have "sh AND 3 = 0" "sh AND 8 = 0" "sh AND 65 = 0" by (rule m, simp)+
  then show "(sh OR 1) AND 64 = 0" "(sh OR 1) AND 3 = 1" "(sh OR 1) AND 8 = 0" using a
    by (simp_all add: bit.conj_disj_distrib2)
  have "sh = sh AND (65 OR NOT 65)" by simp
  also have "\<dots> = (sh AND 65) OR (sh AND NOT 65)" by (rule bit.conj_disj_distrib)
  also have "\<dots> = sh AND NOT 65" using \<open>sh AND 65 = 0\<close> by simp
  finally have e: "sh AND NOT 65 = sh" ..
  have "(1::uint) AND NOT 65 = 0" by simp
  then show "(sh OR 1) AND NOT 65 = sh" using e by (simp only: bit.conj_disj_distrib2 or.right_neutral)
qed

text \<open>C18. A shifted key: with the modifiers off, the scan codes of left shift down, a key that is not itself a
  modifier, and left shift up give the character of the shift table, and leave the modifier state as it was.\<close>

theorem kbd_shifted_key:
  assumes "sh AND 0x4B = 0" and "k < 0x80" and "shiftcode (unat k) = 0" and "togglecode (unat k) = 0"
  shows "scan_codes [0x2A, k, 0xAA] sh = ([0, uint (shiftmap (unat k)), 0], sh)"
proof -
  have up: "uint (ucast b :: uint) = uint b" for b :: byte by (simp add: uint_up_ucast is_up)
  then have un: "unat (ucast b :: uint) = unat b" for b :: byte by (simp only: unat_eq_nat_uint)
  have z: "shiftmap 42 = 0" using shiftcode_lshift(3) by (simp add: charcode_def)
  have "unat k < 128" using assms(2) by (simp add: word_less_nat_alt)
  then have lt: "unat (ucast k :: uint) < 128" using un [of k] by simp
  then have "ucast k < (128 :: uint)" by (simp add: word_less_nat_alt)
  then have "(ucast k :: uint) div 128 = 0" by (rule div_word_less)
  then have "\<not> bit (ucast k :: uint) 7" by (simp add: bit_iff_odd)
  then have k: "(ucast k :: uint) AND 0x80 = 0" "(ucast k :: uint) \<noteq> 0xE0"
    using and_exp_eq_0_iff_not_bit [of "ucast k :: uint" 7] lt by auto
  show ?thesis
    using assms k un [of k] up [of "shiftmap (unat k)"] z sh_bits [OF assms(1)] by (simp add: kbdgetc_def Let_def shiftcode_lshift KBS_DIB_def E0ESC_def CAPSLOCK_def charcode_def)
qed

theorem kbd_shifted_key_witness: "scan_codes [0x2A, 0x1E, 0xAA] 0x10 = ([0, 65, 0], 0x10)"
  using kbd_shifted_key [of "0x10" "0x1E"]
  by (simp add: shiftcode_def togglecode_def table_def shiftmap_def keypad_def)

end
