(* ===== verification/Vim.thy ===== *)
theory Vim
  imports Console
begin

text \<open>
  The editor (\<^verbatim>\<open>vim.c\<close>, \<^verbatim>\<open>vim.h\<close>). The text is the linked list of lines, here a list; a line has 80
  characters, and a string operation that finds no terminator among them is undefined. The screen
  calls are the console functions. Files are byte lists, keys the characters that \<^verbatim>\<open>read\<close> delivers.
\<close>

definition MAX_FILE_SIZE :: nat where "MAX_FILE_SIZE = 200000"
definition KEY_ESC :: int where "KEY_ESC = 0x1B"

record line =
  l_c :: "byte list"
  l_len :: nat
  l_lineno :: int
  l_para :: int

record vim =
  v_text :: "line list"        \<comment> \<open>ctx->start\<close>
  v_lines :: int               \<comment> \<open>ctx->lines\<close>
  vimline :: int
  v_mode :: int
  v_con :: console
  v_msg :: "byte list"

definition vstrlen :: "byte list \<Rightarrow> nat outcome" where
  "vstrlen c = (if 0 \<in> set c then Ok (length (takeWhile (\<lambda>x. x \<noteq> 0) c)) else Undef)"

definition on_scr :: "(console \<Rightarrow> console outcome) \<Rightarrow> vim \<Rightarrow> vim outcome" where
  "on_scr f v = obind (f (v_con v)) (\<lambda>c. Ok (v\<lparr>v_con := c\<rparr>))"

definition upvimline :: "vim \<Rightarrow> vim" where "upvimline v = v\<lparr>vimline := vimline v + 1\<rparr>"
definition downvimline :: "vim \<Rightarrow> vim" where "downvimline v = v\<lparr>vimline := vimline v - 1\<rparr>"

section \<open>Reading and writing the file\<close>

definition line1 :: line where
  "line1 = \<lparr>l_c = replicate 80 0, l_len = 0, l_lineno = 1, l_para = 1\<rparr>"

text \<open>One round of the loop of \<open>readfile\<close> on the current line \<open>p\<close>: what happens to it, and the new line
  that a line end starts.\<close>

definition readfile_char :: "nat \<Rightarrow> byte \<Rightarrow> line \<Rightarrow> (line \<times> line option) outcome" where
  "readfile_char i c p =
     (if c = 10 then
        obind (vstrlen (l_c p)) (\<lambda>n.
        let p = p\<lparr>l_len := n, l_lineno := int (i div 80) + 1\<rparr>
        in Ok (p, Some \<lparr>l_c = (replicate 80 0)[0 := 10], l_len = 1, l_lineno = l_lineno p + 1, l_para = l_para p + 1\<rparr>))
      else
        obind (aset (l_c p) (l_len p) c) (\<lambda>d.
        obind (vstrlen d) (\<lambda>n. Ok (p\<lparr>l_c := d, l_len := n\<rparr>, None))))"

fun readfile_loop :: "nat \<Rightarrow> byte list \<Rightarrow> line \<Rightarrow> line list outcome" where
  "readfile_loop i [] p = Ok [p]"
| "readfile_loop i (c # cs) p =
     obind (readfile_char i c p) (\<lambda>(p, nl). case nl of
       None \<Rightarrow> readfile_loop (Suc i) cs p
     | Some q \<Rightarrow> obind (readfile_loop (Suc i) cs q) (\<lambda>ls. Ok (p # ls)))"

text \<open>The file as \<^verbatim>\<open>open\<close> and \<^verbatim>\<open>fstat\<close> give it: \<open>None\<close> if one of them fails or it is no regular file.\<close>

definition readfile :: "byte list option \<Rightarrow> vim \<Rightarrow> (int \<times> vim) outcome" where
  "readfile file_bytes v =
     (case file_bytes of None \<Rightarrow> Ok (- 1, v)
      | Some bs \<Rightarrow>
          if MAX_FILE_SIZE < length bs then Ok (- 1, v)
          else if bs \<noteq> [] then
            obind (readfile_loop 0 bs (if v_text v = [] then line1 else hd (v_text v))) (\<lambda>ls.
            Ok (0, v\<lparr>v_text := ls, v_lines := (if v_text v = [] then 1 else v_lines v) + int (length ls) - 1\<rparr>))
          else if v_text v = [] then Ok (0, v\<lparr>v_text := [line1], v_lines := 1\<rparr>)
          else Ok (0, v))"

fun write_lines :: "line list \<Rightarrow> byte list outcome" where
  "write_lines [] = Ok []"
| "write_lines (l # ls) =
     obind (vstrlen (l_c l)) (\<lambda>n. obind (write_lines ls) (\<lambda>r. Ok (take n (l_c l) @ r)))"

text \<open>The bytes that \<open>writefile\<close> writes, one write call per line.\<close>

definition writefile :: "vim \<Rightarrow> byte list outcome" where
  "writefile v = write_lines (v_text v)"

section \<open>Keys\<close>

definition alnum :: "int \<Rightarrow> bool" where
  "alnum c \<longleftrightarrow> 97 \<le> c \<and> c \<le> 122 \<or> 65 \<le> c \<and> c \<le> 90 \<or> 48 \<le> c \<and> c \<le> 57"

definition cmdfilter :: "int \<Rightarrow> bool" where
  "cmdfilter c \<longleftrightarrow> alnum c \<or> c \<in> {35, 46, 47, 92, 43, 45, 42, 95, 33, 64, 36, 37, 94, 38, 58, 32}"

definition inputfilter :: "int \<Rightarrow> bool" where
  "inputfilter c \<longleftrightarrow> alnum c \<or> c \<in> {35, 46, 47, 92, 43, 45, 42, 95, 33, 64, 37, 94, 38, 58, 10, 32, 36}"

section \<open>The screen\<close>

definition scr_fill :: "int \<Rightarrow> int \<Rightarrow> int \<Rightarrow> console \<Rightarrow> console outcome" where
  "scr_fill from to c s = ofold (\<lambda>i. scrputc i c) [from..to - 1] s"

definition clearcli :: "vim \<Rightarrow> vim outcome" where
  "clearcli v = on_scr (scr_fill (MAX_COL * MAX_ROW) (MAX_COL * MAX_ROW + 80) 0) v"

definition white :: "int \<Rightarrow> int" where
  "white c = c mod 256 + 0x0f00"

definition showline :: "vim \<Rightarrow> vim outcome" where
  "showline v =
     (let precur = getcursor (v_con v); b = MAX_COL * MAX_ROW;
          (d1, d2) = (if 10 \<le> vimline v then (cdiv (vimline v) 10, cmod (vimline v) 10) else (0, vimline v));
          label = [108, 105, 110, 101, 58, d1 + 48, d2 + 48] in
      obind (on_scr (scr_fill b (b + 60) 0) v) (\<lambda>v.
      obind (on_scr (ofold (\<lambda>(i, c). scrputc (b + 60 + int i) (white c)) (enumerate 0 label)) v) (\<lambda>v.
      obind (on_scr (scr_fill (b + 67) (b + 80) 0) v) (\<lambda>v.
      on_scr (setcursor precur) v))))"

text \<open>The line with number \<open>no\<close> or the first greater one, or the last line.\<close>

fun seek :: "int \<Rightarrow> line list \<Rightarrow> nat" where
  "seek no [] = 0"
| "seek no [l] = 0"
| "seek no (l # m # ls) = (if l_lineno l < no then Suc (seek no (m # ls)) else 0)"

definition getchar :: "int \<Rightarrow> vim \<Rightarrow> byte outcome" where
  "getchar pos v =
     (if v_text v = [] then Undef
      else let l = v_text v ! seek (vimline v) (v_text v); col = cmod pos 80
        in if col < 0 then Undef else aget (l_c l) (nat col))"

definition cursormove :: "int \<Rightarrow> vim \<Rightarrow> vim outcome" where
  "cursormove move v =
     (let pos = getcursor (v_con v); go = \<lambda>p. on_scr (setcursor p) in
      if move = KEY_LF then
        if v_mode v = V_CMD then if CMD_LINE < pos then go (pos - 1) v else Ok v
        else if 0 < pos then obind (getchar (pos - 1) v) (\<lambda>c. if c \<noteq> 0 then go (pos - 1) v else Ok v)
        else Ok v
      else if move = KEY_RT then
        if v_mode v = V_CMD then
          if pos < MAX_CHAR + CMD_BUF_SZ
          then obind (getcch (pos + 1) (v_con v)) (\<lambda>ch. if ch \<noteq> 0 then go (pos + 1) v else Ok v)
          else Ok v
        else if pos < MAX_CHAR then obind (getchar (pos + 1) v) (\<lambda>c. if c \<noteq> 0 then go (pos + 1) v else Ok v)
        else Ok v
      else if move = KEY_DN then
        if v_mode v \<noteq> V_CMD \<and> cdiv pos 80 + 1 \<le> MAX_ROW \<and> cdiv pos 80 + 1 < v_lines v then
          obind (getchar (pos + MAX_COL) v) (\<lambda>c.
          if c \<noteq> 0 then
            obind (go (if MAX_CHAR \<le> pos + MAX_COL then MAX_CHAR - 1 else pos + MAX_COL) v) (\<lambda>v. Ok (upvimline v))
          else Ok v)
        else Ok v
      else if move = KEY_UP then
        if v_mode v \<noteq> V_CMD \<and> 0 < cdiv pos 80 + 1 then
          obind (getchar (pos - MAX_COL) v) (\<lambda>c.
          if c \<noteq> 0 then
            obind (go (if pos - MAX_COL < 0 then 0 else pos - MAX_COL) v) (\<lambda>v. Ok (downvimline v))
          else Ok v)
        else Ok v
      else Ok v)"

fun print_chars :: "byte list \<Rightarrow> int \<Rightarrow> console \<Rightarrow> (int \<times> console) outcome" where
  "print_chars [] pos s = Ok (pos, s)"
| "print_chars (c # cs) pos s =
     obind (if c = 10 then
              let pos = pos + 80 - cmod (pos + 1) 80 in obind (scrputc pos 10 s) (\<lambda>s. Ok (pos, s))
            else Ok (pos, s)) (\<lambda>(pos, s).
     obind (scrputc pos (uint c) s) (print_chars cs (pos + 1)))"

fun print_lines :: "line list \<Rightarrow> int \<Rightarrow> console \<Rightarrow> console outcome" where
  "print_lines [] pos s = Ok s"
| "print_lines (l # ls) pos s =
     obind (vstrlen (l_c l)) (\<lambda>n.
     obind (print_chars (take n (l_c l)) pos s) (\<lambda>(pos, s). print_lines ls pos s))"

definition printtext :: "int \<Rightarrow> vim \<Rightarrow> vim outcome" where
  "printtext from v =
     (if v_text v = [] then Undef
      else obind (on_scr (print_lines (drop (seek from (v_text v)) (v_text v)) 0) v) (on_scr (setcursor 0)))"

definition lupd :: "nat \<Rightarrow> (line \<Rightarrow> line) \<Rightarrow> vim \<Rightarrow> vim" where
  "lupd i f v = v\<lparr>v_text := (v_text v)[i := f (v_text v ! i)]\<rparr>"

text \<open>Removing a character moves \<open>80 - col\<close> bytes down; the last one comes from behind the array, where
  the low byte of the field \<open>len\<close> lies.\<close>

definition rmch :: "vim \<Rightarrow> vim outcome" where
  "rmch v =
     (if v_text v = [] then Undef
      else
        let pos = getcursor (v_con v); col = nat (cmod pos MAX_COL); i = seek (vimline v) (v_text v);
            p = v_text v ! i in
        obind (vstrlen (l_c p)) (\<lambda>n.
        let v = (if n < 80 then
                   lupd i (\<lambda>l. l\<lparr>l_c := take col (l_c l) @ drop (Suc col) (l_c l) @ [of_nat (l_len l)]\<rparr>) v
                 else v) in
        obind (printtext 1 v) (on_scr (setcursor pos))))"

section \<open>Commands\<close>

text \<open>The loop of \<open>readcmd\<close>: the keys left, the last value of \<open>len\<close> and whether the command was given up.\<close>

datatype cmd_end = Entered "nat option" | TooLong | Escaped

fun readcmd_loop :: "int list \<Rightarrow> nat option \<Rightarrow> int \<Rightarrow> vim \<Rightarrow> (cmd_end \<times> int list \<times> vim) outcome" where
  "readcmd_loop [] len precur v = Ok (Entered len, [], v)"
| "readcmd_loop (c # keys) len precur v =
     (if c = 10 then Ok (Entered len, keys, v)
      else
        let pos = getcursor (v_con v); n = cmod (pos - MAX_CHAR) MAX_COL in
        if CMD_BUF_SZ < n then Ok (TooLong, keys, v)
        else if cmdfilter c then obind (on_scr (scrputc pos c) v) (readcmd_loop keys (Some (nat n)) precur)
        else
          obind (if c = KEY_LF \<or> c = KEY_RT then cursormove c v else Ok v) (\<lambda>v.
          if c = KEY_ESC then
            obind (clearcli (v\<lparr>v_mode := V_READONLY\<rparr>)) (\<lambda>v.
            obind (on_scr (setcursor precur) v) (\<lambda>v. Ok (Escaped, keys, v)))
          else readcmd_loop keys (Some (nat n)) precur v))"

fun cmd_chars :: "nat \<Rightarrow> console \<Rightarrow> byte list outcome" where
  "cmd_chars 0 s = Ok []"
| "cmd_chars (Suc n) s =
     obind (cmd_chars n s) (\<lambda>cs. obind (getcch (MAX_CHAR + int n + 1) s) (\<lambda>ch. Ok (cs @ [ucast ch])))"

text \<open>The command entered, if any, and the keys not read. An empty line leaves \<open>len\<close> without a value.\<close>

definition readcmd :: "int list \<Rightarrow> vim \<Rightarrow> (byte list option \<times> int list \<times> vim) outcome" where
  "readcmd keys v =
     (let precur = getcursor (v_con v) in
      obind (clearcli v) (\<lambda>v.
      obind (on_scr (scrputc CMD_LINE 58) v) (\<lambda>v.
      obind (readcmd_loop keys None precur v) (\<lambda>(r, keys, v). case r of
        TooLong \<Rightarrow> Ok (None, keys, v)
      | Escaped \<Rightarrow> Ok (None, keys, v)
      | Entered None \<Rightarrow> Undef
      | Entered (Some n) \<Rightarrow> obind (cmd_chars n (v_con v)) (\<lambda>cs. Ok (Some cs, keys, v))))))"

definition new_line :: "vim \<Rightarrow> vim outcome" where
  "new_line v =
     (let v = upvimline v; v = v\<lparr>v_con := setline (vimline v) (v_con v)\<rparr> in
      if v_text v = [] then Undef
      else
        let i = length (v_text v) - 1; p = v_text v ! i in
        obind (if l_len p < 80 then
                 obind (vstrlen (l_c p)) (\<lambda>n. obind (aset (l_c p) n 10) (\<lambda>d. Ok (lupd i (\<lambda>l. l\<lparr>l_c := d\<rparr>) v)))
               else Ok v) (\<lambda>v.
        let v = v\<lparr>v_text := v_text v @ [\<lparr>l_c = replicate 80 0, l_len = 0, l_lineno = l_lineno p + 1, l_para = l_para p + 1\<rparr>],
                  v_lines := v_lines v + 1\<rparr>
        in on_scr (\<lambda>s. scrputc (getcursor s) 10 s) v))"

text \<open>The default branch of the key loop: a character typed in insert mode.\<close>

definition type_char :: "int \<Rightarrow> vim \<Rightarrow> vim outcome" where
  "type_char c v =
     (if v_mode v \<noteq> V_INSERT \<or> \<not> inputfilter c then Ok v
      else
        let cp = getcursor (v_con v) in
        obind (on_scr (setcursor cp) v) (\<lambda>v.
        obind (on_scr (scrputc cp c) v) (\<lambda>v.
        if v_text v = [] then Ok (v\<lparr>v_text := [line1], v_lines := 1\<rparr>)
        else
          let i = seek (vimline v) (v_text v); p = v_text v ! i; col = nat (cmod cp 80) in
          if col = 0 \<and> cp \<noteq> 0 \<and> l_len p = 80 then
            let v = upvimline v; v = v\<lparr>v_con := setline (vimline v) (v_con v)\<rparr>; q = last (v_text v);
                d = (replicate 80 0)[col := word_of_int c] in
            obind (vstrlen d) (\<lambda>n.
            Ok (v\<lparr>v_text := v_text v @ [\<lparr>l_c = d, l_len = n, l_lineno = l_lineno q + 1, l_para = l_para q\<rparr>],
                  v_lines := v_lines v + 1\<rparr>))
          else
            obind (aset (l_c p) col (word_of_int c)) (\<lambda>d.
            obind (vstrlen d) (\<lambda>n. Ok (lupd i (\<lambda>l. l\<lparr>l_c := d, l_len := n\<rparr>) v))))))"

datatype vend = Going | Quit | SaveQuit

definition run_cmd :: "int list \<Rightarrow> vim \<Rightarrow> (vend \<times> int list \<times> vim) outcome" where
  "run_cmd keys v =
     obind (readcmd keys (v\<lparr>v_mode := V_CMD\<rparr>)) (\<lambda>(cmd, keys, v). case cmd of
       None \<Rightarrow> Ok (Going, keys, v)
     | Some cs \<Rightarrow>
         let at = \<lambda>i. if i < length cs then cs ! i else 0 in
         if at 0 = 113 then Ok (Quit, keys, v)
         else if at 0 = 119 \<and> at 1 = 113 then Ok (SaveQuit, keys, v)
         else obind (on_scr (setcursor CMD_LINE) v) (\<lambda>v. Ok (Going, keys, v)))"

text \<open>One round of the key loop of \<open>main\<close> on the key \<open>c\<close>.\<close>

definition key_step :: "int \<Rightarrow> int list \<Rightarrow> vim \<Rightarrow> (vend \<times> int list \<times> vim) outcome" where
  "key_step c keys v =
     obind (showline v) (\<lambda>v.
     let go = \<lambda>m. obind m (\<lambda>v. Ok (Going, keys, v)); ro = (v_mode v = V_READONLY) in
     if c \<in> {KEY_UP, KEY_DN, KEY_LF, KEY_RT} then go (cursormove c v)
     else if c = 107 then go (if v_mode v = V_INSERT then cursormove KEY_UP v else type_char c v)
     else if c = 106 then go (if ro then cursormove KEY_DN v else type_char c v)
     else if c = 104 then go (if ro then cursormove KEY_LF v else type_char c v)
     else if c = 108 then go (if ro then cursormove KEY_RT v else type_char c v)
     else if c = 71 then go (if ro then on_scr (setcursor (v_lines v * MAX_COL)) v else Ok v)
     else if c = 103 then go (if ro then on_scr (setcursor 0) v else Ok v)
     else if c = KEY_ESC then
       go (if v_mode v = V_INSERT then cursormove KEY_LF (v\<lparr>v_mode := V_READONLY\<rparr>)
           else if v_mode v = V_CMD then Ok (v\<lparr>v_mode := V_READONLY\<rparr>) else Ok v)
     else if c = 58 then
       if ro then run_cmd keys v else go (if v_mode v = V_INSERT then type_char c v else Ok v)
     else if c = 105 then
       go (if ro then Ok (v\<lparr>v_mode := V_INSERT\<rparr>) else if v_mode v = V_INSERT then type_char c v else Ok v)
     else if c = 120 then
       go (if ro then rmch v else if v_mode v = V_INSERT then type_char c v else Ok v)
     else if c = 10 then go (new_line v)
     else go (type_char c v))"

text \<open>The key loop, with the number of keys as fuel, and the two ways out: the bytes saved, if any.\<close>

fun key_loop :: "nat \<Rightarrow> int list \<Rightarrow> vim \<Rightarrow> (byte list option \<times> vim) outcome" where
  "key_loop n [] v = obind (writefile v) (\<lambda>bs. Ok (Some bs, v))"
| "key_loop 0 (c # keys) v = Diverge"
| "key_loop (Suc n) (c # keys) v =
     obind (key_step c keys v) (\<lambda>(e, keys, v). case e of
       Going \<Rightarrow> key_loop n keys v
     | Quit \<Rightarrow> Ok (None, v)
     | SaveQuit \<Rightarrow> obind (writefile v) (\<lambda>bs. Ok (Some bs, v)))"

definition vim_main :: "byte list option \<Rightarrow> int list \<Rightarrow> vim \<Rightarrow> (byte list option \<times> vim) outcome" where
  "vim_main file_bytes keys v =
     obind (readfile file_bytes v) (\<lambda>(r, v).
     if r \<noteq> 0 then Ok (None, v)
     else
       obind (on_scr savescr v) (\<lambda>v.
       let precursor = getcursor (v_con v) in
       obind (on_scr clrscr v) (\<lambda>v.
       obind (on_scr (setcursor 0) v) (\<lambda>v.
       obind (printtext 1 (v\<lparr>v_con := setline 1 (v_con v)\<rparr>)) (\<lambda>v.
       obind (key_loop (length keys) keys (v\<lparr>v_con := setconsbuf False (v_con v)\<rparr>)) (\<lambda>(saved, v).
       obind (clearcli (v\<lparr>v_con := setconsbuf True (v_con v)\<rparr>)) (\<lambda>v.
       obind (on_scr restorescr v) (\<lambda>v.
       obind (on_scr (setcursor precursor) v) (\<lambda>v. Ok (saved, v))))))))))"

section \<open>Reading a file and writing it back\<close>

text \<open>A line that holds the text \<open>t\<close>, and files whose lines fit: with \<open>k\<close> characters on the current line,
  every line keeps room for its terminator. The line end is the first character of the line it starts.\<close>

definition holds :: "byte list \<Rightarrow> line \<Rightarrow> bool" where
  "holds t p \<longleftrightarrow> length t < 80 \<and> 0 \<notin> set t \<and> l_c p = t @ replicate (80 - length t) 0 \<and> l_len p = length t"

fun fits :: "nat \<Rightarrow> byte list \<Rightarrow> bool" where
  "fits k [] = True"
| "fits k (c # cs) = (c \<noteq> 0 \<and> (if c = 10 then fits 1 cs else k < 79 \<and> fits (Suc k) cs))"

lemma takeWhile_text: "0 \<notin> set t \<Longrightarrow> takeWhile (\<lambda>x. x \<noteq> (0::byte)) (t @ replicate n 0) = t"
  by (induction t; cases n) auto

lemma vstrlen_holds: "holds t p \<Longrightarrow> vstrlen (l_c p) = Ok (length t)"
  by (auto simp: holds_def vstrlen_def takeWhile_text)

lemma readfile_char_text:
  assumes "holds t p" and "length t < 79" and "c \<noteq> 0" and "c \<noteq> 10"
  shows "\<exists>q. readfile_char i c p = Ok (q, None) \<and> holds (t @ [c]) q \<and> l_lineno q = l_lineno p"
proof -
  obtain n where n: "80 - length t = Suc n" "n = 80 - length (t @ [c])" using assms(2) by simp
  have d: "(l_c p)[l_len p := c] = (t @ [c]) @ replicate n 0"
    using assms(1) n by (simp add: holds_def list_update_append)
  have "0 \<notin> set (t @ [c])" using assms(1,3) by (simp add: holds_def)
  from takeWhile_text [OF this, of n] have "vstrlen ((t @ [c]) @ replicate n 0) = Ok (length (t @ [c]))"
    using n assms(2) by (simp add: vstrlen_def)
  then have "readfile_char i c p = Ok (p\<lparr>l_c := (t @ [c]) @ replicate n 0, l_len := length (t @ [c])\<rparr>, None)"
    using assms d by (simp add: readfile_char_def aset_def holds_def)
  then show ?thesis using assms n by (auto simp: holds_def)
qed

lemma readfile_char_newline:
  assumes "holds t p"
  shows "\<exists>q r. readfile_char i 10 p = Ok (q, Some r) \<and> holds t q \<and> holds [10] r"
proof -
  have "replicate 80 (0 :: byte) = 0 # replicate 79 0" using replicate_Suc [of 79 "0 :: byte"] by simp
  then show ?thesis using assms vstrlen_holds [OF assms] by (simp add: readfile_char_def holds_def)
qed

lemma readfile_loop_ok:
  assumes "holds t p" and "fits (length t) cs"
  shows "\<exists>ls. readfile_loop i cs p = Ok ls \<and> write_lines ls = Ok (t @ cs) \<and> ls \<noteq> [] \<and>
    (\<forall>l \<in> set ls. \<exists>u. holds u l) \<and> length ls = Suc (length (filter (\<lambda>c. c = 10) cs))"
  using assms
proof (induction cs arbitrary: t p i)
  case Nil
  then show ?case using vstrlen_holds [OF Nil.prems(1)] by (auto simp: holds_def)
next
  case (Cons c cs)
  show ?case
  proof (cases "c = 10")
    case True
    from readfile_char_newline [OF Cons.prems(1)] obtain q r where
      q: "readfile_char i 10 p = Ok (q, Some r)" "holds t q" "holds [10] r" by blast
    from Cons.IH [OF q(3), of "Suc i"] Cons.prems(2) True obtain ls where
      ls: "readfile_loop (Suc i) cs r = Ok ls" "write_lines ls = Ok ([10] @ cs)" "ls \<noteq> []"
        "\<forall>l \<in> set ls. \<exists>u. holds u l" "length ls = Suc (length (filter (\<lambda>c. c = 10) cs))" by auto
    have "take (length t) (l_c q) = t" using q(2) by (simp add: holds_def)
    then show ?thesis using q ls True vstrlen_holds [OF q(2)] by auto
  next
    case False
    from Cons.prems(2) False have f: "length t < 79" "c \<noteq> 0" "fits (length (t @ [c])) cs" by auto
    from readfile_char_text [OF Cons.prems(1) f(1,2) False] obtain q where
      q: "readfile_char i c p = Ok (q, None)" "holds (t @ [c]) q" by blast
    from Cons.IH [OF q(2) f(3), of "Suc i"] q(1) False show ?thesis by auto
  qed
qed

lemma line1_holds: "holds [] line1"
  by (simp add: holds_def line1_def)

section \<open>Properties\<close>


definition sample_vim :: vim where
  "sample_vim = \<lparr>v_text = [], v_lines = 0, vimline = 1, v_mode = V_READONLY, v_con = sample_console, v_msg = []\<rparr>"


lemma readfile_loop_full:
  assumes "holds t p" and "0 \<notin> set cs" and "10 \<notin> set cs" and "length t + length cs = 80"
  shows "readfile_loop i (cs @ rest) p = Undef"
  using assms
proof (induction cs arbitrary: t p i)
  case Nil
  then show ?case by (simp add: holds_def)
next
  case (Cons c cs)
  show ?case
  proof (cases "length t < 79")
    case True
    from readfile_char_text [OF Cons.prems(1) True] Cons.prems obtain q where
      q: "readfile_char i c p = Ok (q, None)" "holds (t @ [c]) q" by fastforce
    from Cons.IH [OF q(2), of "Suc i"] Cons.prems q(1) show ?thesis by simp
  next
    case False
    then have len: "length t = 79" using Cons.prems(1) by (simp add: holds_def)
    then have "(l_c p)[l_len p := c] = t @ [c]" using Cons.prems(1) by (simp add: holds_def list_update_append)
    moreover have "0 \<notin> set (t @ [c])" using Cons.prems by (auto simp: holds_def)
    ultimately have "readfile_char i c p = Undef"
      using Cons.prems len by (auto simp: readfile_char_def aset_def holds_def vstrlen_def)
    then show ?thesis by simp
  qed
qed

text \<open>C20. A line of 80 characters is not handled: reading a file that begins with 80 characters other than NUL and
  line end is undefined, because the string length of the full line is taken without a terminator.\<close>

theorem readfile_long_line:
  assumes "length cs = 80" and "0 \<notin> set cs" and "10 \<notin> set cs" and "length (cs @ rest) \<le> MAX_FILE_SIZE" and "v_text v = []"
  shows "readfile (Some (cs @ rest)) v = Undef"
proof -
  have "readfile_loop 0 (cs @ rest) line1 = Undef"
    by (rule readfile_loop_full [OF line1_holds assms(2,3)]) (simp add: assms(1))
  moreover have "cs \<noteq> []" using assms(1) by auto
  ultimately show ?thesis using assms(4,5) by (simp add: readfile_def)
qed

theorem readfile_long_line_witness: "readfile (Some (replicate 80 97 @ [10])) sample_vim = Undef"
  using readfile_long_line [of "replicate 80 97" "[10]" sample_vim] by (simp add: sample_vim_def MAX_FILE_SIZE_def)

end
