(* ===== verification/Shell.thy ===== *)
theory Shell
  imports Xv6_Prelude
begin

text \<open>
  The command parser of the shell (\<^verbatim>\<open>sh.c\<close>) and the plan of system calls that \<open>runcmd\<close> follows. The input is
  the rest of the line; the pointers \<^verbatim>\<open>*ps\<close> and \<^verbatim>\<open>es\<close> are its two ends. A token is given by its
  characters, which is the string that \<^verbatim>\<open>nulterminate\<close> makes of the pointers to its ends. The panics of the
  parser end the process. The parser functions carry fuel; \<open>parsecmd_terminates\<close> shows that the fuel
  \<open>parsecmd\<close> gives is enough.
\<close>

datatype cmd =
    EXEC "byte list list"
  | REDIR cmd "byte list" uint nat
  | PIPE cmd cmd
  | LIST cmd cmd
  | BACK cmd

definition MAXARGS :: nat where "MAXARGS = 10"
definition O_RDONLY :: uint where "O_RDONLY = 0"
definition O_WRONLY_CREATE :: uint where "O_WRONLY_CREATE = 0x201"

section \<open>Tokens\<close>

definition whitespace :: "byte list" where "whitespace = [32, 9, 13, 10, 11]"
definition symbols :: "byte list" where "symbols = [60, 124, 62, 38, 59, 40, 41]"

definition skip_ws :: "byte list \<Rightarrow> byte list" where
  "skip_ws s = dropWhile (\<lambda>c. c \<in> set whitespace) s"

definition word_char :: "byte \<Rightarrow> bool" where
  "word_char c \<longleftrightarrow> c \<notin> set whitespace \<and> c \<notin> set symbols"

text \<open>The kind of the token, its characters, and the rest of the line. Kind 0 is the end of the line, 97 a word,
  43 the symbol \<open>>>\<close>; a symbol is its own kind.\<close>

definition gettoken :: "byte list \<Rightarrow> byte \<times> byte list \<times> byte list" where
  "gettoken s =
     (case skip_ws s of
        [] \<Rightarrow> (0, [], [])
      | c # r \<Rightarrow>
          if c \<in> {124, 40, 41, 59, 38, 60} then (c, [c], skip_ws r)
          else if c = 62 then
            (case r of
               d # r' \<Rightarrow> if d = 62 then (43, [c, d], skip_ws r') else (c, [c], skip_ws r)
             | [] \<Rightarrow> (c, [c], []))
          else (97, takeWhile word_char (c # r), skip_ws (dropWhile word_char (c # r))))"

definition peek :: "byte list \<Rightarrow> byte list \<Rightarrow> bool \<times> byte list" where
  "peek toks s = (let s = skip_ws s in (case s of [] \<Rightarrow> (False, s) | c # _ \<Rightarrow> (c \<in> set toks, s)))"

section \<open>Parsing\<close>

fun parseredirs :: "nat \<Rightarrow> cmd \<Rightarrow> byte list \<Rightarrow> (cmd \<times> byte list) outcome" where
  "parseredirs 0 cmd s = Diverge"
| "parseredirs (Suc n) cmd s =
     (let (b, s) = peek [60, 62] s in
      if b then
        let (tok, _, s) = gettoken s; (k, q, s) = gettoken s in
        if k \<noteq> 97 then Panic ''missing file for redirection''
        else if tok = 60 then parseredirs n (REDIR cmd q O_RDONLY 0) s
        else if tok = 62 then parseredirs n (REDIR cmd q O_WRONLY_CREATE 1) s
        else if tok = 43 then parseredirs n (REDIR cmd q O_WRONLY_CREATE 1) s
        else parseredirs n cmd s
      else Ok (cmd, s))"

text \<open>The arguments of a simple command are stored into its node, which the redirections already wrap.\<close>

primrec set_args :: "byte list list \<Rightarrow> cmd \<Rightarrow> cmd" where
  "set_args as (EXEC _) = EXEC as"
| "set_args as (REDIR c f m d) = REDIR (set_args as c) f m d"
| "set_args as (PIPE c d) = PIPE c d"
| "set_args as (LIST c d) = LIST c d"
| "set_args as (BACK c) = BACK c"

fun parseargs :: "nat \<Rightarrow> byte list list \<Rightarrow> cmd \<Rightarrow> byte list \<Rightarrow> (cmd \<times> byte list) outcome" where
  "parseargs 0 as ret s = Diverge"
| "parseargs (Suc n) as ret s =
     (let (b, s) = peek [124, 41, 38, 59] s in
      if b then Ok (set_args as ret, s)
      else let (tok, q, s) = gettoken s in
        if tok = 0 then Ok (set_args as ret, s)
        else if tok \<noteq> 97 then Panic ''syntax''
        else let as = as @ [q] in
          if MAXARGS \<le> length as then Panic ''too many args''
          else obind (parseredirs n ret s) (\<lambda>(ret, s). parseargs n as ret s))"

fun parsebacks :: "nat \<Rightarrow> cmd \<Rightarrow> byte list \<Rightarrow> (cmd \<times> byte list) outcome" where
  "parsebacks 0 cmd s = Diverge"
| "parsebacks (Suc n) cmd s =
     (let (b, s) = peek [38] s in
      if b then let (_, _, s) = gettoken s in parsebacks n (BACK cmd) s else Ok (cmd, s))"

fun parseline :: "nat \<Rightarrow> byte list \<Rightarrow> (cmd \<times> byte list) outcome"
  and parsepipe :: "nat \<Rightarrow> byte list \<Rightarrow> (cmd \<times> byte list) outcome"
  and parseexec :: "nat \<Rightarrow> byte list \<Rightarrow> (cmd \<times> byte list) outcome"
  and parseblock :: "nat \<Rightarrow> byte list \<Rightarrow> (cmd \<times> byte list) outcome" where
  "parseline 0 s = Diverge"
| "parseline (Suc n) s =
     obind (parsepipe n s) (\<lambda>(cmd, s).
     obind (parsebacks n cmd s) (\<lambda>(cmd, s).
     let (b, s) = peek [59] s in
     if b then let (_, _, s) = gettoken s in obind (parseline n s) (\<lambda>(r, s). Ok (LIST cmd r, s))
     else Ok (cmd, s)))"
| "parsepipe 0 s = Diverge"
| "parsepipe (Suc n) s =
     obind (parseexec n s) (\<lambda>(cmd, s).
     let (b, s) = peek [124] s in
     if b then let (_, _, s) = gettoken s in obind (parsepipe n s) (\<lambda>(r, s). Ok (PIPE cmd r, s))
     else Ok (cmd, s))"
| "parseexec 0 s = Diverge"
| "parseexec (Suc n) s =
     (let (b, s) = peek [40] s in
      if b then parseblock n s
      else obind (parseredirs n (EXEC []) s) (\<lambda>(ret, s). parseargs n [] ret s))"
| "parseblock 0 s = Diverge"
| "parseblock (Suc n) s =
     (let (b, s) = peek [40] s in
      if \<not> b then Panic ''parseblock''
      else let (_, _, s) = gettoken s in
        obind (parseline n s) (\<lambda>(cmd, s).
        let (b, s) = peek [41] s in
        if \<not> b then Panic ''syntax - missing )''
        else let (_, _, s) = gettoken s in parseredirs n cmd s))"

definition parsecmd :: "byte list \<Rightarrow> cmd outcome" where
  "parsecmd s =
     obind (parseline (4 * length s + 5) s) (\<lambda>(cmd, s).
     let (_, s) = peek [] s in if s \<noteq> [] then Panic ''syntax'' else Ok cmd)"

section \<open>Running a command\<close>

text \<open>The program that \<open>runcmd\<close> is for a given command: its system calls in order, with a branch for each result
  that the code tests. \<open>P0\<close> and \<open>P1\<close> are the two descriptors that \<^verbatim>\<open>pipe\<close> returned.\<close>

datatype fdref = Fd nat | P0 | P1

datatype prog =
    Exit
  | Fail string
  | Message string "byte list" prog
  | Exec "byte list list" prog             \<comment> \<open>continues only if the call fails\<close>
  | Close fdref prog
  | Dup fdref prog
  | Open "byte list" uint prog prog        \<comment> \<open>on failure, on success\<close>
  | MakePipe prog prog                     \<comment> \<open>on failure, on success\<close>
  | Fork prog prog prog                    \<comment> \<open>on failure, in the child, in the parent\<close>
  | Wait prog

definition fork1 :: "prog \<Rightarrow> prog \<Rightarrow> prog" where
  "fork1 child parent = Fork (Fail ''fork'') child parent"

primrec runcmd :: "cmd \<Rightarrow> prog" where
  "runcmd (EXEC as) = (case as of [] \<Rightarrow> Exit | a # _ \<Rightarrow> Exec as (Message ''exec failed'' a Exit))"
| "runcmd (REDIR c f m d) = Close (Fd d) (Open f m (Message ''open failed'' f Exit) (runcmd c))"
| "runcmd (LIST l r) = fork1 (runcmd l) (Wait (runcmd r))"
| "runcmd (PIPE l r) =
     MakePipe (Fail ''pipe'')
       (fork1 (Close (Fd 1) (Dup P1 (Close P0 (Close P1 (runcmd l)))))
       (fork1 (Close (Fd 0) (Dup P0 (Close P0 (Close P1 (runcmd r)))))
       (Close P0 (Close P1 (Wait (Wait Exit))))))"
| "runcmd (BACK c) = fork1 (runcmd c) Exit"

section \<open>The parser returns\<close>

lemma skip_ws_le: "length (skip_ws s) \<le> length s"
  by (simp add: skip_ws_def length_dropWhile_le)

lemma peek_simps: "snd (peek toks s) = skip_ws s"
  by (simp add: peek_def Let_def split: list.splits)

lemma peek_rest: "peek toks s = (b, t) \<Longrightarrow> t = skip_ws s"
  using peek_simps [of toks s] by simp

lemma peek_cases: "peek toks s = (b, t) \<Longrightarrow> length t \<le> length s \<and> (b \<longrightarrow> t \<noteq> [] \<and> hd t \<in> set toks)"
proof (cases "skip_ws s")
  case (Cons c r)
  assume "peek toks s = (b, t)"
  then have "t = c # r" "b = (c \<in> set toks)" using Cons by (auto simp: peek_def)
  then show ?thesis using skip_ws_le [of s] unfolding Cons by simp
qed (auto simp: peek_def)

lemma skip_ws_head: "skip_ws s = c # r \<Longrightarrow> c \<notin> set whitespace"
  by (metis dropWhile_eq_Cons_conv skip_ws_def)

lemma gettoken_less:
  assumes "gettoken s = (k, q, t)"
  shows "length t \<le> length s" and "k \<noteq> 0 \<Longrightarrow> length t < length s"
proof -
  have "length t \<le> length s \<and> (k \<noteq> 0 \<longrightarrow> length t < length s)"
  proof (cases "skip_ws s")
    case Nil
    then show ?thesis using assms by (simp add: gettoken_def)
  next
    case (Cons c r)
    have le: "length (c # r) \<le> length s" using skip_ws_le [of s] Cons by simp
    consider "c \<in> {124, 40, 41, 59, 38, 60}" | "c = 62"
      | "c \<notin> {124, 40, 41, 59, 38, 60}" "c \<noteq> 62" by blast
    then show ?thesis
    proof cases
      case 1
      then show ?thesis using assms Cons le skip_ws_le [of r] by (auto simp: gettoken_def)
    next
      case 2
      have "length (skip_ws (tl r)) \<le> length r" "length (skip_ws r) \<le> length r"
        using skip_ws_le [of "tl r"] skip_ws_le [of r] by simp_all
      then have "length t \<le> length r" using assms Cons 2
        by (cases r) (auto simp: gettoken_def split: if_splits)
      then show ?thesis using le by simp
    next
      case 3
      then have "word_char c" using skip_ws_head [OF Cons] by (auto simp: word_char_def symbols_def)
      then have "length t \<le> length r"
        using assms Cons 3 skip_ws_le [of "dropWhile word_char r"] length_dropWhile_le [of word_char r]
        by (auto simp: gettoken_def)
      then show ?thesis using le by simp
    qed
  qed
  then show "length t \<le> length s" "k \<noteq> 0 \<Longrightarrow> length t < length s" by simp_all
qed

lemma gettoken_peeked:
  assumes "peek toks s = (True, t)" and "gettoken t = (k, q, u)" and "0 \<notin> set toks"
  shows "length u < length s"
proof -
  have t: "length t \<le> length s" "t \<noteq> []" "hd t \<in> set toks" using peek_cases [OF assms(1)] by simp_all
  then obtain c r where c: "t = c # r" by (cases t) auto
  have "skip_ws t = t" unfolding peek_rest [OF assms(1)] by (simp add: skip_ws_def dropWhile_idem)
  then have "k = c \<or> k = 97 \<or> k = 43"
    using assms(2) c by (auto simp: gettoken_def split: if_splits list.splits)
  then have "k \<noteq> 0" using t(3) c assms(3) by auto
  then show ?thesis using gettoken_less(2) [OF assms(2)] t(1) by simp
qed

definition returns :: "(cmd \<times> byte list) outcome \<Rightarrow> nat \<Rightarrow> bool" where
  "returns m k \<longleftrightarrow> (\<exists>e. m = Panic e) \<or> (\<exists>c r. m = Ok (c, r) \<and> length r \<le> k)"

lemma returns_simps [simp]: "returns (Ok (c, r)) k \<longleftrightarrow> length r \<le> k" "returns (Panic e) k"
  by (simp_all add: returns_def)

lemma returns_mono: "returns m j \<Longrightarrow> j \<le> k \<Longrightarrow> returns m k"
  by (auto simp: returns_def)

lemma returns_bind:
  assumes "returns m j" and "\<And>c r. length r \<le> j \<Longrightarrow> returns (f (c, r)) k"
  shows "returns (obind m f) k"
  using assms(1) unfolding returns_def
proof
  assume "\<exists>c r. m = Ok (c, r) \<and> length r \<le> j"
  then show "(\<exists>e. obind m f = Panic e) \<or> (\<exists>c r. obind m f = Ok (c, r) \<and> length r \<le> k)"
    using assms(2) unfolding returns_def by force
qed auto

lemma parseredirs_returns: "length s < n \<Longrightarrow> returns (parseredirs n c s) (length s)"
proof (induction n arbitrary: c s)
  case (Suc n)
  obtain b t where pk: "peek [60, 62] s = (b, t)" by force
  note t = peek_cases [OF pk]
  show ?case
  proof (cases b)
    case True
    obtain tok x u where g: "gettoken t = (tok, x, u)" by (rule prod_cases3)
    obtain k q w where h: "gettoken u = (k, q, w)" by (rule prod_cases3)
    have "length u < length s" using gettoken_peeked [of "[60, 62]" s t] pk True g by simp
    then have w: "length w < length s" "length w < n" using gettoken_less(1) [OF h] Suc.prems by simp_all
    have "returns (parseredirs n d w) (length s)" for d
      by (rule returns_mono [OF Suc.IH [OF w(2)]]) (use w in simp)
    then show ?thesis using pk True g h by simp
  next
    case False
    then show ?thesis using pk t by simp
  qed
qed simp

lemma parseargs_returns: "length s < n \<Longrightarrow> returns (parseargs n as c s) (length s)"
proof (induction n arbitrary: as c s)
  case (Suc n)
  obtain b t where pk: "peek [124, 41, 38, 59] s = (b, t)" by force
  note t = peek_cases [OF pk]
  obtain tok q u where g: "gettoken t = (tok, q, u)" by (rule prod_cases3)
  show ?case
  proof (cases "b \<or> tok = 0")
    case True
    then show ?thesis using pk g t gettoken_less(1) [OF g] by (auto simp: Let_def)
  next
    case False
    then have u: "length u < length s" "length u < n" using gettoken_less(2) [OF g] t Suc.prems by linarith+
    have "returns (obind (parseredirs n c u) (\<lambda>(ret, s). parseargs n (as @ [q]) ret s)) (length s)"
    proof (rule returns_bind [OF parseredirs_returns [OF u(2)]], clarsimp)
      fix d :: cmd and r :: "byte list"
      assume "length r \<le> length u"
      then show "returns (parseargs n (as @ [q]) d r) (length s)"
        using u by (intro returns_mono [OF Suc.IH]) simp_all
    qed
    then show ?thesis using pk g False by (simp add: Let_def)
  qed
qed simp

lemma parsebacks_returns: "length s < n \<Longrightarrow> returns (parsebacks n c s) (length s)"
proof (induction n arbitrary: c s)
  case (Suc n)
  obtain b t where pk: "peek [38] s = (b, t)" by force
  obtain tok q u where g: "gettoken t = (tok, q, u)" by (rule prod_cases3)
  show ?case
  proof (cases b)
    case True
    have u: "length u < length s" "length u < n" using gettoken_peeked [of "[38]" s t] pk True g Suc.prems by simp_all
    have "returns (parsebacks n (BACK c) u) (length s)" by (rule returns_mono [OF Suc.IH [OF u(2)]]) (use u in simp)
    then show ?thesis using pk True g by simp
  next
    case False
    then show ?thesis using pk peek_cases [OF pk] by simp
  qed
qed simp

lemma returns_token:
  assumes "length t \<le> k" and "0 \<notin> set toks" and "\<And>w. length w < length t \<Longrightarrow> returns (g w) k" and "\<And>u. length u \<le> k \<Longrightarrow> returns (h u) k"
  shows "returns (let (b, s) = peek toks t in if b then let (_, _, s) = gettoken s in g s else h s) k"
proof -
  obtain b u where pk: "peek toks t = (b, u)" by force
  obtain tok q w where g: "gettoken u = (tok, q, w)" by (rule prod_cases3)
  show ?thesis
  proof (cases b)
    case True
    then have "returns (g w) k" using gettoken_peeked [of toks t u] pk g assms(2,3) by simp
    then show ?thesis using pk True g by simp
  next
    case False
    then show ?thesis using pk peek_cases [OF pk] assms(1,4) by simp
  qed
qed

lemma parseline_step:
  assumes "4 * length s + 3 \<le> n" and "returns (parsepipe n s) (length s)"
    and "\<And>w. length w < length s \<Longrightarrow> returns (parseline n w) (length w)"
  shows "returns (parseline (Suc n) s) (length s)"
  unfolding parseline.simps
proof (rule returns_bind [OF assms(2)], unfold prod.case, goal_cases)
  case (1 c r)
  have "length r < n" using 1 assms(1) by simp
  note b = parsebacks_returns [OF this, of c]
  show ?case
  proof (rule returns_bind [OF b], unfold prod.case, goal_cases)
    case (1 d t)
    then have t: "length t \<le> length s" using \<open>length r \<le> length s\<close> by simp
    have "returns (obind (parseline n w) (\<lambda>(r, s). Ok (LIST d r, s))) (length s)" if "length w < length t" for w
      by (rule returns_bind [OF assms(3)]) (use t that in auto)
    then show ?case using t by (intro returns_token) auto
  qed
qed

lemma parsepipe_step:
  assumes "returns (parseexec n s) (length s)"
    and "\<And>w. length w < length s \<Longrightarrow> returns (parsepipe n w) (length w)"
  shows "returns (parsepipe (Suc n) s) (length s)"
  unfolding parsepipe.simps
proof (rule returns_bind [OF assms(1)], unfold prod.case, goal_cases)
  case (1 d t)
  have "returns (obind (parsepipe n w) (\<lambda>(r, s). Ok (PIPE d r, s))) (length s)" if "length w < length t" for w
    by (rule returns_bind [OF assms(2)]) (use 1 that in auto)
  then show ?case using 1 by (intro returns_token) auto
qed

lemma parseexec_step:
  assumes "4 * length s + 1 \<le> n" and "\<And>w. length w \<le> length s \<Longrightarrow> returns (parseblock n w) (length w)"
  shows "returns (parseexec (Suc n) s) (length s)"
proof -
  obtain b t where pk: "peek [40] s = (b, t)" by force
  note t = peek_cases [OF pk]
  have "returns (parseblock n t) (length s)" by (rule returns_mono [OF assms(2)]) (use t in simp_all)
  moreover have "returns (obind (parseredirs n (EXEC []) t) (\<lambda>(ret, s). parseargs n [] ret s)) (length s)"
  proof (rule returns_bind [OF parseredirs_returns], goal_cases)
    case (2 c r)
    then show ?case unfolding prod.case by (intro returns_mono [OF parseargs_returns]) (use t assms(1) in simp_all)
  qed (use t assms(1) in simp)
  ultimately show ?thesis using pk by simp
qed

lemma parseblock_step:
  assumes "4 * length s \<le> n" and "\<And>w. length w < length s \<Longrightarrow> returns (parseline n w) (length w)"
  shows "returns (parseblock (Suc n) s) (length s)"
proof -
  obtain b t where pk: "peek [40] s = (b, t)" by force
  obtain tok q u where g: "gettoken t = (tok, q, u)" by (rule prod_cases3)
  let ?f = "\<lambda>(cmd, s). let (b, s) = peek [41] s in
      if \<not> b then Panic ''syntax - missing )'' else let (_, _, s) = gettoken s in parseredirs n cmd s"
  have "returns (obind (parseline n u) ?f) (length s)" if b
  proof -
    have u: "length u < length s" using gettoken_peeked [of "[40]" s t] pk that g by simp
    have "returns (?f (d, r)) (length s)" if "length r \<le> length u" for d r
    proof -
      have "returns (let (b, s) = peek [41] r in
          if b then let (_, _, s) = gettoken s in parseredirs n d s else Panic ''syntax - missing )'') (length s)"
        by (rule returns_token) (use that u assms(1) in \<open>auto intro!: returns_mono [OF parseredirs_returns]\<close>)
      moreover obtain bb x where "peek [41] r = (bb, x)" by force
      ultimately show ?thesis by (cases bb) (simp_all add: Let_def)
    qed
    then show ?thesis by (rule returns_bind [OF assms(2) [OF u]])
  qed
  then show ?thesis using pk g by simp
qed

lemma parse_returns:
  "(4 * length s + 4 \<le> n \<longrightarrow> returns (parseline n s) (length s)) \<and>
   (4 * length s + 3 \<le> n \<longrightarrow> returns (parsepipe n s) (length s)) \<and>
   (4 * length s + 2 \<le> n \<longrightarrow> returns (parseexec n s) (length s)) \<and>
   (4 * length s + 1 \<le> n \<longrightarrow> returns (parseblock n s) (length s))"
proof (induction n arbitrary: s)
  case (Suc n)
  have "4 * length s + 3 \<le> n \<Longrightarrow> returns (parseline (Suc n) s) (length s)"
    by (rule parseline_step) (use Suc.IH in auto)
  moreover have "4 * length s + 2 \<le> n \<Longrightarrow> returns (parsepipe (Suc n) s) (length s)"
    by (rule parsepipe_step) (use Suc.IH in auto)
  moreover have "4 * length s + 1 \<le> n \<Longrightarrow> returns (parseexec (Suc n) s) (length s)"
    by (rule parseexec_step) (use Suc.IH in auto)
  moreover have "4 * length s \<le> n \<Longrightarrow> returns (parseblock (Suc n) s) (length s)"
    by (rule parseblock_step) (use Suc.IH in auto)
  ultimately show ?case by simp
qed simp

section \<open>Properties\<close>

text \<open>C21. The parser always returns: for every input line \<open>parsecmd\<close> gives a command or reports a syntax
  error; the fuel of the model never runs out.\<close>

theorem parsecmd_terminates: "(\<exists>c. parsecmd s = Ok c) \<or> (\<exists>e. parsecmd s = Panic e)"
proof -
  have "returns (parseline (4 * length s + 5) s) (length s)" using parse_returns [of s] by simp
  then show ?thesis by (auto simp: returns_def parsecmd_def Let_def split: prod.splits)
qed

end
