(* ===== verification/Ide.thy ===== *)
theory Ide
  imports Buffer_Cache
begin

text \<open>
  The driver of the disk (\<^verbatim>\<open>ide.c\<close>). Requests wait in a list of buffers linked by \<^verbatim>\<open>qnext\<close>; the buffer at the head is the one the disk
  works on. \<open>iderw\<close> is split where it sleeps: \<open>ide_request\<close> is the part before, and the wait ends when \<open>ideintr\<close> has made the
  buffer valid and clean. The disk itself keeps the command it was given last and performs it.
\<close>

unbundle bit_operations_syntax

section \<open>Definitions\<close>

definition FSSIZE :: uint where "FSSIZE = 1000"

record ide =
  ide_bufs :: "nat \<Rightarrow> buf"
  idequeue :: "nat option"
  qnext :: "nat \<Rightarrow> nat option"
  havedisk1 :: bool
  ide_disk :: "uint \<times> uint \<Rightarrow> byte list"        \<comment> \<open>by drive and sector\<close>
  ide_cmd :: "(bool \<times> uint \<times> uint) option"      \<comment> \<open>write or read, drive, sector\<close>
  ide_woken :: "nat list"

text \<open>Where the disk finds the block of a buffer: one sector per block.\<close>

definition place :: "buf \<Rightarrow> uint \<times> uint" where
  "place b = (b_dev b AND 1, b_blockno b)"

text \<open>The wait for the disk, with the values that its status shows one after the other.\<close>

definition idewait :: "bool \<Rightarrow> byte list \<Rightarrow> int outcome" where
  "idewait checkerr st = (case find (\<lambda>r. r AND 0xC0 = 0x40) st of
     None \<Rightarrow> Diverge
   | Some r \<Rightarrow> if checkerr \<and> r AND 0x21 \<noteq> 0 then Ok (- 1) else Ok 0)"

text \<open>The second list is the status after drive 1 has been selected, read at most a thousand times.\<close>

definition ideinit :: "byte list \<Rightarrow> byte list \<Rightarrow> ide \<Rightarrow> ide outcome" where
  "ideinit st st1 s = obind (idewait False st) (\<lambda>_. Ok (if \<exists>r \<in> set (take 1000 st1). r \<noteq> 0 then s\<lparr>havedisk1 := True\<rparr> else s))"

definition idestart :: "nat option \<Rightarrow> ide \<Rightarrow> ide outcome" where
  "idestart bo s = (case bo of None \<Rightarrow> Panic ''idestart''
     | Some i \<Rightarrow>
         let b = ide_bufs s i in
         if FSSIZE \<le> b_blockno b then Panic ''incorrect blockno''
         else if b_dirty b then Ok (s\<lparr>ide_cmd := Some (True, place b), ide_disk := (ide_disk s)(place b := b_data b)\<rparr>)
         else Ok (s\<lparr>ide_cmd := Some (False, place b)\<rparr>))"

text \<open>\<open>ok\<close> is the result of the wait with its check for errors.\<close>

definition ideintr :: "bool \<Rightarrow> ide \<Rightarrow> ide outcome" where
  "ideintr ok s = (case idequeue s of None \<Rightarrow> Ok s
     | Some i \<Rightarrow>
         let b = ide_bufs s i;
             b = (if \<not> b_dirty b \<and> ok then (case ide_cmd s of None \<Rightarrow> b | Some (w, p) \<Rightarrow> b\<lparr>b_data := ide_disk s p\<rparr>) else b);
             s = s\<lparr>idequeue := qnext s i, ide_bufs := (ide_bufs s)(i := b\<lparr>b_valid := True, b_dirty := False\<rparr>), ide_woken := ide_woken s @ [i]\<rparr>
         in if idequeue s \<noteq> None then idestart (idequeue s) s else Ok s)"

text \<open>The loop that finds the last buffer of the queue.\<close>

fun last_from :: "nat \<Rightarrow> (nat \<Rightarrow> nat option) \<Rightarrow> nat \<Rightarrow> nat outcome" where
  "last_from 0 nx i = Diverge"
| "last_from (Suc fuel) nx i = (case nx i of None \<Rightarrow> Ok i | Some j \<Rightarrow> last_from fuel nx j)"

definition ide_request :: "int \<Rightarrow> nat \<Rightarrow> ide \<Rightarrow> ide outcome" where
  "ide_request pid i s =
     (let b = ide_bufs s i in
      if \<not> holdingsleep pid (b_lock b) then Panic ''iderw: buf not locked''
      else if b_valid b \<and> \<not> b_dirty b then Panic ''iderw: nothing to do''
      else if b_dev b \<noteq> 0 \<and> \<not> havedisk1 s then Panic ''iderw: ide disk 1 not present''
      else
        let s = s\<lparr>qnext := (qnext s)(i := None)\<rparr> in
        case idequeue s of
          None \<Rightarrow> idestart (Some i) (s\<lparr>idequeue := Some i\<rparr>)
        | Some j \<Rightarrow> obind (last_from (NBUF + 1) (qnext s) j) (\<lambda>l.
            let s = s\<lparr>qnext := (qnext s)(l := Some i)\<rparr>
            in if idequeue s = Some i then idestart (Some i) s else Ok s))"

section \<open>The queue\<close>

fun qlist :: "(nat \<Rightarrow> nat option) \<Rightarrow> nat option \<Rightarrow> nat list \<Rightarrow> bool" where
  "qlist nx p [] \<longleftrightarrow> p = None"
| "qlist nx p (i # is) \<longleftrightarrow> p = Some i \<and> qlist nx (nx i) is"

lemma qlist_frame: "i \<notin> set is \<Longrightarrow> qlist (nx(i := x)) p is = qlist nx p is"
  by (induction "is" arbitrary: p) auto

lemma qlist_last:
  "qlist nx (Some i) (js @ [l]) \<Longrightarrow> length js < n \<Longrightarrow> last_from n nx i = Ok l"
proof (induction js arbitrary: i n)
  case Nil
  then show ?case by (cases n) auto
next
  case (Cons j js)
  obtain k where n: "n = Suc k" "length js < k" using Cons.prems(2) by (cases n) auto
  obtain x where x: "nx i = Some x" "qlist nx (Some x) (js @ [l])" using Cons.prems(1) by (cases "nx i"; cases js) auto
  then show ?case using Cons.IH [OF x(2) n(2)] n(1) by simp
qed

lemma qlist_append:
  "qlist nx p (js @ [l]) \<Longrightarrow> distinct (js @ [l]) \<Longrightarrow> i \<notin> set (js @ [l]) \<Longrightarrow> nx i = None \<Longrightarrow> qlist (nx(l := Some i)) p (js @ [l, i])"
  by (induction js arbitrary: p) auto

text \<open>A state of the driver whose queue holds the buffers \<open>qs\<close>: they are distinct requests, and the disk has the command of the first.\<close>

definition pending :: "buf \<Rightarrow> bool" where
  "pending b \<longleftrightarrow> \<not> (b_valid b \<and> \<not> b_dirty b) \<and> b_blockno b < FSSIZE"

definition started :: "ide \<Rightarrow> nat \<Rightarrow> bool" where
  "started s i \<longleftrightarrow> (let b = ide_bufs s i in ide_cmd s = Some (b_dirty b, place b) \<and> (b_dirty b \<longrightarrow> ide_disk s (place b) = b_data b))"

definition ide_inv :: "ide \<Rightarrow> nat list \<Rightarrow> bool" where
  "ide_inv s qs \<longleftrightarrow> qlist (qnext s) (idequeue s) qs \<and> distinct qs \<and> set qs \<subseteq> {..<NBUF} \<and> (\<forall>i \<in> set qs. pending (ide_bufs s i)) \<and>
     (qs \<noteq> [] \<longrightarrow> started s (hd qs))"

lemma ide_inv_queue: "ide_inv s qs \<Longrightarrow> idequeue s = (if qs = [] then None else Some (hd qs))"
  by (cases qs) (auto simp: ide_inv_def)

lemma idestart_ok:
  assumes "pending (ide_bufs s i)"
  obtains s' where "idestart (Some i) s = Ok s'" "started s' i" "ide_bufs s' = ide_bufs s" "idequeue s' = idequeue s" "qnext s' = qnext s"
    "ide_woken s' = ide_woken s" "\<not> b_dirty (ide_bufs s i) \<Longrightarrow> ide_disk s' = ide_disk s"
  using assms that by (cases "b_dirty (ide_bufs s i)") (auto simp: idestart_def pending_def started_def Let_def not_le)

lemma request_ok:
  assumes "ide_inv s qs" and "i \<notin> set qs" and "i < NBUF" and "b_blockno (ide_bufs s i) < FSSIZE" and "ide_request pid i s = Ok s'"
  shows "ide_inv s' (qs @ [i])"
proof -
  let ?s = "s\<lparr>qnext := (qnext s)(i := None)\<rparr>"
  have "\<not> (b_valid (ide_bufs s i) \<and> \<not> b_dirty (ide_bufs s i))"
    using assms(5) by (auto simp: ide_request_def Let_def split: if_splits)
  then have p: "pending (ide_bufs s i)" using assms(4) by (simp add: pending_def)
  have q: "qlist (qnext ?s) (idequeue s) qs" using assms(1,2) qlist_frame by (simp add: ide_inv_def)
  show ?thesis
  proof (cases qs rule: rev_cases)
    case Nil
    then have n: "idequeue s = None" using ide_inv_queue [OF assms(1)] by simp
    let ?t = "?s\<lparr>idequeue := Some i\<rparr>"
    have r: "idestart (Some i) ?t = Ok s'" using assms(5) n by (auto simp: ide_request_def Let_def split: if_splits)
    obtain t where t: "idestart (Some i) ?t = Ok t" "started t i" "ide_bufs t = ide_bufs ?t" "idequeue t = idequeue ?t" "qnext t = qnext ?t"
      by (rule idestart_ok [of ?t i]) (use p in simp_all)
    have "t = s'" using t(1) r by simp
    then show ?thesis using Nil p assms(3) t by (simp add: ide_inv_def)
  next
    case (snoc js l)
    then obtain j where j: "idequeue s = Some j" "j = hd qs" using ide_inv_queue [OF assms(1)] by simp
    have "length qs \<le> NBUF" using assms(1) card_mono [of "{..<NBUF}" "set qs"] distinct_card [of qs] by (simp add: ide_inv_def)
    then have l: "last_from (NBUF + 1) (qnext ?s) j = Ok l" using q snoc j(1) by (intro qlist_last [of _ _ js]) auto
    have ne: "j \<noteq> i" using assms(2) j(2) snoc by (cases js) auto
    have s': "s' = ?s\<lparr>qnext := (qnext ?s)(l := Some i)\<rparr>"
      using assms(5) j(1) l ne by (auto simp: ide_request_def Let_def split: if_splits)
    have "qlist (qnext s') (idequeue s') (qs @ [i])"
      using qlist_append [of "qnext ?s" "idequeue s" js l i] q assms(1,2) by (simp add: s' snoc ide_inv_def)
    moreover have "started s' (hd (qs @ [i]))" using assms(1) snoc by (cases js) (simp_all add: ide_inv_def started_def s')
    ultimately show ?thesis using assms(1-3) p by (auto simp: ide_inv_def s')
  qed
qed

text \<open>One interrupt completes the first request.\<close>

lemma interrupt_ok:
  assumes "ide_inv s (i # qs)"
  obtains s' where "ideintr True s = Ok s'" "ide_inv s' qs" "ide_woken s' = ide_woken s @ [i]"
    "ide_bufs s' = (ide_bufs s)(i := (ide_bufs s i)\<lparr>b_data := ide_disk s (place (ide_bufs s i)), b_valid := True, b_dirty := False\<rparr>)"
proof -
  let ?b = "ide_bufs s i"
  let ?c = "?b\<lparr>b_data := ide_disk s (place ?b), b_valid := True, b_dirty := False\<rparr>"
  let ?t = "s\<lparr>idequeue := qnext s i, ide_bufs := (ide_bufs s)(i := ?c), ide_woken := ide_woken s @ [i]\<rparr>"
  have q: "idequeue s = Some i" "qlist (qnext s) (qnext s i) qs" "distinct (i # qs)" "set qs \<subseteq> {..<NBUF}"
    "\<forall>j \<in> set qs. pending (ide_bufs s j)" "started s i"
    using assms by (auto simp: ide_inv_def)
  have d: "(if \<not> b_dirty ?b \<and> True then (case ide_cmd s of None \<Rightarrow> ?b | Some (w, p) \<Rightarrow> ?b\<lparr>b_data := ide_disk s p\<rparr>) else ?b)\<lparr>b_valid := True, b_dirty := False\<rparr> = ?c"
    using q(6) by (cases "b_dirty ?b") (simp_all add: started_def Let_def)
  have r: "ideintr True s = (if qnext s i \<noteq> None then idestart (qnext s i) ?t else Ok ?t)"
    unfolding ideintr_def q(1) option.case Let_def d by simp
  show thesis
  proof (cases qs)
    case Nil
    then have "qnext s i = None" using q(2) by simp
    then show ?thesis using that [of ?t] r Nil by (simp add: ide_inv_def)
  next
    case (Cons j js)
    then have n: "qnext s i = Some j" "j \<noteq> i" using q(2,3) by auto
    obtain t where t: "idestart (Some j) ?t = Ok t" "started t j" "ide_bufs t = ide_bufs ?t" "idequeue t = idequeue ?t" "qnext t = qnext ?t"
      "ide_woken t = ide_woken ?t"
      by (rule idestart_ok [of ?t j]) (use q(5) Cons n(2) in simp_all)
    have "ide_inv t qs" using q t Cons n by (auto simp: ide_inv_def)
    then show ?thesis using that [of t] r n(1) t by simp
  qed
qed

section \<open>Runs of the driver\<close>

datatype ide_event = Request nat | Served nat | Quiet

text \<open>A process requests a buffer that it holds, the disk interrupts, or a process changes a buffer that is not with the disk.\<close>

inductive ide_step :: "ide \<times> nat list \<Rightarrow> ide_event \<Rightarrow> ide \<times> nat list \<Rightarrow> bool" where
  step_request: "ide_request pid i s = Ok s' \<Longrightarrow> i \<notin> set qs \<Longrightarrow> i < NBUF \<Longrightarrow> b_blockno (ide_bufs s i) < FSSIZE \<Longrightarrow>
    ide_step (s, qs) (Request i) (s', qs @ [i])"
| step_served: "idequeue s = Some i \<Longrightarrow> ideintr True s = Ok s' \<Longrightarrow> ide_step (s, qs) (Served i) (s', remove1 i qs)"
| step_quiet: "i \<notin> set qs \<Longrightarrow> ide_step (s, qs) Quiet (s\<lparr>ide_bufs := (ide_bufs s)(i := b)\<rparr>, qs)"

inductive ide_run :: "ide \<times> nat list \<Rightarrow> ide_event list \<Rightarrow> ide \<times> nat list \<Rightarrow> bool" for c where
  run_start: "ide_run c [] c"
| run_step: "ide_run c es c' \<Longrightarrow> ide_step c' e c'' \<Longrightarrow> ide_run c (es @ [e]) c''"

definition requested :: "ide_event list \<Rightarrow> nat list" where
  "requested es = concat (map (\<lambda>e. case e of Request i \<Rightarrow> [i] | _ \<Rightarrow> []) es)"

definition served :: "ide_event list \<Rightarrow> nat list" where
  "served es = concat (map (\<lambda>e. case e of Served i \<Rightarrow> [i] | _ \<Rightarrow> []) es)"

lemma ide_step_inv:
  assumes "ide_step (s, qs) e (s', qs')" and "ide_inv s qs"
  shows "ide_inv s' qs' \<and> qs @ requested [e] = served [e] @ qs'"
  using assms(1)
proof cases
  case (step_request pid i)
  then show ?thesis using request_ok [OF assms(2)] by (simp add: requested_def served_def)
next
  case (step_served i)
  then obtain rs where qs: "qs = i # rs" using ide_inv_queue [OF assms(2)] by (cases qs) auto
  obtain t where "ideintr True s = Ok t" "ide_inv t rs" using interrupt_ok assms(2) qs by metis
  then show ?thesis using step_served qs by (simp add: requested_def served_def)
next
  case (step_quiet i b)
  then have "pending (((ide_bufs s)(i := b)) j) = pending (ide_bufs s j)" if "j \<in> set qs" for j using that by auto
  moreover have "started (s\<lparr>ide_bufs := (ide_bufs s)(i := b)\<rparr>) (hd qs) = started s (hd qs)" if "qs \<noteq> []"
    using step_quiet that by (cases qs) (auto simp: started_def)
  ultimately show ?thesis using step_quiet assms(2) by (auto simp: ide_inv_def requested_def served_def)
qed

lemma ide_run_inv:
  "ide_run c es c' \<Longrightarrow> ide_inv (fst c) (snd c) \<Longrightarrow> ide_inv (fst c') (snd c') \<and> snd c @ requested es = served es @ snd c'"
proof (induction rule: ide_run.induct)
  case run_start
  then show ?case by (simp add: requested_def served_def)
next
  case (run_step es c' e c'')
  then have i: "ide_inv (fst c') (snd c')" "snd c @ requested es = served es @ snd c'" by simp_all
  have e: "ide_step (fst c', snd c') e (fst c'', snd c'')" using run_step.hyps(2) by simp
  have a: "requested (es @ [e]) = requested es @ requested [e]" "served (es @ [e]) = served es @ served [e]"
    by (simp_all add: requested_def served_def)
  show ?case using ide_step_inv [OF e i(1)] i(2) unfolding a by (metis append_assoc)
qed

section \<open>Properties\<close>


text \<open>Two buffers held by one process: a dirty one with new contents for block 5 and an empty one for block 6.\<close>

definition sample_ide :: ide where
  "sample_ide = \<lparr>ide_bufs = (\<lambda>i. \<lparr>b_valid = (i = 0), b_dirty = (i = 0), b_dev = 1, b_blockno = (if i = 0 then 5 else 6),
       b_lock = \<lparr>sl_locked = True, sl_pid = 1\<rparr>, b_refcnt = 1, b_prev = 0, b_next = 0, b_data = (if i = 0 then [7] else [])\<rparr>),
     idequeue = None, qnext = (\<lambda>_. None), havedisk1 = True, ide_disk = (\<lambda>_. [9]), ide_cmd = None, ide_woken = []\<rparr>"

lemma sample_ide_run:
  "\<exists>s. ide_run (sample_ide, []) [Request 0, Request 1] (s, [0, 1])"
proof -
  obtain s1 where s1: "ide_request 1 0 sample_ide = Ok s1" "ide_bufs s1 = ide_bufs sample_ide" "idequeue s1 = Some 0" "qnext s1 0 = None" "havedisk1 s1"
    by (simp add: ide_request_def idestart_def sample_ide_def holdingsleep_def FSSIZE_def Let_def)
  obtain s2 where s2: "ide_request 1 1 s1 = Ok s2"
    using s1 by (simp add: ide_request_def sample_ide_def holdingsleep_def Let_def)
  have b: "b_blockno (ide_bufs sample_ide i) < FSSIZE" for i by (simp add: sample_ide_def FSSIZE_def)
  have "ide_run (sample_ide, []) ([] @ [Request 0]) (s1, [0])"
    using run_step [OF run_start step_request [OF s1(1), of "[]"]] b by (simp add: NBUF_def)
  from run_step [OF this step_request [OF s2, of "[0]"]] b s1(2) have
    "ide_run (sample_ide, []) (([] @ [Request 0]) @ [Request 1]) (s2, [0] @ [1])" by (simp add: NBUF_def)
  then show ?thesis by auto
qed


text \<open>A read that the disk reports as failed still makes the buffer valid.\<close>

theorem ide_read_error_ignored:
  assumes "idequeue s = Some i" and "qnext s i = None" and "\<not> b_dirty (ide_bufs s i)"
  shows "\<exists>s'. ideintr False s = Ok s' \<and> b_valid (ide_bufs s' i) \<and> b_data (ide_bufs s' i) = b_data (ide_bufs s i)"
  using assms by (simp add: ideintr_def Let_def)

end
