(* ===== verification/Vm_Laws.thy ===== *)
theory Vm_Laws
  imports Vm
begin

text \<open>
  Laws of the page tables. \<open>xlate\<close> is the translation that the processor performs with the tables in memory. Tables
  that are built from pages of the allocator and do not overlap are kept by \<open>mappages\<close>, which adds exactly the
  pages that it is asked for.
\<close>

unbundle bit_operations_syntax

section \<open>Entries\<close>

definition present :: "uint \<Rightarrow> bool" where
  "present w \<longleftrightarrow> w AND PTE_P \<noteq> 0"

definition pde_of :: "uint \<Rightarrow> uint \<Rightarrow> mem \<Rightarrow> uint" where
  "pde_of pgdir d m = load32 m (pgdir + 4 * d)"

definition table_of :: "uint \<Rightarrow> uint \<Rightarrow> mem \<Rightarrow> uint" where
  "table_of pgdir d m = P2V (PTE_ADDR (pde_of pgdir d m))"

definition xlate :: "uint \<Rightarrow> uint \<Rightarrow> mem \<Rightarrow> uint option" where
  "xlate pgdir va m =
     (if present (pde_of pgdir (PDX va) m) then
        let pte = load32 m (table_of pgdir (PDX va) m + 4 * PTX va) in if present pte then Some pte else None
      else None)"

lemma PDX_less: "PDX va < 1024" and PTX_less: "PTX va < 1024"
proof -
  have "x AND 0x3FF < (1024 :: uint)" for x :: uint
    using word_and_le1 [of x "0x3FF"] by (rule le_less_trans) simp
  then show "PDX va < 1024" "PTX va < 1024" by (simp_all add: PDX_def PTX_def)
qed

lemma entry_off: "d < (1024::uint) \<Longrightarrow> unat (4 * d) = 4 * unat d"
proof -
  assume "d < 1024"
  then have "unat d < 1024" by (simp add: word_less_nat_alt)
  then show ?thesis by (simp add: unat_word_ariths)
qed

lemma entry_unat:
  assumes "d < (1024::uint)" and "unat (x - (p + 4 * d)) < 4"
  shows "unat (x - p) = 4 * unat d + unat (x - (p + 4 * d))"
proof -
  have "unat d < 1024" using assms(1) by (simp add: word_less_nat_alt)
  then have "unat (4 * d) + unat (x - (p + 4 * d)) < 2 ^ 32" using entry_off [OF assms(1)] assms(2) by simp
  then have "unat (4 * d + (x - (p + 4 * d))) = unat (4 * d) + unat (x - (p + 4 * d))"
    unfolding unat_word_ariths(1) [of "4 * d" "x - (p + 4 * d)"] by simp
  moreover have "4 * d + (x - (p + 4 * d)) = x - p" by (simp add: algebra_simps)
  ultimately show ?thesis using entry_off [OF assms(1)] by simp
qed

lemma entry_in_page: "d < (1024::uint) \<Longrightarrow> unat (x - (p + 4 * d)) < 4 \<Longrightarrow> in_page p x"
  using entry_unat [of d x p] by (auto simp: in_page_def word_less_nat_alt)

lemma entry_store_other:
  assumes "d < 1024" "e < 1024" and "p = q \<Longrightarrow> d \<noteq> e" and "p mod PGSIZE = 0" "q mod PGSIZE = 0"
  shows "load32 (store32 (p + 4 * d) w m) (q + 4 * e) = load32 m (q + 4 * e)"
proof (rule load32_cong)
  fix x
  assume x: "unat (x - (q + 4 * e)) < 4"
  have "\<not> unat (x - (p + 4 * d)) < 4"
  proof
    assume y: "unat (x - (p + 4 * d)) < 4"
    have "p = q" by (rule in_page_unique [OF assms(4,5) entry_in_page [OF assms(1) y] entry_in_page [OF assms(2) x]])
    moreover from this have "unat d = unat e" using entry_unat [OF assms(1) y] entry_unat [OF assms(2) x] x y by simp
    ultimately show False using assms(3) by (simp add: word_unat_eq_iff)
  qed
  then show "store32 (p + 4 * d) w m x = m x" by (intro store32_other) simp
qed

lemma low_bits: "x AND 0xFFF = x mod PGSIZE"
proof -
  have "x AND 0xFFF = take_bit 12 x" by (simp add: take_bit_eq_mask mask_eq_exp_minus_1)
  then show ?thesis by (simp add: take_bit_eq_mod PGSIZE_def)
qed

lemma mod_page_self: "f < PGSIZE \<Longrightarrow> f mod PGSIZE = f"
  by (simp add: word_unat_eq_iff unat_mod word_less_nat_alt)

lemma and_not_id: "x AND m = 0 \<Longrightarrow> x AND NOT m = (x :: uint)"
proof -
  assume "x AND m = 0"
  moreover have "x = (x AND m) OR (x AND NOT m)" by (simp flip: bit.conj_disj_distrib)
  ultimately show ?thesis by simp
qed

lemma PTE_ADDR_or: "x mod PGSIZE = 0 \<Longrightarrow> f < PGSIZE \<Longrightarrow> PTE_ADDR (x OR f) = x"
proof -
  assume "x mod PGSIZE = 0" and "f < PGSIZE"
  then have x: "x AND 0xFFF = 0" and f: "f AND 0xFFF = f" by (simp_all add: low_bits mod_page_self)
  have "f AND NOT 0xFFF = 0"
  proof -
    have "f AND NOT 0xFFF = (f AND 0xFFF) AND NOT 0xFFF" unfolding f ..
    also have "\<dots> = 0" by (simp add: and.assoc)
    finally show ?thesis .
  qed
  moreover have "x AND NOT 0xFFF = x" by (rule and_not_id [OF x])
  ultimately show ?thesis by (simp add: PTE_ADDR_def bit.conj_disj_distrib2)
qed

lemma V2P_aligned: "x mod PGSIZE = 0 \<Longrightarrow> V2P x mod PGSIZE = 0"
proof -
  assume "x mod PGSIZE = 0"
  then obtain k where k: "unat x = 4096 * k" by (auto simp: aligned_unat)
  have "unat (V2P x) = (if 2147483648 \<le> unat x then unat x - 2147483648 else unat x + 4294967296 - 2147483648)"
    using unat_sub_if_size [of x KERNBASE] by (simp add: V2P_def KERNBASE_def word_size)
  also have "\<dots> = 4096 * (if 2147483648 \<le> unat x then k - 524288 else k + 524288)" using k by (simp add: diff_mult_distrib2)
  finally show ?thesis by (simp add: aligned_unat)
qed

lemma P2V_V2P [simp]: "P2V (V2P x) = x"
  by (simp add: P2V_def V2P_def)

section \<open>Tables\<close>

text \<open>The tables below a page directory: pages of the allocator, none of them free, all different.\<close>

definition pt_ok :: "uint \<Rightarrow> uint \<Rightarrow> 'a kmem_scheme \<Rightarrow> uint list \<Rightarrow> bool" where
  "pt_ok kend pgdir s xs \<longleftrightarrow> kinv kend s xs \<and> page_ok kend pgdir \<and> pgdir \<notin> set xs \<and>
     (\<forall>d < 1024. present (pde_of pgdir d (kmem_bytes s)) \<longrightarrow>
        page_ok kend (table_of pgdir d (kmem_bytes s)) \<and> table_of pgdir d (kmem_bytes s) \<notin> insert pgdir (set xs)) \<and>
     (\<forall>d < 1024. \<forall>e < 1024. present (pde_of pgdir d (kmem_bytes s)) \<longrightarrow> present (pde_of pgdir e (kmem_bytes s)) \<longrightarrow>
        table_of pgdir d (kmem_bytes s) = table_of pgdir e (kmem_bytes s) \<longrightarrow> d = e)"

lemma pt_okD:
  assumes "pt_ok kend pgdir s xs"
  shows "kinv kend s xs" "page_ok kend pgdir" "pgdir mod PGSIZE = 0" "pgdir \<notin> set xs"
    "\<And>d. d < 1024 \<Longrightarrow> present (pde_of pgdir d (kmem_bytes s)) \<Longrightarrow> page_ok kend (table_of pgdir d (kmem_bytes s))"
    "\<And>d. d < 1024 \<Longrightarrow> present (pde_of pgdir d (kmem_bytes s)) \<Longrightarrow> table_of pgdir d (kmem_bytes s) \<notin> set xs"
    "\<And>d. d < 1024 \<Longrightarrow> present (pde_of pgdir d (kmem_bytes s)) \<Longrightarrow> table_of pgdir d (kmem_bytes s) \<noteq> pgdir"
    "\<And>d e. d < 1024 \<Longrightarrow> e < 1024 \<Longrightarrow> present (pde_of pgdir d (kmem_bytes s)) \<Longrightarrow> present (pde_of pgdir e (kmem_bytes s)) \<Longrightarrow>
      table_of pgdir d (kmem_bytes s) = table_of pgdir e (kmem_bytes s) \<Longrightarrow> d = e"
  using assms by (auto simp: pt_ok_def page_ok_def)

lemma kinv_store:
  assumes "kinv kend s xs" and "page_ok kend p" and "p \<notin> set xs" and "\<And>a. \<not> in_page p a \<Longrightarrow> m a = kmem_bytes s a"
  shows "kinv kend (set_bytes m s) xs"
proof -
  have "m a = kmem_bytes s a" if "x \<in> set xs" "in_page x a" for x a
  proof -
    have "page_ok kend x" "x \<noteq> p" using assms(1,3) that(1) by (auto simp: kinv_def)
    then have "\<not> in_page p a" using page_ok_disjoint [OF _ assms(2)] that(2) by blast
    then show ?thesis by (rule assms(4))
  qed
  then show ?thesis using ks.put_ok [OF assms(1), of m] by blast
qed

lemma store_entry_out: "d < 1024 \<Longrightarrow> \<not> in_page p a \<Longrightarrow> store32 (p + 4 * d) w m a = m a"
  using entry_in_page [of d a p] by (intro store32_other) force

text \<open>Writing an entry of one table.\<close>

lemma set_entry:
  assumes ok: "pt_ok kend pgdir s xs" and p: "present (pde_of pgdir (PDX va) (kmem_bytes s))"
    and pte: "pte = table_of pgdir (PDX va) (kmem_bytes s) + 4 * PTX va"
  shows "pt_ok kend pgdir (put32 pte w s) xs"
    and "xlate pgdir vb (kmem_bytes (put32 pte w s)) =
      (if PDX vb = PDX va \<and> PTX vb = PTX va then if present w then Some w else None else xlate pgdir vb (kmem_bytes s))"
proof -
  let ?t = "table_of pgdir (PDX va) (kmem_bytes s)"
  let ?m = "store32 pte w (kmem_bytes s)"
  note D = pt_okD [OF ok]
  have t: "page_ok kend ?t" "?t \<notin> set xs" "?t \<noteq> pgdir" "?t mod PGSIZE = 0"
    using D(5,6,7) [OF PDX_less p] by (simp_all add: page_ok_def)
  have pde: "pde_of pgdir d ?m = pde_of pgdir d (kmem_bytes s)" if "d < 1024" for d
    unfolding pde_of_def pte using t D(3) that PTX_less by (intro entry_store_other) auto
  then have tab: "table_of pgdir d ?m = table_of pgdir d (kmem_bytes s)" if "d < 1024" for d
    using that by (simp add: table_of_def)
  have "kinv kend (set_bytes ?m s) xs"
    by (rule kinv_store [OF D(1) t(1,2)]) (simp add: pte store_entry_out PTX_less)
  then show "pt_ok kend pgdir (put32 pte w s) xs"
    using ok pde tab by (simp add: pt_ok_def put32_def set_bytes_def)
  have b: "kmem_bytes (put32 pte w s) = ?m" by (simp add: put32_def)
  show "xlate pgdir vb (kmem_bytes (put32 pte w s)) =
      (if PDX vb = PDX va \<and> PTX vb = PTX va then if present w then Some w else None else xlate pgdir vb (kmem_bytes s))"
  proof (cases "PDX vb = PDX va \<and> PTX vb = PTX va")
    case True
    then show ?thesis using p pde [OF PDX_less] tab [OF PDX_less] unfolding b xlate_def by (simp add: pte Let_def)
  next
    case False
    have "load32 ?m (table_of pgdir (PDX vb) (kmem_bytes s) + 4 * PTX vb) = load32 (kmem_bytes s) (table_of pgdir (PDX vb) (kmem_bytes s) + 4 * PTX vb)"
      if q: "present (pde_of pgdir (PDX vb) (kmem_bytes s))"
      unfolding pte
    proof (rule entry_store_other [OF PTX_less PTX_less])
      show "PTX va \<noteq> PTX vb" if "?t = table_of pgdir (PDX vb) (kmem_bytes s)"
        using D(8) [OF PDX_less PDX_less p q that] False by auto
      show "table_of pgdir (PDX vb) (kmem_bytes s) mod PGSIZE = 0" using D(5) [OF PDX_less q] by (simp add: page_ok_def)
    qed (rule t(4))
    then show ?thesis unfolding b if_not_P [OF False] xlate_def using pde [OF PDX_less] tab [OF PDX_less] by simp
  qed
qed

text \<open>Clearing a page that is no table.\<close>

lemma load_filled_other:
  assumes "p mod PGSIZE = 0" "q mod PGSIZE = 0" "p \<noteq> q" "e < 1024"
  shows "load32 (filled p 4096 c m) (q + 4 * e) = load32 m (q + 4 * e)"
proof (rule load32_cong)
  fix x
  assume "unat (x - (q + 4 * e)) < 4"
  then have "in_page q x" by (rule entry_in_page [OF assms(4)])
  then have "\<not> in_page p x" using in_page_unique [OF assms(1,2)] assms(3) by blast
  then show "filled p 4096 c m x = m x" by (simp add: filled_def in_page_def)
qed

lemma load_filled_zero: "e < 1024 \<Longrightarrow> load32 (filled p 4096 0 m) (p + 4 * e) = 0"
proof -
  assume e: "e < 1024"
  have "load32 (filled p 4096 0 m) (p + 4 * e) = load32 (\<lambda>_. 0) (p + 4 * e)"
    by (rule load32_cong) (use entry_in_page [OF e] in \<open>auto simp: filled_def in_page_def\<close>)
  then show ?thesis by (simp add: load32_def bytes_u32_def)
qed

lemma present_bit: "present w \<longleftrightarrow> bit w 0"
  by (simp add: present_def PTE_P_def and_one_eq bit_0 even_iff_mod_2_eq_zero)

lemma present_simps: "\<not> present 0" "present (w OR PTE_P OR f)" "present (w OR f OR PTE_P)"
  unfolding present_bit by (simp_all add: PTE_P_def bit_or_iff)

lemma new_table:
  assumes ok: "pt_ok kend pgdir s (x # xs)" and np: "\<not> present (pde_of pgdir (PDX va) (kmem_bytes s))"
  obtains s' where "walkpgdir pgdir va True s = (x + 4 * PTX va, s')" "pt_ok kend pgdir s' xs" "x \<noteq> 0"
    "present (pde_of pgdir (PDX va) (kmem_bytes s'))" "table_of pgdir (PDX va) (kmem_bytes s') = x"
    "\<And>vb. xlate pgdir vb (kmem_bytes s') = xlate pgdir vb (kmem_bytes s)"
proof -
  note D = pt_okD [OF ok]
  let ?m = "kmem_bytes s"
  let ?w = "V2P x OR PTE_P OR PTE_W OR PTE_U"
  let ?m1 = "filled x 4096 0 ?m"
  let ?m2 = "store32 (pgdir + 4 * PDX va) ?w ?m1"
  obtain s1 where s1: "kalloc s = (x, s1)" "kinv kend s1 xs" "kmem_bytes s1 = ?m"
    using ks.alloc_some [OF D(1)] by blast
  have x: "page_ok kend x" "x \<notin> set xs" "x mod PGSIZE = 0" "x \<noteq> pgdir" "x \<noteq> 0"
    using D(1,4) page_ok_nonzero [of kend x] by (auto simp: kinv_def page_ok_def)
  let ?t = "set_bytes ?m2 (set_bytes ?m1 s1)"
  have "kinv kend (set_bytes ?m1 s1) xs"
    by (rule kinv_store [OF s1(2) x(1,2)]) (simp add: s1(3) filled_def in_page_def)
  then have kt: "kinv kend ?t xs"
    by (rule kinv_store [of _ _ _ pgdir]) (use D(2,4) in \<open>simp_all add: set_bytes_def store_entry_out PDX_less\<close>)
  have w: "walkpgdir pgdir va True s = (x + 4 * PTX va, ?t)"
    using np s1 x(5) by (simp add: walkpgdir_def get32_def put32_def zero_page_def set_bytes_def memset_filled present_def pde_of_def Let_def)
  have pde: "pde_of pgdir d ?m2 = (if d = PDX va then ?w else pde_of pgdir d ?m)" if "d < 1024" for d
  proof (cases "d = PDX va")
    case True
    then show ?thesis by (simp add: pde_of_def)
  next
    case False
    then have "load32 ?m2 (pgdir + 4 * d) = load32 ?m1 (pgdir + 4 * d)"
      by (intro entry_store_other) (use that PDX_less D(3) in auto)
    then show ?thesis using False load_filled_other [OF x(3) D(3) x(4) that] by (simp add: pde_of_def)
  qed
  have pw: "present ?w" using present_simps(2) [of "V2P x" "PTE_W OR PTE_U"] .
  have "PTE_ADDR (V2P x OR (PTE_P OR PTE_W OR PTE_U)) = V2P x"
    by (rule PTE_ADDR_or [OF V2P_aligned [OF x(3)]]) (simp add: PTE_P_def PTE_W_def PTE_U_def PGSIZE_def)
  then have tx: "table_of pgdir (PDX va) ?m2 = x" using pde [OF PDX_less] by (simp add: table_of_def)
  have tab: "table_of pgdir d ?m2 = table_of pgdir d ?m" if "d < 1024" "d \<noteq> PDX va" for d
    using pde [OF that(1)] that(2) by (simp add: table_of_def)
  have b: "kmem_bytes ?t = ?m2" by (simp add: set_bytes_def)
  have old: "present (pde_of pgdir d ?m)" "table_of pgdir d ?m2 = table_of pgdir d ?m" "table_of pgdir d ?m \<noteq> x"
    if "d < 1024" "present (pde_of pgdir d ?m2)" "d \<noteq> PDX va" for d
  proof -
    show p: "present (pde_of pgdir d ?m)" using that(2) unfolding pde [OF that(1)] if_not_P [OF that(3)] .
    show "table_of pgdir d ?m2 = table_of pgdir d ?m" by (rule tab [OF that(1,3)])
    show "table_of pgdir d ?m \<noteq> x" using D(6) [OF that(1) p] by auto
  qed
  have one: "page_ok kend (table_of pgdir d ?m2) \<and> table_of pgdir d ?m2 \<notin> insert pgdir (set xs)"
    if "d < 1024" "present (pde_of pgdir d ?m2)" for d
  proof (cases "d = PDX va")
    case True
    show ?thesis unfolding True tx using x(1,2,4) by simp
  next
    case False
    note o = old [OF that False]
    show ?thesis unfolding o(2) using D(5-7) [OF that(1) o(1)] by simp
  qed
  have two: "d = e" if "d < 1024" "e < 1024" "present (pde_of pgdir d ?m2)" "present (pde_of pgdir e ?m2)" "table_of pgdir d ?m2 = table_of pgdir e ?m2" for d e
  proof (cases "d = PDX va")
    case True
    have "e = PDX va"
    proof (rule ccontr)
      assume "e \<noteq> PDX va"
      from old [OF that(2,4) this] show False using that(5) unfolding True tx by simp
    qed
    then show ?thesis using True by simp
  next
    case False
    note o = old [OF that(1,3) False]
    have "e \<noteq> PDX va"
    proof
      assume e: "e = PDX va"
      show False using that(5) o unfolding e tx by simp
    qed
    note oe = old [OF that(2,4) this]
    show ?thesis by (rule D(8) [OF that(1,2) o(1) oe(1)]) (use that(5) o(2) oe(2) in simp)
  qed
  have "pt_ok kend pgdir ?t xs"
    unfolding pt_ok_def b using kt D(2,4) one two by (intro conjI) (simp, simp, simp, blast, blast)
  moreover have "xlate pgdir vb ?m2 = xlate pgdir vb ?m" for vb
  proof (cases "PDX vb = PDX va")
    case True
    have "load32 ?m2 (x + 4 * PTX vb) = load32 ?m1 (x + 4 * PTX vb)"
      by (intro entry_store_other) (use PTX_less PDX_less D(3) x in auto)
    then show ?thesis using True tx np load_filled_zero [OF PTX_less] present_simps(1) by (simp add: xlate_def Let_def)
  next
    case False
    let ?q = "table_of pgdir (PDX vb) ?m"
    have "load32 ?m2 (?q + 4 * PTX vb) = load32 ?m (?q + 4 * PTX vb)" if q: "present (pde_of pgdir (PDX vb) ?m)"
    proof -
      have o: "?q mod PGSIZE = 0" "?q \<noteq> pgdir" "x \<noteq> ?q" using D(5-7) [OF PDX_less q] by (auto simp: page_ok_def)
      have "load32 ?m2 (?q + 4 * PTX vb) = load32 ?m1 (?q + 4 * PTX vb)"
        by (intro entry_store_other) (use PTX_less PDX_less D(3) o in auto)
      then show ?thesis using load_filled_other [OF x(3) o(1,3) PTX_less] by simp
    qed
    then show ?thesis using False pde [OF PDX_less] tab [OF PDX_less False] by (simp add: xlate_def Let_def)
  qed
  ultimately show thesis using that [OF w] x(5) pw pde [OF PDX_less] tx unfolding b by simp
qed

lemma entry_nonzero:
  assumes "page_ok kend p" and "e < 1024"
  shows "p + 4 * e \<noteq> 0"
proof
  assume z: "p + 4 * e = 0"
  have "in_page p (p + 4 * e)" by (rule entry_in_page [OF assms(2)]) simp
  then have "unat (p + 4 * e) \<ge> unat p" using page_no_wrap [of p "p + 4 * e"] assms(1) by (simp add: page_ok_def)
  then have "p = 0" using z by (simp add: unat_eq_zero)
  then show False using page_ok_nonzero [OF assms(1)] by simp
qed

lemma walk_ok:
  assumes ok: "pt_ok kend pgdir s xs" and "xs \<noteq> []"
  obtains s' ys where "walkpgdir pgdir va True s = (table_of pgdir (PDX va) (kmem_bytes s') + 4 * PTX va, s')" "pt_ok kend pgdir s' ys"
    "length xs \<le> Suc (length ys)" "present (pde_of pgdir (PDX va) (kmem_bytes s'))"
    "table_of pgdir (PDX va) (kmem_bytes s') + 4 * PTX va \<noteq> 0"
    "\<And>vb. xlate pgdir vb (kmem_bytes s') = xlate pgdir vb (kmem_bytes s)"
proof (cases "present (pde_of pgdir (PDX va) (kmem_bytes s))")
  case True
  then have "walkpgdir pgdir va True s = (table_of pgdir (PDX va) (kmem_bytes s) + 4 * PTX va, s)"
    by (simp add: walkpgdir_def get32_def present_def pde_of_def table_of_def Let_def)
  moreover have "table_of pgdir (PDX va) (kmem_bytes s) + 4 * PTX va \<noteq> 0"
    by (rule entry_nonzero [OF pt_okD(5) [OF ok PDX_less True] PTX_less])
  ultimately show ?thesis using that [of s xs] ok True by simp
next
  case False
  obtain x ys where xs: "xs = x # ys" using assms(2) by (cases xs) auto
  obtain s' where s': "walkpgdir pgdir va True s = (x + 4 * PTX va, s')" "pt_ok kend pgdir s' ys" "present (pde_of pgdir (PDX va) (kmem_bytes s'))"
    "table_of pgdir (PDX va) (kmem_bytes s') = x" "\<And>vb. xlate pgdir vb (kmem_bytes s') = xlate pgdir vb (kmem_bytes s)"
    by (rule new_table [OF ok [unfolded xs] False]) blast
  have "x + 4 * PTX va \<noteq> 0" using entry_nonzero [OF pt_okD(5) [OF s'(2) PDX_less s'(3)] PTX_less] s'(4) by simp
  then show ?thesis using that [of s' ys] s' xs by simp
qed

section \<open>Mapping\<close>

definition same_page :: "uint \<Rightarrow> uint \<Rightarrow> bool" where
  "same_page va vb \<longleftrightarrow> PDX va = PDX vb \<and> PTX va = PTX vb"

lemma same_page_sym: "same_page a b \<Longrightarrow> same_page b a"
  by (simp add: same_page_def)

lemma xlate_same: "same_page va vb \<Longrightarrow> xlate pgdir va m = xlate pgdir vb m"
  by (simp add: same_page_def xlate_def)

lemma map_one:
  assumes ok: "pt_ok kend pgdir s xs" and "xs \<noteq> []" and none: "xlate pgdir a (kmem_bytes s) = None"
  obtains s' ys where "\<And>n lst pa perm. mappages_loop (Suc n) pgdir a lst pa perm s =
      (if a = lst then Ok (0, s' (pa OR perm OR PTE_P)) else mappages_loop n pgdir (a + PGSIZE) lst (pa + PGSIZE) perm (s' (pa OR perm OR PTE_P)))"
    "\<And>w. pt_ok kend pgdir (s' w) ys" "length xs \<le> Suc (length ys)"
    "\<And>w vb. xlate pgdir vb (kmem_bytes (s' w)) = (if same_page vb a then if present w then Some w else None else xlate pgdir vb (kmem_bytes s))"
proof -
  obtain t ys where t: "walkpgdir pgdir a True s = (table_of pgdir (PDX a) (kmem_bytes t) + 4 * PTX a, t)" "pt_ok kend pgdir t ys"
    "length xs \<le> Suc (length ys)" "present (pde_of pgdir (PDX a) (kmem_bytes t))"
    "table_of pgdir (PDX a) (kmem_bytes t) + 4 * PTX a \<noteq> 0" "\<And>vb. xlate pgdir vb (kmem_bytes t) = xlate pgdir vb (kmem_bytes s)"
    by (rule walk_ok [OF ok assms(2), of a]) blast
  let ?pte = "table_of pgdir (PDX a) (kmem_bytes t) + 4 * PTX a"
  have "\<not> present (get32 ?pte t)" using t(4) t(6) [of a] none by (auto simp: xlate_def get32_def Let_def split: if_splits)
  then have l: "mappages_loop (Suc n) pgdir a lst pa perm s =
      (if a = lst then Ok (0, put32 ?pte (pa OR perm OR PTE_P) t)
       else mappages_loop n pgdir (a + PGSIZE) lst (pa + PGSIZE) perm (put32 ?pte (pa OR perm OR PTE_P) t))" for n lst pa perm
    using t(1,5) by (simp add: present_def Let_def)
  show thesis
    by (rule that [of "\<lambda>w. put32 ?pte w t", OF l set_entry(1) [OF t(2,4) refl] t(3)])
      (simp add: set_entry(2) [OF t(2,4) refl] t(6) same_page_def)
qed

lemma mappages_loop_ok:
  assumes "pt_ok kend pgdir s xs" and "k < length xs" and "k < n"
    and "\<And>i j. i \<le> k \<Longrightarrow> j \<le> k \<Longrightarrow> same_page (a + of_nat i * PGSIZE) (a + of_nat j * PGSIZE) \<Longrightarrow> i = j"
    and "\<And>i. i \<le> k \<Longrightarrow> xlate pgdir (a + of_nat i * PGSIZE) (kmem_bytes s) = None"
  shows "\<exists>s' ys. mappages_loop n pgdir a (a + of_nat k * PGSIZE) pa perm s = Ok (0, s') \<and> pt_ok kend pgdir s' ys \<and>
    (\<forall>i \<le> k. xlate pgdir (a + of_nat i * PGSIZE) (kmem_bytes s') = Some (pa + of_nat i * PGSIZE OR perm OR PTE_P)) \<and>
    (\<forall>vb. (\<forall>i \<le> k. \<not> same_page vb (a + of_nat i * PGSIZE)) \<longrightarrow> xlate pgdir vb (kmem_bytes s') = xlate pgdir vb (kmem_bytes s))"
  using assms
proof (induction k arbitrary: n a pa s xs)
  case 0
  obtain f where n: "n = Suc f" using "0.prems"(3) by (cases n) auto
  obtain s' ys where s': "\<And>n lst pa perm. mappages_loop (Suc n) pgdir a lst pa perm s =
      (if a = lst then Ok (0, s' (pa OR perm OR PTE_P)) else mappages_loop n pgdir (a + PGSIZE) lst (pa + PGSIZE) perm (s' (pa OR perm OR PTE_P)))"
    "\<And>w. pt_ok kend pgdir (s' w) ys"
    "\<And>w vb. xlate pgdir vb (kmem_bytes (s' w)) = (if same_page vb a then if present w then Some w else None else xlate pgdir vb (kmem_bytes s))"
    by (rule map_one [OF "0.prems"(1), of a]) (use "0.prems"(2,5) in auto)
  show ?case using s' present_simps(3) by (intro exI [of _ "s' (pa OR perm OR PTE_P)"] exI [of _ ys]) (simp add: n same_page_def del: mappages_loop.simps)
next
  case (Suc k)
  obtain f where n: "n = Suc f" "k < f" using Suc.prems(3) by (cases n) auto
  obtain s' ys where s': "\<And>n lst pa perm. mappages_loop (Suc n) pgdir a lst pa perm s =
      (if a = lst then Ok (0, s' (pa OR perm OR PTE_P)) else mappages_loop n pgdir (a + PGSIZE) lst (pa + PGSIZE) perm (s' (pa OR perm OR PTE_P)))"
    "\<And>w. pt_ok kend pgdir (s' w) ys" "length xs \<le> Suc (length ys)"
    "\<And>w vb. xlate pgdir vb (kmem_bytes (s' w)) = (if same_page vb a then if present w then Some w else None else xlate pgdir vb (kmem_bytes s))"
    by (rule map_one [OF Suc.prems(1), of a]) (use Suc.prems(2) Suc.prems(5) [of 0] in auto)
  define t where "t = s' (pa OR perm OR PTE_P)"
  have sh: "a + of_nat (Suc i) * PGSIZE = a + PGSIZE + of_nat i * PGSIZE" for i by (simp add: algebra_simps)
  have ne: "\<not> same_page (a + PGSIZE + of_nat i * PGSIZE) a" if "i \<le> k" for i
    using Suc.prems(4) [of "Suc i" 0] that unfolding sh by auto
  have "a + PGSIZE + of_nat k * PGSIZE \<noteq> a" 
  proof
    assume e: "a + PGSIZE + of_nat k * PGSIZE = a"
    show False using ne [OF le_refl] unfolding same_page_def e by simp
  qed
  then have na: "a \<noteq> a + of_nat (Suc k) * PGSIZE" unfolding sh by metis
  have IH: "\<exists>s'' zs. mappages_loop f pgdir (a + PGSIZE) (a + PGSIZE + of_nat k * PGSIZE) (pa + PGSIZE) perm t = Ok (0, s'') \<and> pt_ok kend pgdir s'' zs \<and>
    (\<forall>i \<le> k. xlate pgdir (a + PGSIZE + of_nat i * PGSIZE) (kmem_bytes s'') = Some (pa + PGSIZE + of_nat i * PGSIZE OR perm OR PTE_P)) \<and>
    (\<forall>vb. (\<forall>i \<le> k. \<not> same_page vb (a + PGSIZE + of_nat i * PGSIZE)) \<longrightarrow> xlate pgdir vb (kmem_bytes s'') = xlate pgdir vb (kmem_bytes t))"
  proof (rule Suc.IH)
    show "pt_ok kend pgdir t ys" unfolding t_def by (rule s'(2))
    show "k < length ys" using s'(3) Suc.prems(2) by simp
    show "i = j" if "i \<le> k" "j \<le> k" "same_page (a + PGSIZE + of_nat i * PGSIZE) (a + PGSIZE + of_nat j * PGSIZE)" for i j
      using Suc.prems(4) [of "Suc i" "Suc j"] that unfolding sh by simp
    show "xlate pgdir (a + PGSIZE + of_nat i * PGSIZE) (kmem_bytes t) = None" if "i \<le> k" for i
      using Suc.prems(5) [of "Suc i"] that ne [OF that] unfolding sh t_def s'(4) by simp
  qed (rule n(2))
  then obtain s'' zs where s'': "mappages_loop f pgdir (a + PGSIZE) (a + PGSIZE + of_nat k * PGSIZE) (pa + PGSIZE) perm t = Ok (0, s'')" "pt_ok kend pgdir s'' zs"
    "\<forall>i \<le> k. xlate pgdir (a + PGSIZE + of_nat i * PGSIZE) (kmem_bytes s'') = Some (pa + PGSIZE + of_nat i * PGSIZE OR perm OR PTE_P)"
    "\<forall>vb. (\<forall>i \<le> k. \<not> same_page vb (a + PGSIZE + of_nat i * PGSIZE)) \<longrightarrow> xlate pgdir vb (kmem_bytes s'') = xlate pgdir vb (kmem_bytes t)"
    by (elim exE conjE) (rule that)
  show ?case
  proof (intro exI [of _ s''] exI [of _ zs] conjI allI impI s''(2))
    show "mappages_loop n pgdir a (a + of_nat (Suc k) * PGSIZE) pa perm s = Ok (0, s'')"
      using na s''(1) unfolding n(1) s'(1) t_def [symmetric] sh by (simp only: if_False)
    show "xlate pgdir (a + of_nat i * PGSIZE) (kmem_bytes s'') = Some (pa + of_nat i * PGSIZE OR perm OR PTE_P)" if "i \<le> Suc k" for i
    proof (cases i)
      case 0
      have "xlate pgdir a (kmem_bytes s'') = xlate pgdir a (kmem_bytes t)"
        by (rule s''(4) [rule_format]) (use ne same_page_sym in blast)
      then show ?thesis using 0 present_simps(3) by (simp add: t_def s'(4) same_page_def)
    next
      case (Suc j)
      have pj: "pa + of_nat (Suc j) * PGSIZE = pa + PGSIZE + of_nat j * PGSIZE" by (simp add: algebra_simps)
      have "j \<le> k" using that Suc by simp
      then show ?thesis unfolding Suc sh pj by (rule s''(3) [rule_format])
    qed
    fix vb
    assume o: "\<forall>i \<le> Suc k. \<not> same_page vb (a + of_nat i * PGSIZE)"
    have "\<not> same_page vb (a + PGSIZE + of_nat i * PGSIZE)" if "i \<le> k" for i using o [rule_format, of "Suc i"] that unfolding sh by simp
    then have "xlate pgdir vb (kmem_bytes s'') = xlate pgdir vb (kmem_bytes t)" using s''(4) by blast
    moreover have "\<not> same_page vb a" using o [rule_format, of 0] by simp
    ultimately show "xlate pgdir vb (kmem_bytes s'') = xlate pgdir vb (kmem_bytes s)" by (simp add: t_def s'(4))
  qed
qed

lemma same_page_aligned:
  assumes "same_page a b" and "a mod PGSIZE = 0" and "b mod PGSIZE = 0"
  shows "a = b"
proof (rule bit_word_eqI)
  fix n :: nat
  assume "n < LENGTH(32)"
  then have n32: "n < 32" by simp
  have m: "(0x3FF :: uint) = mask 10" by (simp add: mask_eq_exp_minus_1)
  have low: "\<not> bit x n" if "x mod PGSIZE = 0" "n < 12" for x :: uint
  proof -
    have "take_bit 12 x = 0" using that(1) by (simp add: take_bit_eq_mod PGSIZE_def)
    then have "\<not> bit (take_bit 12 x) n" by simp
    then show ?thesis using that(2) by (simp add: bit_take_bit_iff)
  qed
  have mid: "bit x n = bit (PTX x) (n - 12)" if "12 \<le> n" "n < 22" for x
    using that by (auto simp: PTX_def m bit_and_iff bit_drop_bit_eq bit_mask_iff)
  have high: "bit x n = bit (PDX x) (n - 22)" if "22 \<le> n" for x
    using that n32 by (auto simp: PDX_def m bit_and_iff bit_drop_bit_eq bit_mask_iff)
  show "bit a n = bit b n"
  proof (cases "n < 12")
    case True
    then show ?thesis using low assms(2,3) by simp
  next
    case False
    then show ?thesis using mid high assms(1) by (cases "n < 22") (simp_all add: same_page_def)
  qed
qed

lemma aligned_page:
  assumes "va mod PGSIZE = 0" and "unat va + 4096 * Suc k \<le> 2 ^ 32" and "i \<le> k"
  shows "unat (va + of_nat i * PGSIZE) = unat va + 4096 * i" and "(va + of_nat i * PGSIZE) mod PGSIZE = 0"
proof -
  have "i * 4096 < 2 ^ 32" using assms(2,3) by simp
  then have "unat (of_nat (i * 4096) :: uint) = i * 4096" by (simp add: unat_of_nat take_bit_nat_eq_self del: of_nat_mult)
  then have u: "unat (of_nat i * PGSIZE) = i * 4096" by (simp add: PGSIZE_def)
  show v: "unat (va + of_nat i * PGSIZE) = unat va + 4096 * i"
    unfolding unat_word_ariths(1) [of va] u using assms by simp
  show "(va + of_nat i * PGSIZE) mod PGSIZE = 0" using assms(1) unfolding aligned_unat v by simp
qed

lemma round_in_page: "y mod PGSIZE = 0 \<Longrightarrow> f < PGSIZE \<Longrightarrow> PGROUNDDOWN (y + f) = y"
proof -
  assume y: "y mod PGSIZE = 0" and f: "f < PGSIZE"
  have "y AND f = 0"
  proof -
    have "y AND f = y AND (f AND 0xFFF)" using f by (simp add: low_bits mod_page_self)
    also have "\<dots> = (y AND 0xFFF) AND f" by (simp add: ac_simps)
    also have "\<dots> = 0" using y by (simp add: low_bits)
    finally show ?thesis .
  qed
  then have "y + f = y OR f" by (rule disjunctive_add_eq_or)
  moreover have "PGROUNDDOWN x = PTE_ADDR x" for x by (simp add: PGROUNDDOWN_def PTE_ADDR_def PGSIZE_def)
  ultimately show ?thesis using PTE_ADDR_or [OF y f] by simp
qed

section \<open>Properties\<close>

text \<open>C38. \<open>mappages\<close> maps exactly the pages it is asked for. With page tables that are separate pages of the allocator, as many free pages as pages
  to map, and none of the range mapped yet, it returns success; afterwards each page of the range translates
  to its physical page with the given permissions, every address outside the range translates as before, and the tables are again separate pages.\<close>

theorem mappages_maps:
  assumes "pt_ok kend pgdir s xs" and "va mod PGSIZE = 0" and "unat va + 4096 * Suc k \<le> 2 ^ 32" and "k < length xs"
    and "\<forall>i \<le> k. xlate pgdir (va + of_nat i * PGSIZE) (kmem_bytes s) = None"
  shows "\<exists>s' ys. mappages pgdir va (of_nat (Suc k) * PGSIZE) pa perm s = Ok (0, s') \<and> pt_ok kend pgdir s' ys \<and>
    (\<forall>i \<le> k. xlate pgdir (va + of_nat i * PGSIZE) (kmem_bytes s') = Some (pa + of_nat i * PGSIZE OR perm OR PTE_P)) \<and>
    (\<forall>vb. (\<forall>i \<le> k. \<not> same_page vb (va + of_nat i * PGSIZE)) \<longrightarrow> xlate pgdir vb (kmem_bytes s') = xlate pgdir vb (kmem_bytes s))"
proof -
  note A = aligned_page [OF assms(2,3)]
  have d: "i = j" if "i \<le> k" "j \<le> k" "same_page (va + of_nat i * PGSIZE) (va + of_nat j * PGSIZE)" for i j
    using arg_cong [OF same_page_aligned [OF that(3) A(2) [OF that(1)] A(2) [OF that(2)]], of unat] A(1) [OF that(1)] A(1) [OF that(2)] by simp
  have "PGROUNDDOWN va = va" using round_in_page [OF assms(2), of 0] by (simp add: PGSIZE_def)
  moreover have e: "va + of_nat (Suc k) * PGSIZE - 1 = va + of_nat k * PGSIZE + (PGSIZE - 1)" by (simp add: algebra_simps)
  have "PGROUNDDOWN (va + of_nat (Suc k) * PGSIZE - 1) = va + of_nat k * PGSIZE"
    unfolding e by (rule round_in_page [OF A(2) [OF le_refl]]) (simp add: PGSIZE_def)
  moreover have "k < max_pages" using assms(3) by (simp add: max_pages_def)
  ultimately show ?thesis
    unfolding mappages_def using mappages_loop_ok [OF assms(1,4) _ d, of max_pages] assms(5) by simp
qed

definition sample_vm :: kmem where
  "sample_vm = \<lparr>kmem_bytes = (\<lambda>_. 0), use_lock = True, freelist = 0x80400000\<rparr>"

lemma sample_vm_ok: "pt_ok 0x80100000 0x80500000 sample_vm [0x80400000]" "xlate 0x80500000 va (kmem_bytes sample_vm) = None"
  by (simp_all add: pt_ok_def kinv_def page_ok_def sample_vm_def load32_def bytes_u32_def pde_of_def present_simps xlate_def
    PGSIZE_def V2P_def KERNBASE_def PHYSTOP_def)

theorem mappages_maps_witness:
  "\<exists>s'. mappages 0x80500000 0x1000 PGSIZE 0x600000 6 sample_vm = Ok (0, s') \<and>
     xlate 0x80500000 0x1000 (kmem_bytes s') = Some (0x600000 OR 6 OR PTE_P)"
  using mappages_maps [OF sample_vm_ok(1), where va = "0x1000" and k = 0 and pa = "0x600000" and perm = 6] sample_vm_ok(2) by (auto simp: PGSIZE_def)

end
