(* ===== verification/Mkfs.thy ===== *)
theory Mkfs
  imports Fs_Laws
begin

text \<open>
  The program that makes the disk image (\<^verbatim>\<open>mkfs.c\<close>). The image file is its number of blocks and their contents; a block between the end of
  the file and a block written behind it reads as zeros. A failed assertion, and a read behind the end of the image, end the program.
  \<^verbatim>\<open>xint\<close> and \<^verbatim>\<open>xshort\<close> put numbers into the byte order of the disk, which the byte codecs of the on-disk structures do here.
\<close>

section \<open>Layout\<close>

definition NINODES :: nat where "NINODES = 200"
definition mk_size :: nat where "mk_size = 1000"
definition nbitmap :: nat where "nbitmap = mk_size div (BSIZE * 8) + 1"
definition ninodeblocks :: nat where "ninodeblocks = NINODES div IPB + 1"
definition nlog :: nat where "nlog = LOGSIZE"
definition nmeta :: nat where "nmeta = 2 + nlog + ninodeblocks + nbitmap"

definition mk_sb :: superblock where
  "mk_sb = \<lparr>sb_size = of_nat mk_size, sb_nblocks = of_nat (mk_size - nmeta), sb_ninodes = of_nat NINODES, sb_nlog = of_nat nlog,
     sb_logstart = 2, sb_inodestart = of_nat (2 + nlog), sb_bmapstart = of_nat (2 + nlog + ninodeblocks)\<rparr>"

record img =
  im_len :: nat
  im_blk :: "nat \<Rightarrow> byte list"
  freeinode :: uint
  freeblock :: uint

section \<open>Sectors and inodes\<close>

text \<open>The offset of a sector is computed with 32 bits.\<close>

definition sector :: "uint \<Rightarrow> nat" where
  "sector sec = unat (sec * of_nat BSIZE) div BSIZE"

definition wsect :: "uint \<Rightarrow> byte list \<Rightarrow> img \<Rightarrow> img" where
  "wsect sec buf im = im\<lparr>im_blk := (im_blk im)(sector sec := buf), im_len := max (im_len im) (sector sec + 1)\<rparr>"

definition rsect :: "uint \<Rightarrow> img \<Rightarrow> byte list outcome" where
  "rsect sec im = (if sector sec < im_len im then Ok (im_blk im (sector sec)) else Panic ''read'')"

definition inode_sect :: "uint \<Rightarrow> uint" where
  "inode_sect inum = inum div of_nat IPB + sb_inodestart mk_sb"

definition winode :: "uint \<Rightarrow> dinode \<Rightarrow> img \<Rightarrow> img outcome" where
  "winode inum ip im =
     obind (rsect (inode_sect inum) im) (\<lambda>buf. Ok (wsect (inode_sect inum) (patch buf (slot_off inum) (dinode_bytes ip)) im))"

definition rinode :: "uint \<Rightarrow> img \<Rightarrow> dinode outcome" where
  "rinode inum im = obind (rsect (inode_sect inum) im) (\<lambda>buf. Ok (bytes_dinode (chunk buf (slot_off inum) 64)))"

definition mk_ialloc :: "ushort \<Rightarrow> img \<Rightarrow> (uint \<times> img) outcome" where
  "mk_ialloc ty im =
     (let inum = freeinode im; im = im\<lparr>freeinode := inum + 1\<rparr> in
      obind (winode inum \<lparr>d_type = ty, d_major = 0, d_minor = 0, d_nlink = 1, d_size = 0, d_addrs = replicate (NDIRECT + 1) 0\<rparr> im) (\<lambda>im.
      Ok (inum, im)))"

definition mk_balloc :: "int \<Rightarrow> img \<Rightarrow> img outcome" where
  "mk_balloc used im =
     (if used < int (BSIZE * 8) then Ok (wsect (sb_bmapstart mk_sb) (fold set_bit_at [0..<nat used] (replicate BSIZE 0)) im)
      else Panic ''assert'')"

section \<open>Appending\<close>

text \<open>The slot \<open>i\<close> of the addresses of an inode, filled with a new block when it is empty.\<close>

definition fill_addr :: "nat \<Rightarrow> dinode \<Rightarrow> img \<Rightarrow> dinode \<times> img" where
  "fill_addr i din im =
     (if d_addrs din ! i = 0
      then (din\<lparr>d_addrs := (d_addrs din)[i := freeblock im]\<rparr>, im\<lparr>freeblock := freeblock im + 1\<rparr>) else (din, im))"

text \<open>The sector of block \<open>fbn\<close> of a file.\<close>

definition file_sect :: "nat \<Rightarrow> dinode \<Rightarrow> img \<Rightarrow> (uint \<times> dinode \<times> img) outcome" where
  "file_sect fbn din im =
     (if fbn < NDIRECT then let (din, im) = fill_addr fbn din im in Ok (d_addrs din ! fbn, din, im)
      else let (din, im) = fill_addr NDIRECT din im; a = d_addrs din ! NDIRECT in
        obind (rsect a im) (\<lambda>ind.
        let x = word_at ind (4 * (fbn - NDIRECT)) in
        if x = 0 then
          let y = freeblock im
          in Ok (y, din, wsect a (patch ind (4 * (fbn - NDIRECT)) (u32_bytes y)) (im\<lparr>freeblock := y + 1\<rparr>))
        else Ok (x, din, im)))"

fun iappend_loop :: "nat \<Rightarrow> byte list \<Rightarrow> uint \<Rightarrow> dinode \<Rightarrow> img \<Rightarrow> (uint \<times> dinode \<times> img) outcome" where
  "iappend_loop 0 p off din im = (if p = [] then Ok (off, din, im) else Diverge)"
| "iappend_loop (Suc fuel) p off din im =
     (if p = [] then Ok (off, din, im)
      else let fbn = unat off div BSIZE in
        if \<not> fbn < MAXFILE then Panic ''assert''
        else obind (file_sect fbn din im) (\<lambda>(x, din, im).
          let n1 = min (length p) ((fbn + 1) * BSIZE - unat off) in
          obind (rsect x im) (\<lambda>buf.
          iappend_loop fuel (drop n1 p) (off + of_nat n1) din (wsect x (patch buf (unat off - fbn * BSIZE) (take n1 p)) im))))"

definition iappend :: "uint \<Rightarrow> byte list \<Rightarrow> img \<Rightarrow> img outcome" where
  "iappend inum p im =
     obind (rinode inum im) (\<lambda>din.
     obind (iappend_loop (length p) p (d_size din) din im) (\<lambda>(off, din, im).
     winode inum (din\<lparr>d_size := off\<rparr>) im))"

section \<open>The image\<close>

definition mk_dirent :: "uint \<Rightarrow> byte list \<Rightarrow> byte list" where
  "mk_dirent inum name = u16_bytes (ucast inum) @ take DIRSIZ name @ replicate (DIRSIZ - length name) 0"

text \<open>The contents of a file in the pieces that are read from it.\<close>

fun append_chunks :: "nat \<Rightarrow> uint \<Rightarrow> byte list \<Rightarrow> img \<Rightarrow> img outcome" where
  "append_chunks 0 inum cs im = Ok im"
| "append_chunks (Suc n) inum cs im =
     (if cs = [] then Ok im else obind (iappend inum (take BSIZE cs) im) (append_chunks n inum (drop BSIZE cs)))"

definition mk_file :: "uint \<Rightarrow> byte list \<times> byte list option \<Rightarrow> img \<Rightarrow> img outcome" where
  "mk_file rootino f im =
     (let (name, contents) = f in
      if 47 \<in> set name then Panic ''assert''
      else case contents of None \<Rightarrow> Panic ''open''
      | Some cs \<Rightarrow>
        let name = (if name \<noteq> [] \<and> hd name = 95 then tl name else name) in
        obind (mk_ialloc T_FILE im) (\<lambda>(inum, im).
        obind (iappend rootino (mk_dirent inum name) im) (append_chunks (length cs) inum cs)))"

definition mk_zero :: img where
  "mk_zero = \<lparr>im_len = mk_size, im_blk = (\<lambda>_. replicate BSIZE 0), freeinode = 1, freeblock = of_nat nmeta\<rparr>"

definition mkfs :: "(byte list \<times> byte list option) list \<Rightarrow> img outcome" where
  "mkfs files =
     (let im = wsect 1 (patch (replicate BSIZE 0) 0 (sb_bytes mk_sb)) mk_zero in
      obind (mk_ialloc T_DIR im) (\<lambda>(rootino, im).
      if rootino \<noteq> ROOTINO then Panic ''assert''
      else obind (iappend rootino (mk_dirent rootino [46]) im) (\<lambda>im.
        obind (iappend rootino (mk_dirent rootino [46, 46]) im) (\<lambda>im.
        obind (ofold (mk_file rootino) files im) (\<lambda>im.
        obind (rinode rootino im) (\<lambda>din.
        obind (winode rootino (din\<lparr>d_size := (d_size din div of_nat BSIZE + 1) * of_nat BSIZE\<rparr>) im) (\<lambda>im.
        mk_balloc (sint (freeblock im)) im)))))))"

section \<open>Well-formed images\<close>

definition blocks_full :: "img \<Rightarrow> bool" where
  "blocks_full im \<longleftrightarrow> (\<forall>b. length (im_blk im b) = BSIZE)"

text \<open>Every block is full, the image keeps its size, and the next free block lies behind the metadata and at most at the end.\<close>

definition img_ok :: "img \<Rightarrow> bool" where
  "img_ok im \<longleftrightarrow> blocks_full im \<and> im_len im = mk_size \<and> nmeta \<le> unat (freeblock im) \<and> unat (freeblock im) \<le> mk_size"

definition din_ok :: "dinode \<Rightarrow> bool" where
  "din_ok d \<longleftrightarrow> length (d_addrs d) = NDIRECT + 1"

lemma rsect_length: "blocks_full im \<Longrightarrow> rsect sec im = Ok buf \<Longrightarrow> length buf = BSIZE \<and> sector sec < im_len im"
  by (auto simp: blocks_full_def rsect_def split: if_splits)

lemma wsect_full: "blocks_full im \<Longrightarrow> length buf = BSIZE \<Longrightarrow> blocks_full (wsect sec buf im)"
  by (simp add: blocks_full_def wsect_def)

lemma wsect_len: "sector sec < im_len im \<Longrightarrow> im_len (wsect sec buf im) = im_len im"
  by (simp add: wsect_def)

lemma wsect_freeblock [simp]: "freeblock (wsect sec buf im) = freeblock im"
  by (simp add: wsect_def)

lemma wsect_ok: "img_ok im \<Longrightarrow> rsect sec im = Ok b0 \<Longrightarrow> length buf = BSIZE \<Longrightarrow> img_ok (wsect sec buf im)"
  using rsect_length [of im sec b0] by (simp add: img_ok_def wsect_full wsect_len)

lemma rinode_ok: "rinode inum im = Ok d \<Longrightarrow> din_ok d"
  by (auto simp: rinode_def din_ok_def bytes_dinode_def elim!: obind_OkE)

lemma winode_ok:
  assumes "img_ok im" and "din_ok d" and "winode inum d im = Ok im'"
  shows "img_ok im'"
proof -
  obtain buf where b: "rsect (inode_sect inum) im = Ok buf" "im' = wsect (inode_sect inum) (patch buf (slot_off inum) (dinode_bytes d)) im"
    using assms(3) by (auto simp: winode_def elim!: obind_OkE)
  have "slot_off inum + 64 \<le> BSIZE" by (simp add: slot_off_def IPB_def BSIZE_def)
  moreover have "length buf = BSIZE" using rsect_length [OF _ b(1)] assms(1) by (simp add: img_ok_def)
  ultimately have "length (patch buf (slot_off inum) (dinode_bytes d)) = BSIZE"
    using assms(2) by (simp add: din_ok_def length_dinode_bytes)
  then show ?thesis using wsect_ok [OF assms(1) b(1)] b(2) by simp
qed

text \<open>Taking a new block is safe once the block has been read.\<close>

lemma sector_small: "unat x \<le> mk_size \<Longrightarrow> sector x = unat x"
  by (simp add: sector_def mk_size_def BSIZE_def unat_word_ariths)

lemma take_block:
  assumes "img_ok im" and "sector (freeblock im) < mk_size"
  shows "img_ok (im\<lparr>freeblock := freeblock im + 1\<rparr>)"
proof -
  have "unat (freeblock im) < mk_size" using assms sector_small [of "freeblock im"] by (simp add: img_ok_def)
  then have "unat (freeblock im + 1) = unat (freeblock im) + 1" by (simp add: mk_size_def unat_word_ariths)
  then show ?thesis using assms(1) \<open>unat (freeblock im) < mk_size\<close> by (simp add: img_ok_def blocks_full_def)
qed

lemma fill_addr_ok:
  assumes "fill_addr i din im = (din', im')" and "img_ok im" and "din_ok din" and "i \<le> NDIRECT"
  shows "din_ok din'" and "im_len im' = mk_size" and "blocks_full im'" and "sector (d_addrs din' ! i) < mk_size \<Longrightarrow> img_ok im'"
  using assms take_block [of im] by (auto simp: fill_addr_def din_ok_def img_ok_def blocks_full_def split: if_splits)

lemma file_sect_ok:
  assumes f: "file_sect fbn din im = Ok (x, din', im')" and r: "sector x < mk_size"
    and ok: "img_ok im" "din_ok din" and m: "fbn < MAXFILE"
  shows "img_ok im' \<and> din_ok din'"
proof (cases "fbn < NDIRECT")
  case True
  obtain d1 i1 where fa: "fill_addr fbn din im = (d1, i1)" by fastforce
  have "x = d_addrs d1 ! fbn" "din' = d1" "im' = i1" using f True fa by (auto simp: file_sect_def)
  then show ?thesis using fill_addr_ok [OF fa ok] True r by simp
next
  case False
  obtain d1 i1 where fa: "fill_addr NDIRECT din im = (d1, i1)" by fastforce
  let ?a = "d_addrs d1 ! NDIRECT" and ?o = "4 * (fbn - NDIRECT)"
  note fo = fill_addr_ok [OF fa ok le_refl]
  obtain ind where ri: "rsect ?a i1 = Ok ind" using f False fa by (auto simp: file_sect_def Let_def elim!: obind_OkE)
  have l: "length ind = BSIZE" and sa: "sector ?a < mk_size" using rsect_length [OF fo(3) ri] fo(2) by simp_all
  have i1: "img_ok i1" by (rule fo(4) [OF sa])
  show ?thesis
  proof (cases "word_at ind ?o = 0")
    case True
    let ?i2 = "i1\<lparr>freeblock := freeblock i1 + 1\<rparr>"
    have e: "x = freeblock i1" "din' = d1" "im' = wsect ?a (patch ind ?o (u32_bytes x)) ?i2"
      using f False fa ri True by (auto simp: file_sect_def Let_def)
    have "img_ok ?i2" using take_block [OF i1] r e(1) by simp
    moreover have "rsect ?a ?i2 = Ok ind" using ri by (simp add: rsect_def split: if_splits)
    moreover have "?o + 4 \<le> BSIZE" using m False by (simp add: MAXFILE_def NINDIRECT_def NDIRECT_def BSIZE_def)
    then have "length (patch ind ?o (u32_bytes x)) = BSIZE" using l by simp
    ultimately show ?thesis unfolding e(2,3) using wsect_ok fo(1) by blast
  next
    case False
    then have "din' = d1" "im' = i1" using f \<open>\<not> fbn < NDIRECT\<close> fa ri by (simp_all add: file_sect_def Let_def)
    then show ?thesis using i1 fo(1) by simp
  qed
qed

lemma file_sect_len:
  assumes f: "file_sect fbn din im = Ok (x, din', im')" and ok: "img_ok im" "din_ok din" and m: "fbn < MAXFILE"
  shows "im_len im' = mk_size"
proof (cases "fbn < NDIRECT")
  case True
  obtain d1 i1 where fa: "fill_addr fbn din im = (d1, i1)" by fastforce
  have "im' = i1" using f True fa by (simp add: file_sect_def)
  then show ?thesis using fill_addr_ok(2) [OF fa ok] True by simp
next
  case False
  obtain d1 i1 where fa: "fill_addr NDIRECT din im = (d1, i1)" by fastforce
  note fo = fill_addr_ok [OF fa ok le_refl]
  obtain ind where ri: "rsect (d_addrs d1 ! NDIRECT) i1 = Ok ind" using f False fa by (auto simp: file_sect_def Let_def elim!: obind_OkE)
  then show ?thesis using f False fa fo(2) rsect_length [OF fo(3) ri]
    by (auto simp: file_sect_def Let_def wsect_def split: if_splits)
qed

lemma iappend_loop_ok:
  "iappend_loop n p off din im = Ok (off', din', im') \<Longrightarrow> img_ok im \<Longrightarrow> din_ok din \<Longrightarrow> img_ok im' \<and> din_ok din'"
proof (induction n arbitrary: p off din im)
  case 0
  then show ?case by (simp split: if_splits)
next
  case (Suc n)
  show ?case
  proof (cases "p = []")
    case True
    then show ?thesis using Suc.prems by simp
  next
    case False
    let ?fbn = "unat off div BSIZE"
    let ?n1 = "min (length p) ((?fbn + 1) * BSIZE - unat off)"
    have m: "?fbn < MAXFILE" using Suc.prems(1) False by (simp add: Let_def split: if_splits)
    obtain x d1 i1 where f: "file_sect ?fbn din im = Ok (x, d1, i1)"
      using Suc.prems(1) False m by (auto simp: Let_def elim!: obind_OkE)
    obtain buf where r: "rsect x i1 = Ok buf" using Suc.prems(1) False m f by (auto simp: Let_def elim!: obind_OkE)
    have "sector x < mk_size" using r file_sect_len [OF f Suc.prems(2,3) m] by (simp add: rsect_def split: if_splits)
    then have ok: "img_ok i1" "din_ok d1" using file_sect_ok [OF f _ Suc.prems(2,3) m] by simp_all
    have "unat off - ?fbn * BSIZE + ?n1 \<le> BSIZE" by (simp add: BSIZE_def)
    moreover have "length buf = BSIZE" using rsect_length [OF _ r] ok(1) by (simp add: img_ok_def)
    ultimately have "length (patch buf (unat off - ?fbn * BSIZE) (take ?n1 p)) = BSIZE" by simp
    then have "img_ok (wsect x (patch buf (unat off - ?fbn * BSIZE) (take ?n1 p)) i1)" by (rule wsect_ok [OF ok(1) r])
    then show ?thesis using Suc.IH [OF _ _ ok(2)] Suc.prems(1) False m f r by (simp add: Let_def)
  qed
qed

lemma iappend_ok:
  assumes "iappend inum p im = Ok im'" and "img_ok im"
  shows "img_ok im'"
proof -
  obtain d off d' i' where "rinode inum im = Ok d" and l: "iappend_loop (length p) p (d_size d) d im = Ok (off, d', i')"
    and w: "winode inum (d'\<lparr>d_size := off\<rparr>) i' = Ok im'"
    using assms(1) by (auto simp: iappend_def elim!: obind_OkE)
  then have "img_ok i' \<and> din_ok d'" using iappend_loop_ok [OF l assms(2)] rinode_ok by blast
  then show ?thesis using winode_ok [OF _ _ w] by (simp add: din_ok_def)
qed

lemma mk_ialloc_ok:
  assumes "mk_ialloc ty im = Ok (inum, im')" and "img_ok im"
  shows "img_ok im'"
proof -
  have "img_ok (im\<lparr>freeinode := freeinode im + 1\<rparr>)" using assms(2) by (simp add: img_ok_def blocks_full_def)
  moreover obtain d where "winode (freeinode im) d (im\<lparr>freeinode := freeinode im + 1\<rparr>) = Ok im'" and "length (d_addrs d) = NDIRECT + 1"
    using assms(1) by (auto simp: mk_ialloc_def Let_def elim!: obind_OkE)
  ultimately show ?thesis using winode_ok unfolding din_ok_def by blast
qed

lemma append_chunks_ok: "append_chunks n inum cs im = Ok im' \<Longrightarrow> img_ok im \<Longrightarrow> img_ok im'"
proof (induction n arbitrary: cs im)
  case (Suc n)
  then show ?case using iappend_ok [of inum "take BSIZE cs" im] by (auto split: if_splits elim!: obind_OkE)
qed simp

lemma mk_file_ok: "mk_file r f im = Ok im' \<Longrightarrow> img_ok im \<Longrightarrow> img_ok im'"
  by (auto simp: mk_file_def Let_def split: prod.splits if_splits option.splits elim!: obind_OkE)
    (metis mk_ialloc_ok iappend_ok append_chunks_ok)+

lemma mk_files_ok: "ofold (mk_file r) fs im = Ok im' \<Longrightarrow> img_ok im \<Longrightarrow> img_ok im'"
proof (induction fs arbitrary: im)
  case (Cons f fs)
  then show ?case using mk_file_ok [of r f im] by (auto elim!: obind_OkE)
qed simp

lemma set_bits_below:
  assumes "n \<le> BSIZE * 8"
  defines "m k \<equiv> fold set_bit_at [0..<k] (replicate BSIZE 0)"
  shows "length (m n) = BSIZE" and "b < BSIZE * 8 \<Longrightarrow> bit_free (m n) b \<longleftrightarrow> n \<le> b"
proof -
  have l: "length (m k) = BSIZE" for k unfolding m_def by (induction k) simp_all
  have z: "replicate BSIZE (0::byte) ! (b div 8) = 0" if "b < BSIZE * 8" for b using that by (intro nth_replicate) simp
  have "bit_free (m k) b \<longleftrightarrow> k \<le> b" if "k \<le> BSIZE * 8" "b < BSIZE * 8" for k b using that
  proof (induction k)
    case 0
    then show ?case by (simp add: m_def bit_free_def z)
  next
    case (Suc k)
    have "m (Suc k) = set_bit_at k (m k)" by (simp add: m_def)
    then have "bit_free (m (Suc k)) b \<longleftrightarrow> bit_free (m k) b \<and> b \<noteq> k" using bit_free_set [of k "m k" b] Suc.prems l by simp
    then show ?case using Suc by auto
  qed
  then show "b < BSIZE * 8 \<Longrightarrow> bit_free (m n) b \<longleftrightarrow> n \<le> b" using assms(1) by blast
  show "length (m n) = BSIZE" by (rule l)
qed

lemma sint_small:
  fixes w :: uint
  assumes "unat w \<le> 1000"
  shows "sint w = int (unat w)" and "sint w < int (BSIZE * 8)"
proof -
  have u: "uint w = int (unat w)" by (rule uint_nat)
  then have "uint w \<le> 1000" using assms by linarith
  moreover have "- (2 ^ 31) \<le> uint w" by (rule order_trans [of _ 0]) simp_all
  ultimately have "signed_take_bit 31 (uint w) = uint w" by (intro signed_take_bit_int_eq_self) simp_all
  moreover have "sint w = signed_take_bit 31 (uint w)" by (simp add: sint_uint)
  ultimately show "sint w = int (unat w)" using u by metis
  then show "sint w < int (BSIZE * 8)" using \<open>uint w \<le> 1000\<close> u unfolding BSIZE_def by linarith
qed

lemma nmeta_eq: "nmeta = 59"
  by (simp add: nmeta_def nlog_def LOGSIZE_def ninodeblocks_def NINODES_def IPB_def nbitmap_def mk_size_def BSIZE_def)

lemma mk_start_ok: "img_ok (wsect 1 (patch (replicate BSIZE 0) 0 (sb_bytes mk_sb)) mk_zero)"
proof (rule wsect_ok)
  show z: "img_ok mk_zero" by (simp add: img_ok_def blocks_full_def mk_zero_def nmeta_eq mk_size_def)
  show "rsect 1 mk_zero = Ok (replicate BSIZE 0)" by (simp add: rsect_def mk_zero_def sector_small mk_size_def)
  have "length (sb_bytes mk_sb) \<le> BSIZE" by (simp add: sb_bytes_def BSIZE_def)
  then show "length (patch (replicate BSIZE (0::byte)) 0 (sb_bytes mk_sb)) = BSIZE" by simp
qed

lemma mkfs_before_bitmap:
  assumes "mkfs files = Ok im"
  obtains im0 where "img_ok im0" and "mk_balloc (sint (freeblock im0)) im0 = Ok im"
proof -
  obtain r i1 i2 i3 i4 d im0 where
    e: "mk_ialloc T_DIR (wsect 1 (patch (replicate BSIZE 0) 0 (sb_bytes mk_sb)) mk_zero) = Ok (r, i1)"
    "iappend r (mk_dirent r [46]) i1 = Ok i2" "iappend r (mk_dirent r [46, 46]) i2 = Ok i3" "ofold (mk_file r) files i3 = Ok i4"
    "rinode r i4 = Ok d" "winode r (d\<lparr>d_size := (d_size d div of_nat BSIZE + 1) * of_nat BSIZE\<rparr>) i4 = Ok im0"
    "mk_balloc (sint (freeblock im0)) im0 = Ok im"
    using assms by (auto simp: mkfs_def Let_def split: if_splits elim!: obind_OkE)
  have "img_ok i4" using mk_ialloc_ok [OF e(1) mk_start_ok] iappend_ok [OF e(2)] iappend_ok [OF e(3)] mk_files_ok [OF e(4)] by blast
  moreover have "din_ok (d\<lparr>d_size := s\<rparr>)" for s using rinode_ok [OF e(5)] by (simp add: din_ok_def)
  ultimately have "img_ok im0" using winode_ok [OF _ _ e(6)] by blast
  then show thesis using e(7) that by blast
qed

section \<open>The empty image\<close>

lemma rinode_winode:
  assumes "img_ok im" and "din_ok d" and "winode inum d im = Ok im'"
  shows "rinode inum im' = Ok d"
proof -
  obtain buf where b: "rsect (inode_sect inum) im = Ok buf" "im' = wsect (inode_sect inum) (patch buf (slot_off inum) (dinode_bytes d)) im"
    using assms(3) by (auto simp: winode_def elim!: obind_OkE)
  have "slot_off inum + 64 \<le> BSIZE" by (simp add: slot_off_def IPB_def BSIZE_def)
  moreover have "length buf = BSIZE" using rsect_length [OF _ b(1)] assms(1) by (simp add: img_ok_def)
  ultimately have "chunk (patch buf (slot_off inum) (dinode_bytes d)) (slot_off inum) 64 = dinode_bytes d"
    using assms(2) by (simp add: din_ok_def length_dinode_bytes)
  moreover have "rsect (inode_sect inum) im' = Ok (patch buf (slot_off inum) (dinode_bytes d))" by (simp add: b(2) rsect_def wsect_def)
  ultimately show ?thesis using assms(2) by (simp add: rinode_def bytes_dinode_bytes din_ok_def)
qed

lemma rinode_other: "sector x \<noteq> sector (inode_sect inum) \<Longrightarrow> sector x < im_len im \<Longrightarrow> rinode inum (wsect x buf im) = rinode inum im"
  by (simp add: rinode_def rsect_def wsect_def)

lemma root_sect: "sector (inode_sect 1) = 32"
  by (simp add: sector_def inode_sect_def mk_sb_def nlog_def LOGSIZE_def IPB_def BSIZE_def)

lemma winode_root: "img_ok im \<Longrightarrow> \<exists>im'. winode 1 d im = Ok im'"
  by (simp add: winode_def rsect_def root_sect img_ok_def mk_size_def)

lemma root_append:
  assumes ok: "img_ok im" and d: "rinode 1 im = Ok d" and p: "p \<noteq> []" "unat (d_size d) + length p \<le> BSIZE"
    and a: "d_addrs d ! 0 = 0 \<and> freeblock im = 59 \<or> d_addrs d ! 0 = 59"
  obtains im' d' where "iappend 1 p im = Ok im'" and "rinode 1 im' = Ok d'" and "d_size d' = d_size d + of_nat (length p)"
    and "d_addrs d' ! 0 = 59" and "img_ok im'"
proof -
  have dk: "din_ok d" by (rule rinode_ok [OF d])
  obtain d1 i1 where fa: "fill_addr 0 d im = (d1, i1)" by fastforce
  have x: "d_addrs d1 ! 0 = 59" and sz: "d_size d1 = d_size d" using fa a dk by (auto simp: fill_addr_def din_ok_def split: if_splits)
  have s59: "sector 59 = 59" by (simp add: sector_small mk_size_def)
  note fo = fill_addr_ok [OF fa ok dk le0]
  have i1: "img_ok i1" using fo(4) x s59 by (simp add: mk_size_def)
  have r: "rsect 59 i1 = Ok (im_blk i1 59)" using fo(2) by (simp add: rsect_def s59 mk_size_def)
  have q: "unat (d_size d) div BSIZE = 0" using p by (cases p) simp_all
  let ?b = "patch (im_blk i1 59) (unat (d_size d)) p" let ?i2 = "wsect 59 ?b i1"
  have f: "file_sect 0 d im = Ok (59, d1, i1)" by (simp add: file_sect_def fa x NDIRECT_def)
  have l: "iappend_loop (length p) p (d_size d) d im = Ok (d_size d + of_nat (length p), d1, ?i2)"
  proof (cases "length p")
    case (Suc k)
    have "min (length p) (BSIZE - unat (d_size d)) = length p" using p(2) by simp
    then show ?thesis using p(1) by (cases k) (simp_all add: Suc q f r Let_def MAXFILE_def)
  qed (use p in simp)
  have "length (im_blk i1 59) = BSIZE" using fo(3) by (simp add: blocks_full_def)
  then have i2: "img_ok ?i2" using wsect_ok [OF i1 r] p(2) by simp
  let ?d = "d1\<lparr>d_size := d_size d + of_nat (length p)\<rparr>"
  obtain im' where w: "winode 1 ?d ?i2 = Ok im'" using winode_root [OF i2] by blast
  have d1: "din_ok ?d" using fo(1) by (simp add: din_ok_def)
  show thesis
  proof (rule that)
    show "iappend 1 p im = Ok im'" using w by (simp add: iappend_def d l)
    show "rinode 1 im' = Ok ?d" by (rule rinode_winode [OF i2 d1 w])
    show "img_ok im'" by (rule winode_ok [OF i2 d1 w])
  qed (simp_all add: x)
qed

lemma mkfs_empty: "\<exists>im. mkfs [] = Ok im"
proof -
  let ?i0 = "wsect 1 (patch (replicate BSIZE 0) 0 (sb_bytes mk_sb)) mk_zero"
  let ?d = "\<lparr>d_type = T_DIR, d_major = 0, d_minor = 0, d_nlink = 1, d_size = 0, d_addrs = replicate (NDIRECT + 1) 0\<rparr>"
  have f0: "freeinode ?i0 = 1" "freeblock ?i0 = 59" by (simp_all add: wsect_def mk_zero_def nmeta_eq)
  have o0: "img_ok (?i0\<lparr>freeinode := 2\<rparr>)" using mk_start_ok by (simp add: img_ok_def blocks_full_def)
  obtain i1 where w1: "winode 1 ?d (?i0\<lparr>freeinode := 2\<rparr>) = Ok i1" using winode_root [OF o0] by blast
  have dk: "din_ok ?d" by (simp add: din_ok_def)
  have fb: "freeblock i1 = 59" using w1 f0 by (auto simp: winode_def elim!: obind_OkE)
  have i1: "img_ok i1" "rinode 1 i1 = Ok ?d" using winode_ok [OF o0 dk w1] rinode_winode [OF o0 dk w1] by auto
  have le: "length (mk_dirent 1 [46]) = 16" "length (mk_dirent 1 [46, 46]) = 16" by (simp_all add: mk_dirent_def DIRSIZ_def)
  then have ne: "mk_dirent 1 [46] \<noteq> []" "mk_dirent 1 [46, 46] \<noteq> []" by auto
  obtain i2 d2 where a2: "iappend 1 (mk_dirent 1 [46]) i1 = Ok i2" "rinode 1 i2 = Ok d2" "d_size d2 = 16" "d_addrs d2 ! 0 = 59" "img_ok i2"
    by (rule root_append [OF i1 ne(1)]) (simp_all add: le fb BSIZE_def)
  obtain i3 d3 where a3: "iappend 1 (mk_dirent 1 [46, 46]) i2 = Ok i3" "rinode 1 i3 = Ok d3" "img_ok i3"
    by (rule root_append [OF a2(5) a2(2) ne(2)]) (simp_all add: le a2 BSIZE_def)
  obtain i4 where w4: "winode 1 (d3\<lparr>d_size := (d_size d3 div of_nat BSIZE + 1) * of_nat BSIZE\<rparr>) i3 = Ok i4"
    using winode_root [OF a3(3)] by blast
  have "img_ok i4" using winode_ok [OF a3(3) _ w4] rinode_ok [OF a3(2)] by (simp add: din_ok_def)
  then have "sint (freeblock i4) < int (BSIZE * 8)" by (intro sint_small(2)) (simp add: img_ok_def mk_size_def)
  then show ?thesis using w4 a2(1) a3(1,2) w1 f0
    by (simp add: mkfs_def mk_ialloc_def Let_def ROOTINO_def mk_balloc_def del: of_nat_mult replicate_Suc)
qed



end
