(* ===== verification/Umalloc.thy ===== *)
theory Umalloc
  imports Xv6_Prelude
begin

text \<open>
  The allocator of the user library (\<^verbatim>\<open>umalloc.c\<close>). A header is 8 bytes: the address of the next free block and a size counted in
  headers. The heap gives the two fields of the header at an address; what a program keeps in its blocks is not looked at. The system
  call sbrk is a parameter over the state of its caller.
\<close>

section \<open>Operations\<close>

record heap =
  h_ptr :: "uint \<Rightarrow> uint"
  h_size :: "uint \<Rightarrow> uint"
  h_base :: uint
  freep :: uint

text \<open>The fuel of the loops over the list: more than twice the number of addresses.\<close>

definition heap_fuel :: nat where "heap_fuel = 2 ^ 34"

definition at_header :: "uint \<Rightarrow> uint \<Rightarrow> uint" where
  "at_header p n = p + 8 * n"

definition set_ptr :: "uint \<Rightarrow> uint \<Rightarrow> heap \<Rightarrow> heap" where
  "set_ptr p v h = h\<lparr>h_ptr := (h_ptr h)(p := v)\<rparr>"

definition set_size :: "uint \<Rightarrow> uint \<Rightarrow> heap \<Rightarrow> heap" where
  "set_size p v h = h\<lparr>h_size := (h_size h)(p := v)\<rparr>"

text \<open>The place of a block in the circular list, which is ordered by address.\<close>

fun free_scan :: "nat \<Rightarrow> uint \<Rightarrow> uint \<Rightarrow> heap \<Rightarrow> uint outcome" where
  "free_scan 0 bp p h = Diverge"
| "free_scan (Suc n) bp p h =
     (if bp > p \<and> bp < h_ptr h p then Ok p
      else if p \<ge> h_ptr h p \<and> (bp > p \<or> bp < h_ptr h p) then Ok p
      else free_scan n bp (h_ptr h p) h)"

definition free :: "uint \<Rightarrow> heap \<Rightarrow> heap outcome" where
  "free ap h =
     (let bp = ap - 8 in
      obind (free_scan heap_fuel bp (freep h) h) (\<lambda>p.
      let q = h_ptr h p;
          h = (if at_header bp (h_size h bp) = q
               then set_ptr bp (h_ptr h q) (set_size bp (h_size h bp + h_size h q) h) else set_ptr bp q h);
          h = (if at_header p (h_size h p) = bp
               then set_ptr p (h_ptr h bp) (set_size p (h_size h p + h_size h bp) h) else set_ptr p bp h)
      in Ok (h\<lparr>freep := p\<rparr>)))"

definition morecore :: "(uint \<Rightarrow> 'w \<Rightarrow> uint \<times> 'w) \<Rightarrow> uint \<Rightarrow> heap \<Rightarrow> 'w \<Rightarrow> (uint \<times> heap \<times> 'w) outcome" where
  "morecore sbrk nu h w =
     (let nu = (if nu < 4096 then 4096 else nu);
          (p, w) = sbrk (nu * 8) w
      in if p = - 1 then Ok (0, h, w)
         else obind (free (p + 8) (set_size p nu h)) (\<lambda>h. Ok (freep h, h, w)))"

fun malloc_loop :: "nat \<Rightarrow> (uint \<Rightarrow> 'w \<Rightarrow> uint \<times> 'w) \<Rightarrow> uint \<Rightarrow> uint \<Rightarrow> uint \<Rightarrow> heap \<Rightarrow> 'w \<Rightarrow> (uint \<times> heap \<times> 'w) outcome" where
  "malloc_loop 0 sbrk nunits prevp p h w = Diverge"
| "malloc_loop (Suc fuel) sbrk nunits prevp p h w =
     (if h_size h p \<ge> nunits then
        if h_size h p = nunits then Ok (p + 8, (set_ptr prevp (h_ptr h p) h)\<lparr>freep := prevp\<rparr>, w)
        else let s = h_size h p - nunits; p' = at_header p s
          in Ok (p' + 8, (set_size p' nunits (set_size p s h))\<lparr>freep := prevp\<rparr>, w)
      else if p = freep h then
        obind (morecore sbrk nunits h w) (\<lambda>(p, h, w).
        if p = 0 then Ok (0, h, w) else malloc_loop fuel sbrk nunits p (h_ptr h p) h w)
      else malloc_loop fuel sbrk nunits p (h_ptr h p) h w)"

definition units :: "uint \<Rightarrow> uint" where
  "units nbytes = (nbytes + 8 - 1) div 8 + 1"

definition malloc :: "(uint \<Rightarrow> 'w \<Rightarrow> uint \<times> 'w) \<Rightarrow> uint \<Rightarrow> heap \<Rightarrow> 'w \<Rightarrow> (uint \<times> heap \<times> 'w) outcome" where
  "malloc sbrk nbytes h w =
     (let h = (if freep h = 0 then (set_size (h_base h) 0 (set_ptr (h_base h) (h_base h) h))\<lparr>freep := h_base h\<rparr> else h)
      in malloc_loop heap_fuel sbrk (units nbytes) (freep h) (h_ptr h (freep h)) h w)"

section \<open>The circular list\<close>

fun chain :: "(uint \<Rightarrow> uint) \<Rightarrow> uint list \<Rightarrow> uint \<Rightarrow> bool" where
  "chain f [] z \<longleftrightarrow> True"
| "chain f [x] z \<longleftrightarrow> f x = z"
| "chain f (x # y # ys) z \<longleftrightarrow> f x = y \<and> chain f (y # ys) z"

lemma chain_append: "as \<noteq> [] \<Longrightarrow> bs \<noteq> [] \<Longrightarrow> chain f (as @ bs) z \<longleftrightarrow> chain f as (hd bs) \<and> chain f bs z"
proof (induction as)
  case (Cons a as)
  then show ?case by (cases as; cases bs) auto
qed simp

lemma chain_other: "y \<notin> set xs \<Longrightarrow> chain (f(y := v)) xs z = chain f xs z"
proof (induction xs)
  case (Cons a as)
  then show ?case by (cases as) auto
qed simp

lemma chain_Cons: "chain f (x # xs) z \<longleftrightarrow> f x = hd (xs @ [z]) \<and> chain f xs z"
  by (cases xs) auto

lemma chain_rotate: "bs \<noteq> [] \<Longrightarrow> as \<noteq> [] \<Longrightarrow> chain f (as @ bs) (hd as) \<Longrightarrow> chain f (bs @ as) (hd bs)"
  by (simp add: chain_append)

text \<open>A ring seen from the predecessor of one of its blocks.\<close>

lemma rotate_at:
  assumes "2 \<le> length xs" and "tl xs @ [hd xs] = us @ x # vs"
  obtains R as bs where "xs = as @ bs" and "bs @ as = last (hd xs # us) # x # R"
proof -
  obtain a ys where xs: "xs = a # ys" "ys \<noteq> []" using assms(1) by (cases xs; cases "tl xs") auto
  show thesis
  proof (cases vs rule: rev_cases)
    case Nil
    then have us: "us = ys" "x = a" using assms(2) xs by auto
    have "xs = (a # butlast ys) @ [last ys]" using xs by simp
    then show thesis using that [of "a # butlast ys" "[last ys]" "butlast ys"] us xs by simp
  next
    case (snoc vs' b)
    then have e: "ys = us @ x # vs'" using assms(2) xs by simp
    let ?P = "butlast (a # us)" and ?p = "last (a # us)"
    have "xs = ?P @ ?p # x # vs'" using e xs append_butlast_last_id [of "a # us"] by (metis append.assoc append_Cons append_Nil list.distinct(1))
    then show thesis using that [of ?P "?p # x # vs'" "vs' @ ?P"] xs(1) by simp
  qed
qed

lemma chain_prefix:
  assumes "chain f xs (hd xs)" and "xs \<noteq> []" and "tl xs @ [hd xs] = us @ x # vs"
  shows "chain f (hd xs # us) x"
proof -
  obtain a ys where xs: "xs = a # ys" using assms(2) by (cases xs) auto
  show ?thesis
  proof (cases vs rule: rev_cases)
    case Nil
    then show ?thesis using assms(1,3) xs by auto
  next
    case (snoc vs' b)
    then have "xs = (a # us) @ x # vs'" using assms(3) xs by simp
    then have "chain f (a # us) (hd (x # vs'))" using assms(1) chain_append [of "a # us" "x # vs'" f] by blast
    then show ?thesis using xs by simp
  qed
qed

section \<open>Blocks in memory\<close>

definition blk_end :: "(uint \<Rightarrow> uint) \<Rightarrow> uint \<Rightarrow> nat" where
  "blk_end sz x = unat x + 8 * unat (sz x)"

definition before :: "(uint \<Rightarrow> uint) \<Rightarrow> uint \<Rightarrow> uint \<Rightarrow> bool" where
  "before sz x y \<longleftrightarrow> unat x < unat y \<and> blk_end sz x \<le> unat y"

text \<open>The blocks \<open>S\<close> lie below the address \<open>b\<close> and do not overlap.\<close>

definition separate :: "(uint \<Rightarrow> uint) \<Rightarrow> uint set \<Rightarrow> nat \<Rightarrow> bool" where
  "separate sz S b \<longleftrightarrow> b < 2 ^ 32 \<and> (\<forall>x\<in>S. unat x < b \<and> blk_end sz x \<le> b) \<and> (\<forall>x\<in>S. \<forall>y\<in>S. x \<noteq> y \<longrightarrow> before sz x y \<or> before sz y x)"

lemma separateD:
  assumes "separate sz S b"
  shows "b < 2 ^ 32" and "x \<in> S \<Longrightarrow> unat x < b" and "x \<in> S \<Longrightarrow> blk_end sz x \<le> b"
    and "x \<in> S \<Longrightarrow> y \<in> S \<Longrightarrow> x \<noteq> y \<Longrightarrow> before sz x y \<or> before sz y x"
  using assms unfolding separate_def by blast+

lemma at_header_unat:
  assumes "separate sz S b" and "x \<in> S" and "unat n \<le> unat (sz x)"
  shows "unat (at_header x n) = unat x + 8 * unat n"
proof -
  have e: "unat x + 8 * unat n < 2 ^ 32" using separateD(1) [OF assms(1)] separateD(3) [OF assms(1,2)] assms(3) by (simp add: blk_end_def)
  then have "unat (8 * n) = 8 * unat n" by (simp add: unat_word_ariths)
  then show ?thesis using e by (simp add: at_header_def unat_word_ariths)
qed

lemma separate_split:
  assumes ap: "separate sz S b" and x: "x \<in> S" and sz: "nu < sz x" "0 < unat nu"
  defines "p \<equiv> at_header x (sz x - nu)"
  defines "sz' \<equiv> sz(x := sz x - nu, p := nu)"
  shows "p \<notin> S" and "separate sz' (insert p S) b"
proof -
  have s: "unat (sz x - nu) + unat nu = unat (sz x)" "0 < unat (sz x - nu)"
    using sz(1) by (auto simp: unat_sub word_less_nat_alt word_le_nat_alt)
  have p: "unat p = unat x + 8 * unat (sz x - nu)" unfolding p_def using s by (intro at_header_unat [OF ap x]) simp
  have inside: "unat x < unat p" "unat p < blk_end sz x" using p s sz(2) by (auto simp: blk_end_def)
  show out: "p \<notin> S"
  proof
    assume "p \<in> S"
    moreover have "p \<noteq> x" using inside(1) by auto
    ultimately have "before sz x p \<or> before sz p x" using separateD(4) [OF ap x] by metis
    then show False using inside by (auto simp: before_def)
  qed
  then have px: "p \<noteq> x" using x by auto
  have bx: "blk_end sz' x = unat p" using px p by (simp add: blk_end_def sz'_def)
  have bp: "blk_end sz' p = blk_end sz x" using s p by (simp add: blk_end_def sz'_def)
  have bo: "blk_end sz' y = blk_end sz y" if "y \<in> S" "y \<noteq> x" for y using that out by (auto simp: blk_end_def sz'_def)
  have le: "blk_end sz' y \<le> blk_end sz y" if "y \<in> S" for y using that bx bo inside by (cases "y = x") auto
  have bf: "before sz' y z" if "y \<in> S" "before sz y z" for y z using le [OF that(1)] that(2) by (auto simp: before_def)
  have pn: "before sz' p y \<or> before sz' y p" if "y \<in> S" for y
  proof (cases "y = x")
    case True
    then show ?thesis using bx inside by (simp add: before_def)
  next
    case False
    then have "before sz x y \<or> before sz y x" using separateD(4) [OF ap x that] by metis
    then show ?thesis using bp bo [OF that False] inside by (auto simp: before_def)
  qed
  have "unat p < b \<and> blk_end sz' p \<le> b" using inside(2) bp separateD(3) [OF ap x] by simp
  moreover have "unat y < b \<and> blk_end sz' y \<le> b" if "y \<in> S" for y using le [OF that] separateD(2,3) [OF ap that] by simp
  moreover have "before sz' y z \<or> before sz' z y" if "y \<in> S" "z \<in> S" "y \<noteq> z" for y z
    using bf separateD(4) [OF ap that] that by blast
  ultimately show "separate sz' (insert p S) b" using separateD(1) [OF ap] pn unfolding separate_def by blast
qed

lemma separate_merge:
  assumes ap: "separate sz S b" and ac: "a \<in> S" "c \<in> S" "a \<noteq> c" and adj: "at_header a (sz a) = c"
  shows "separate (sz(a := sz a + sz c)) (S - {c}) b"
proof -
  let ?z = "sz(a := sz a + sz c)"
  have c: "unat c = unat a + 8 * unat (sz a)" using at_header_unat [OF ap ac(1) le_refl] adj by simp
  have "unat a + 8 * (unat (sz a) + unat (sz c)) < 2 ^ 32"
    using separateD(3) [OF ap ac(2)] separateD(1) [OF ap] c by (simp add: blk_end_def algebra_simps)
  then have "unat (sz a + sz c) = unat (sz a) + unat (sz c)" by (simp add: unat_word_ariths)
  then have ba: "blk_end ?z a = blk_end sz c" using c by (simp add: blk_end_def algebra_simps)
  have bo: "blk_end ?z y = blk_end sz y" if "y \<noteq> a" for y using that by (simp add: blk_end_def)
  have pa: "before ?z a y \<or> before ?z y a" if "y \<in> S" "y \<noteq> a" "y \<noteq> c" for y
  proof -
    have "before sz a y \<or> before sz y a" "before sz c y \<or> before sz y c" using separateD(4) [OF ap] ac that by metis+
    moreover have "unat a \<le> unat c" using c by simp
    ultimately show ?thesis using ba bo [OF that(2)] c by (auto simp: before_def blk_end_def)
  qed
  have po: "before ?z y z = before sz y z" if "y \<noteq> a" for y z using bo [OF that] by (simp add: before_def)
  have "unat y < b \<and> blk_end ?z y \<le> b" if "y \<in> S" for y
    using separateD(2,3) [OF ap that] separateD(3) [OF ap ac(2)] ba bo by (cases "y = a") auto
  moreover have "before ?z y z \<or> before ?z z y" if "y \<in> S - {c}" "z \<in> S - {c}" "y \<noteq> z" for y z
    using pa [of y] pa [of z] po [of y z] po [of z y] separateD(4) [OF ap, of y z] that by (cases "y = a"; cases "z = a") blast+
  ultimately show ?thesis using separateD(1) [OF ap] unfolding separate_def by blast
qed

lemma separate_new:
  assumes ap: "separate sz S b" and nu: "0 < unat nu" "b + 8 * unat nu < 2 ^ 32"
  shows "of_nat b \<notin> S" and "separate (sz(of_nat b := nu)) (insert (of_nat b) S) (b + 8 * unat nu)"
proof -
  let ?p = "of_nat b :: uint" let ?z = "sz(?p := nu)"
  have p: "unat ?p = b" using separateD(1) [OF ap] by (simp add: unat_of_nat)
  show out: "?p \<notin> S" using separateD(2) [OF ap] p by fastforce
  have bo: "blk_end ?z y = blk_end sz y" if "y \<in> S" for y using that out by (auto simp: blk_end_def)
  have bp: "blk_end ?z ?p = b + 8 * unat nu" using p by (simp add: blk_end_def)
  have pn: "before ?z y ?p" if "y \<in> S" for y using bo [OF that] separateD(2,3) [OF ap that] p by (simp add: before_def)
  have "before ?z y z \<or> before ?z z y" if "y \<in> S" "z \<in> S" "y \<noteq> z" for y z
    using separateD(4) [OF ap that] bo that by (simp add: before_def)
  moreover have "unat y < b + 8 * unat nu \<and> blk_end ?z y \<le> b + 8 * unat nu" if "y \<in> insert ?p S" for y
    using that separateD(2,3) [OF ap] bo bp p nu(1) by fastforce
  ultimately show "separate ?z (insert ?p S) (b + 8 * unat nu)" using nu(2) pn unfolding separate_def by blast
qed

section \<open>Scanning\<close>

lemma units_ok:
  assumes "unat nbytes \<le> 2 ^ 32 - 8"
  shows "unat nbytes \<le> 8 * (unat (units nbytes) - 1)" and "0 < unat (units nbytes)"
proof -
  have e: "nbytes + 8 - 1 = nbytes + 7" by simp
  have "unat (nbytes + 7) = unat nbytes + 7" using assms by (simp add: unat_word_ariths)
  then have d: "unat ((nbytes + 7) div 8) = (unat nbytes + 7) div 8" by (simp add: unat_div)
  then have "unat (units nbytes) = (unat nbytes + 7) div 8 + 1" using assms unfolding units_def e by (simp add: unat_word_ariths)
  then show "unat nbytes \<le> 8 * (unat (units nbytes) - 1)" and "0 < unat (units nbytes)" by simp_all
qed

lemma malloc_scan:
  assumes "chain (h_ptr h) (q # us) x" and "\<forall>u\<in>set us. h_size h u < nu \<and> u \<noteq> freep h"
  shows "malloc_loop (length us + n) sbrk nu q (h_ptr h q) h w = malloc_loop n sbrk nu (last (q # us)) x h w"
  using assms
proof (induction us arbitrary: q)
  case (Cons u us)
  have "h_ptr h q = u" "chain (h_ptr h) (u # us) x" using Cons.prems(1) by simp_all
  moreover have "\<not> nu \<le> h_size h u" "u \<noteq> freep h" using Cons.prems(2) by auto
  ultimately show ?case using Cons.IH [of u] Cons.prems(2) by simp
qed simp

section \<open>The order of the list\<close>

text \<open>In the set \<open>X\<close>, \<open>y\<close> comes next after \<open>x\<close>, or \<open>x\<close> is the greatest element and \<open>y\<close> the least.\<close>

definition next_ok :: "'a::linorder set \<Rightarrow> 'a \<Rightarrow> 'a \<Rightarrow> bool" where
  "next_ok X x y \<longleftrightarrow> x < y \<and> (\<forall>z\<in>X. z \<le> x \<or> y \<le> z) \<or> (\<forall>z\<in>X. y \<le> z \<and> z \<le> x)"

text \<open>The condition that ends the search for the place of \<open>n\<close>.\<close>

definition fits_at :: "'a::linorder \<Rightarrow> 'a \<Rightarrow> 'a \<Rightarrow> bool" where
  "fits_at n p q \<longleftrightarrow> p < n \<and> n < q \<or> q \<le> p \<and> (p < n \<or> n < q)"

lemma next_mono: "next_ok X x y \<Longrightarrow> Y \<subseteq> X \<Longrightarrow> next_ok Y x y"
  unfolding next_ok_def by blast

lemma next_remove:
  assumes "next_ok X q x" and "next_ok X x y" and "q \<in> X" and "x \<in> X" and "q \<noteq> x"
  shows "next_ok (X - {x}) q y"
proof (cases "q < x")
  case True
  then have a: "\<forall>z\<in>X. z \<le> q \<or> x \<le> z" using assms(1,3) unfolding next_ok_def by force
  show ?thesis
  proof (cases "x < y \<and> (\<forall>z\<in>X. z \<le> x \<or> y \<le> z)")
    case True
    then have "z \<le> q \<or> y \<le> z" if "z \<in> X - {x}" for z using a that by force
    then show ?thesis using True \<open>q < x\<close> unfolding next_ok_def by force
  next
    case False
    then have "\<forall>z\<in>X. y \<le> z \<and> z \<le> x" using assms(2) unfolding next_ok_def by blast
    then have "y \<le> z \<and> z \<le> q" if "z \<in> X - {x}" for z using a that by force
    then show ?thesis unfolding next_ok_def by blast
  qed
next
  case False
  then have a: "\<forall>z\<in>X. x \<le> z \<and> z \<le> q" using assms(1) unfolding next_ok_def by blast
  then have "x < q" using assms(3,5) by force
  then have "\<forall>z\<in>X. z \<le> x \<or> y \<le> z" using assms(2,3) unfolding next_ok_def by force
  then have "y \<le> z \<and> z \<le> q" if "z \<in> X - {x}" for z using a that by force
  then show ?thesis unfolding next_ok_def by blast
qed

lemma next_insert:
  assumes "next_ok X p q" and "p \<in> X" and "q \<in> X" and "n \<notin> X" and "fits_at n p q"
  shows "next_ok (insert n X) p n" and "next_ok (insert n X) n q"
    and "z \<in> X \<Longrightarrow> z \<noteq> p \<Longrightarrow> w \<in> X \<Longrightarrow> next_ok X z w \<Longrightarrow> next_ok (insert n X) z w"
proof -
  consider (mid) "p < n" "n < q" "\<forall>z\<in>X. z \<le> p \<or> q \<le> z" | (top) "p < n" "\<forall>z\<in>X. q \<le> z \<and> z \<le> p"
    | (bot) "n < q" "\<forall>z\<in>X. q \<le> z \<and> z \<le> p"
    using assms(1,2,3,5) unfolding next_ok_def fits_at_def by force
  note c = this
  show "next_ok (insert n X) p n" using c
  proof cases
    case mid
    then have "\<forall>z\<in>insert n X. z \<le> p \<or> n \<le> z" by force
    then show ?thesis using mid(1) unfolding next_ok_def by blast
  next
    case top
    then show ?thesis unfolding next_ok_def by force
  next
    case bot
    then have "\<forall>z\<in>insert n X. n \<le> z \<and> z \<le> p" using assms(2) by force
    then show ?thesis unfolding next_ok_def by blast
  qed
  show "next_ok (insert n X) n q" using c
  proof cases
    case mid
    then have "\<forall>z\<in>insert n X. z \<le> n \<or> q \<le> z" by force
    then show ?thesis using mid(2) unfolding next_ok_def by blast
  next
    case top
    then have "\<forall>z\<in>insert n X. q \<le> z \<and> z \<le> n" using assms(2) by force
    then show ?thesis unfolding next_ok_def by blast
  next
    case bot
    then show ?thesis unfolding next_ok_def by force
  qed
  show "next_ok (insert n X) z w" if z: "z \<in> X" "z \<noteq> p" "w \<in> X" "next_ok X z w"
  proof (cases "z < w \<and> (\<forall>u\<in>X. u \<le> z \<or> w \<le> u)")
    case True
    then have "p \<le> z \<or> w \<le> p" using assms(2) by blast
    then have pz: "z < p \<Longrightarrow> w \<le> p" by auto
    have "n \<le> z \<or> w \<le> n"
    proof (rule c)
      assume a: "p < n" "n < q" "\<forall>z\<in>X. z \<le> p \<or> q \<le> z"
      then have "z < p \<or> q \<le> z" using z(1,2) by fastforce
      then show ?thesis using pz a(1,2) by auto
    next
      assume "p < n" "\<forall>z\<in>X. q \<le> z \<and> z \<le> p"
      then show ?thesis using z(3) by fastforce
    next
      assume "n < q" "\<forall>z\<in>X. q \<le> z \<and> z \<le> p"
      then show ?thesis using z(1) by fastforce
    qed
    then show ?thesis using True unfolding next_ok_def by blast
  next
    case False
    then have "\<forall>u\<in>X. w \<le> u \<and> u \<le> z" using z(4) unfolding next_ok_def by blast
    moreover from this have b: "w \<le> p" "p \<le> z" "q \<le> z" using assms(2,3) by blast+
    have "w \<le> n \<and> n \<le> z"
    proof (rule c)
      assume "p < n" "n < q"
      then show ?thesis using b by auto
    next
      assume "\<forall>z\<in>X. q \<le> z \<and> z \<le> p"
      then have "z \<le> p" using z(1) by blast
      then show ?thesis using b(2) z(2) by auto
    next
      assume "\<forall>z\<in>X. q \<le> z \<and> z \<le> p"
      then have "z \<le> p" using z(1) by blast
      then show ?thesis using b(2) z(2) by auto
    qed
    ultimately show ?thesis unfolding next_ok_def by blast
  qed
qed

definition ring :: "(uint \<Rightarrow> uint) \<Rightarrow> uint list \<Rightarrow> bool" where
  "ring f xs \<longleftrightarrow> xs \<noteq> [] \<and> distinct xs \<and> chain f xs (hd xs) \<and> (\<forall>x\<in>set xs. next_ok (set xs) x (f x))"

lemma chain_next: "chain f xs z \<Longrightarrow> x \<in> set xs \<Longrightarrow> f x \<in> insert z (set xs)"
proof (induction xs)
  case (Cons a xs)
  then show ?case by (cases xs) auto
qed simp

lemma ring_next: "ring f xs \<Longrightarrow> x \<in> set xs \<Longrightarrow> f x \<in> set xs"
  using chain_next [of f xs "hd xs" x] by (auto simp: ring_def)

lemma ring_rotate:
  assumes "ring f (as @ bs)"
  shows "ring f (bs @ as)"
proof (cases "as = [] \<or> bs = []")
  case False
  have "set (bs @ as) = set (as @ bs)" "distinct (bs @ as)" using assms by (auto simp: ring_def)
  moreover have "chain f (bs @ as) (hd (bs @ as))" using chain_rotate [of bs as f] assms False by (simp add: ring_def)
  ultimately show ?thesis using assms False unfolding ring_def by auto
qed (use assms in auto)

lemma ring_remove:
  assumes "ring f (q # x # R)"
  shows "ring (f(q := f x)) (q # R)"
proof -
  have d: "q \<noteq> x" "q \<notin> set R" "x \<notin> set R" "distinct R" and c: "f q = x" "f x = hd (R @ [q])" "chain f R q"
    and n: "\<And>z. z \<in> set (q # x # R) \<Longrightarrow> next_ok (set (q # x # R)) z (f z)"
    using assms by (auto simp: ring_def chain_Cons)
  have e: "set (q # R) = set (q # x # R) - {x}" using d by auto
  have "next_ok (set (q # R)) z ((f(q := f x)) z)" if "z \<in> set (q # R)" for z
  proof (cases "z = q")
    case True
    then show ?thesis unfolding e using next_remove [OF _ _ _ _ d(1)] n [of q] n [of x] c(1) by simp
  next
    case False
    then show ?thesis using next_mono [OF n [of z], of "set (q # R)"] that by auto
  qed
  then show ?thesis using d c by (simp add: ring_def chain_Cons chain_other)
qed

lemma ring_put:
  assumes r: "ring f (p # R)" and n: "n \<notin> set (p # R)" and pl: "fits_at n p (f p)"
  shows "ring (f(n := f p, p := n)) (p # n # R)"
proof -
  have d: "p \<notin> set R" "distinct R" "n \<noteq> p" "n \<notin> set R" and c: "f p = hd (R @ [p])" "chain f R p"
    and k: "\<And>z. z \<in> set (p # R) \<Longrightarrow> next_ok (set (p # R)) z (f z)"
    using r n by (auto simp: ring_def chain_Cons)
  have e: "set (p # n # R) = insert n (set (p # R))" by auto
  note i = next_insert [OF k [of p] _ ring_next [OF r] n pl]
  have "next_ok (insert n (set (p # R))) z ((f(n := f p, p := n)) z)" if "z \<in> insert n (set (p # R))" for z
  proof -
    consider "z = p" | "z = n" | "z \<noteq> p" "z \<noteq> n" "z \<in> set (p # R)" using \<open>z \<in> insert n (set (p # R))\<close> by blast
    then show ?thesis
    proof cases
      case 3
      then show ?thesis using i(3) [of z "f z"] k [of z] ring_next [OF r, of z] by simp
    qed (use i(1,2) d(3) in simp_all)
  qed
  then show ?thesis using d c unfolding ring_def e by (simp add: chain_Cons chain_other)
qed

text \<open>Every address has its place in the ring, and the search finds it in one round.\<close>

lemma fits_at_ex:
  fixes X :: "'a::linorder set"
  assumes "finite X" and "X \<noteq> {}" and "n \<notin> X" and nx: "\<And>x. x \<in> X \<Longrightarrow> next_ok X x (f x) \<and> f x \<in> X"
  shows "\<exists>p\<in>X. fits_at n p (f p)"
proof (cases "\<exists>x\<in>X. x < n")
  case True
  let ?L = "{x\<in>X. x < n}"
  have L: "finite ?L" "?L \<noteq> {}" using assms(1) True by auto
  let ?p = "Max ?L"
  have p: "?p \<in> X" "?p < n" using Max_in [OF L] by auto
  have "f ?p \<noteq> n" using nx [OF p(1)] assms(3) by auto
  moreover have "f ?p \<le> ?p" if "f ?p < n" using that nx [OF p(1)] Max_ge [OF L(1)] by auto
  ultimately have "fits_at n ?p (f ?p)" using p(2) unfolding fits_at_def by fastforce
  then show ?thesis using p(1) by blast
next
  case False
  let ?p = "Max X"
  have p: "?p \<in> X" "\<And>x. x \<in> X \<Longrightarrow> x \<le> ?p" using assms(1,2) by auto
  have q: "f ?p \<in> X" using nx [OF p(1)] by blast
  have "n < f ?p" using False q assms(3) by (metis linorder_neqE)
  then have "fits_at n ?p (f ?p)" using p(2) [OF q] unfolding fits_at_def by blast
  then show ?thesis using p(1) by blast
qed

lemma free_scan_skip:
  assumes "chain (h_ptr h) us p" and "\<forall>u\<in>set us. \<not> fits_at n u (h_ptr h u)" and "fits_at n p (h_ptr h p)"
  shows "free_scan (length us + Suc k) n (hd (us @ [p])) h = Ok p"
  using assms
proof (induction us)
  case Nil
  then show ?case by (auto simp: fits_at_def)
next
  case (Cons u us)
  have "h_ptr h u = hd (us @ [p])" "chain (h_ptr h) us p" using Cons.prems(1) by (simp_all add: chain_Cons)
  then show ?case using Cons by (auto simp: fits_at_def)
qed

lemma free_scan_ok:
  assumes r: "ring (h_ptr h) xs" and n: "n \<notin> set xs" and fuel: "length xs \<le> fuel"
  obtains us p vs where "xs = us @ p # vs" and "fits_at n p (h_ptr h p)" and "free_scan fuel n (hd xs) h = Ok p"
proof -
  have "\<exists>p\<in>set xs. fits_at n p (h_ptr h p)"
    by (rule fits_at_ex [OF _ _ n]) (use r ring_next [OF r] in \<open>auto simp: ring_def\<close>)
  then obtain us p vs where e: "xs = us @ p # vs" and p: "fits_at n p (h_ptr h p)" and u: "\<forall>u\<in>set us. \<not> fits_at n u (h_ptr h u)"
    using split_list_first_prop [of xs "\<lambda>p. fits_at n p (h_ptr h p)"] by blast
  have "chain (h_ptr h) us p"
    using r e by (cases "us = []") (simp_all add: ring_def chain_append)
  then have "free_scan (length us + Suc (fuel - Suc (length us))) n (hd (us @ [p])) h = Ok p" by (rule free_scan_skip [OF _ u p])
  moreover have "length us + Suc (fuel - Suc (length us)) = fuel" using fuel e by simp
  moreover have "hd (us @ [p]) = hd xs" using e by (cases us) auto
  ultimately show thesis using that [OF e p] by simp
qed

section \<open>Well-formed heaps\<close>

text \<open>The free blocks \<open>xs\<close> form a ring, they and the blocks \<open>A\<close> in use do not overlap, and the first of all is the empty block base.\<close>

definition core :: "uint set \<Rightarrow> uint list \<Rightarrow> heap \<Rightarrow> nat \<Rightarrow> bool" where
  "core A xs h b \<longleftrightarrow> ring (h_ptr h) xs \<and> A \<inter> set xs = {} \<and> separate (h_size h) (set xs \<union> A) b \<and> h_base h \<in> set xs \<and> h_size h (h_base h) = 0
     \<and> h_base h \<noteq> 0 \<and> (\<forall>x\<in>set xs \<union> A. h_base h \<le> x) \<and> (\<forall>a\<in>A. 0 < unat (h_size h a))"

definition link :: "uint \<Rightarrow> uint \<Rightarrow> heap \<Rightarrow> heap" where
  "link p n h = set_ptr p n (set_ptr n (h_ptr h p) h)"

definition absorb :: "uint \<Rightarrow> uint \<Rightarrow> heap \<Rightarrow> heap" where
  "absorb a c h = set_ptr a (h_ptr h c) (set_size a (h_size h a + h_size h c) h)"

lemma core_rotate: "core A (as @ bs) h b \<Longrightarrow> core A (bs @ as) h b"
  unfolding core_def using ring_rotate [of "h_ptr h" as bs] by (simp add: Un_commute)

lemma core_link:
  assumes c: "core A (p # R) h b" and n: "n \<in> A" and pl: "fits_at n p (h_ptr h p)"
  shows "core (A - {n}) (p # n # R) (link p n h) b"
proof -
  have "n \<notin> set (p # R)" using c n by (auto simp: core_def)
  then have "ring (h_ptr (link p n h)) (p # n # R)" using ring_put [of "h_ptr h" p R n] c pl by (simp add: core_def link_def set_ptr_def)
  moreover have "set (p # n # R) \<union> (A - {n}) = set (p # R) \<union> A" using n by auto
  moreover have "h_size (link p n h) = h_size h" "h_base (link p n h) = h_base h" by (simp_all add: link_def set_ptr_def)
  moreover have "(A - {n}) \<inter> set (p # n # R) = {}" using c by (auto simp: core_def)
  ultimately show ?thesis using c unfolding core_def by auto
qed

lemma core_absorb:
  assumes c: "core A (a # d # R) h b" and d: "d \<noteq> h_base h" and adj: "at_header a (h_size h a) = d"
  shows "core A (a # R) (absorb a d h) b"
proof -
  let ?h = "absorb a d h"
  have ne: "a \<noteq> d" "d \<notin> set R" "a \<notin> A" "d \<notin> A" using c by (auto simp: core_def ring_def)
  have s: "h_ptr ?h = (h_ptr h)(a := h_ptr h d)" "h_size ?h = (h_size h)(a := h_size h a + h_size h d)" "h_base ?h = h_base h"
    by (simp_all add: absorb_def set_ptr_def set_size_def)
  have "ring (h_ptr ?h) (a # R)" unfolding s using c ring_remove [of "h_ptr h" a d R] by (simp add: core_def)
  moreover have "set (a # R) \<union> A = set (a # d # R) \<union> A - {d}" using ne by auto
  moreover have "separate (h_size ?h) (set (a # d # R) \<union> A - {d}) b"
    unfolding s using c ne(1) adj by (intro separate_merge) (auto simp: core_def)
  moreover have "a \<noteq> h_base h" using c adj ne(1) by (auto simp: core_def at_header_def)
  ultimately show ?thesis using c d ne unfolding core_def s by auto
qed

lemma free_links:
  assumes "free_scan heap_fuel n (freep h) h = Ok p" and "n \<noteq> p" and "h_ptr h p \<noteq> n"
    and "at_header n (h_size h n) = h_ptr h p \<Longrightarrow> h_ptr h p \<noteq> p"
  defines "h1 \<equiv> link p n h"
  defines "h2 \<equiv> (if at_header n (h_size h n) = h_ptr h p then absorb n (h_ptr h p) h1 else h1)"
  defines "h3 \<equiv> (if at_header p (h_size h p) = n then absorb p n h2 else h2)"
  shows "free (n + 8) h = Ok (h3\<lparr>freep := p\<rparr>)"
  using assms(1-4) by (auto simp: free_def Let_def h3_def h2_def h1_def link_def absorb_def set_ptr_def set_size_def fun_upd_twist)

lemma core_freep [simp]: "core A xs (h\<lparr>freep := p\<rparr>) b = core A xs h b"
  by (simp add: core_def)

lemma absorb_size:
  assumes c: "core A (a # d # R) h b" and adj: "at_header a (h_size h a) = d"
  shows "unat (h_size (absorb a d h) a) = unat (h_size h a) + unat (h_size h d)"
proof -
  have ap: "separate (h_size h) (set (a # d # R) \<union> A) b" using c by (simp add: core_def)
  have "unat d = unat a + 8 * unat (h_size h a)" using at_header_unat [OF ap _ le_refl, of a] adj by simp
  then have "unat a + 8 * (unat (h_size h a) + unat (h_size h d)) < 2 ^ 32"
    using separateD(3) [OF ap, of d] separateD(1) [OF ap] by (simp add: blk_end_def algebra_simps)
  then show ?thesis by (simp add: absorb_def set_ptr_def set_size_def unat_word_ariths)
qed

text \<open>The blocks in use keep their sizes.\<close>

definition keeps :: "uint set \<Rightarrow> heap \<Rightarrow> heap \<Rightarrow> bool" where
  "keeps A h h' \<longleftrightarrow> h_base h' = h_base h \<and> (\<forall>a\<in>A. h_size h' a = h_size h a)"

lemma link_upper:
  assumes c: "core A (p # R) h b" and n: "n \<in> A" and pl: "fits_at n p (h_ptr h p)"
  defines "q \<equiv> h_ptr h p"
  defines "h2 \<equiv> (if at_header n (h_size h n) = q then absorb n q (link p n h) else link p n h)"
  obtains R2 where "core (A - {n}) (p # n # R2) h2 b" and "unat (h_size h n) \<le> unat (h_size h2 n)" and "keeps (insert p (A - {n})) h h2"
    and "at_header n (h_size h n) = q \<longrightarrow> q \<noteq> p" and "n \<noteq> h_base h"
proof -
  let ?h = "link p n h"
  note c1 = core_link [OF c n pl]
  have q: "q = hd (R @ [p])" using c by (simp add: q_def core_def ring_def chain_Cons)
  have ln: "h_size ?h = h_size h" "h_base ?h = h_base h" by (simp_all add: link_def set_ptr_def)
  have np: "n \<noteq> p" "n \<notin> set R" "n \<noteq> h_base h" using c n by (auto simp: core_def)
  show thesis
  proof (cases "at_header n (h_size h n) = q")
    case True
    have ap: "separate (h_size h) (set (p # R) \<union> A) b" using c by (simp add: core_def)
    have "unat q = unat n + 8 * unat (h_size h n)" using at_header_unat [OF ap _ le_refl, of n] n True by simp
    moreover have "unat (h_base h) \<le> unat n" "0 < unat (h_size h n)" using c n by (simp_all add: core_def word_le_nat_alt)
    ultimately have qb: "q \<noteq> h_base h" by auto
    have "R \<noteq> []"
    proof
      assume "R = []"
      then show False using qb q c by (simp add: core_def)
    qed
    then obtain R2 where R: "R = q # R2" using q by (cases R) auto
    have "core (A - {n}) (n # q # (R2 @ [p])) ?h b" using core_rotate [of "A - {n}" "[p]" "n # q # R2" ?h b] c1 R by simp
    note c2 = core_absorb [OF this] absorb_size [OF this]
    have "core (A - {n}) ((n # R2) @ [p]) (absorb n q ?h) b" using c2(1) qb True ln by simp
    then have "core (A - {n}) (p # n # R2) h2 b" using core_rotate [of "A - {n}" "n # R2" "[p]"] True by (simp add: h2_def)
    moreover have "unat (h_size h n) \<le> unat (h_size h2 n)" using c2(2) True ln by (simp add: h2_def)
    moreover have "keeps (insert p (A - {n})) h h2" using True ln np by (auto simp: keeps_def h2_def absorb_def set_ptr_def set_size_def)
    moreover have "q \<noteq> p" using R c by (auto simp: core_def ring_def)
    ultimately show thesis using that np(3) by blast
  next
    case False
    then show thesis using that [of R] c1 ln np by (simp add: h2_def keeps_def)
  qed
qed

lemma ring_length: "ring f xs \<Longrightarrow> length xs \<le> 2 ^ 32"
  using card_mono [of "UNIV :: uint set" "set xs"] by (simp add: ring_def distinct_card card_word)

lemma free_core:
  assumes c: "core A xs h b" and fp: "freep h = hd xs" and n: "n \<in> A"
  obtains xs' h' where "free (n + 8) h = Ok h'" and "core (A - {n}) xs' h' b" and "freep h' = hd xs'" and "keeps (A - {n}) h h'"
    and "\<exists>x\<in>set xs'. unat (h_size h n) \<le> unat (h_size h' x)"
proof -
  have r: "ring (h_ptr h) xs" and nx: "n \<notin> set xs" using c n by (auto simp: core_def)
  have "length xs \<le> heap_fuel" using ring_length [OF r] by (simp add: heap_fuel_def)
  then obtain us p vs where e: "xs = us @ p # vs" and pl: "fits_at n p (h_ptr h p)" and sc: "free_scan heap_fuel n (hd xs) h = Ok p"
    by (rule free_scan_ok [OF r nx])
  let ?q = "h_ptr h p"
  let ?h2 = "if at_header n (h_size h n) = ?q then absorb n ?q (link p n h) else link p n h"
  let ?h3 = "if at_header p (h_size h p) = n then absorb p n ?h2 else ?h2"
  have cr: "core A (p # vs @ us) h b" using core_rotate [of A us "p # vs"] c e by simp
  obtain R2 where l: "core (A - {n}) (p # n # R2) ?h2 b" "unat (h_size h n) \<le> unat (h_size ?h2 n)" "keeps (insert p (A - {n})) h ?h2"
    "at_header n (h_size h n) = ?q \<longrightarrow> ?q \<noteq> p" "n \<noteq> h_base h" by (rule link_upper [OF cr n pl])
  have "p \<in> set xs" "?q \<in> set xs" using e ring_next [OF r] by auto
  then have "n \<noteq> p" "?q \<noteq> n" using nx by auto
  then have f: "free (n + 8) h = Ok (?h3\<lparr>freep := p\<rparr>)" by (intro free_links [of n h p]) (use sc fp l(4) in simp_all)
  have k: "h_size ?h2 p = h_size h p" "h_base ?h2 = h_base h" using l(3) by (simp_all add: keeps_def)
  have pA: "p \<notin> A" using cr by (auto simp: core_def)
  show thesis
  proof (cases "at_header p (h_size h p) = n")
    case True
    have "core (A - {n}) (p # R2) ?h3 b" using core_absorb [OF l(1)] True k l(5) by simp
    moreover have "unat (h_size h n) \<le> unat (h_size ?h3 p)" using absorb_size [OF l(1)] True k l(2) by simp
    moreover have "keeps (A - {n}) h (?h3\<lparr>freep := p\<rparr>)" using l(3) pA True by (auto simp: keeps_def absorb_def set_ptr_def set_size_def)
    ultimately show thesis using that [OF f, of "p # R2"] by simp
  next
    case False
    then show thesis using that [OF f, of "p # n # R2"] l by (simp add: keeps_def)
  qed
qed

lemma first_fit:
  assumes c: "core A xs h b" and fit: "\<exists>x\<in>set xs. nu \<le> h_size h x" and nu: "0 < unat nu"
  obtains us x vs R where "tl xs @ [hd xs] = us @ x # vs" and "\<forall>u\<in>set us. h_size h u < nu \<and> u \<noteq> hd xs" and "nu \<le> h_size h x"
    and "core A (last (hd xs # us) # x # R) h b" and "length us < length xs"
proof -
  have ne: "xs \<noteq> []" "distinct xs" using c by (auto simp: core_def ring_def)
  then have st: "set (tl xs @ [hd xs]) = set xs" "distinct (tl xs @ [hd xs])" by (cases xs; auto)+
  obtain us x vs where e: "tl xs @ [hd xs] = us @ x # vs" and x: "nu \<le> h_size h x" and u: "\<forall>u\<in>set us. \<not> nu \<le> h_size h u"
    using split_list_first_prop [of "tl xs @ [hd xs]" "\<lambda>x. nu \<le> h_size h x"] fit unfolding st(1) by blast
  have "h_size h (h_base h) \<noteq> h_size h x" using c x nu by (auto simp: core_def word_le_nat_alt)
  moreover have "x \<in> set xs" "h_base h \<in> set xs" using e st(1) c by (auto simp: core_def)
  ultimately have "2 \<le> length xs" by (cases xs; cases "tl xs") auto
  then obtain R as bs where rot: "xs = as @ bs" "bs @ as = last (hd xs # us) # x # R" using e by (rule rotate_at)
  have "hd xs \<in> set (x # vs)" using arg_cong [OF e, of last] by (metis last_ConsL last_append last_in_set list.distinct(1) snoc_eq_iff_butlast)
  then have "hd xs \<notin> set us" using st(2) unfolding e by auto
  then have "\<forall>u\<in>set us. h_size h u < nu \<and> u \<noteq> hd xs" using u by (auto simp: linorder_not_le)
  moreover have "core A (last (hd xs # us) # x # R) h b" using core_rotate [of A as bs h b] c rot by simp
  moreover have "length us < length xs" using arg_cong [OF e, of length] ne by simp
  ultimately show thesis using that e x by blast
qed

lemma core_whole:
  assumes c: "core A (q # x # R) h b" and sz: "h_size h x = nu" "0 < unat nu"
  shows "core (insert x A) (q # R) (set_ptr q (h_ptr h x) h) b"
proof -
  let ?h = "set_ptr q (h_ptr h x) h"
  have s: "h_ptr ?h = (h_ptr h)(q := h_ptr h x)" "h_size ?h = h_size h" "h_base ?h = h_base h" by (simp_all add: set_ptr_def)
  have "ring (h_ptr ?h) (q # R)" unfolding s using c ring_remove [of "h_ptr h" q x R] by (simp add: core_def)
  moreover have "set (q # R) \<union> insert x A = set (q # x # R) \<union> A" by auto
  moreover have "h_base h \<noteq> x" using c sz by (auto simp: core_def)
  moreover have "insert x A \<inter> set (q # R) = {}" using c by (auto simp: core_def ring_def)
  ultimately show ?thesis using c sz unfolding core_def s by auto
qed

lemma core_tail:
  assumes c: "core A (q # x # R) h b" and sz: "nu < h_size h x" "0 < unat nu"
  defines "p \<equiv> at_header x (h_size h x - nu)"
  shows "core (insert p A) (q # x # R) (set_size p nu (set_size x (h_size h x - nu) h)) b" and "p \<notin> set (q # x # R) \<union> A"
proof -
  let ?h = "set_size p nu (set_size x (h_size h x - nu) h)"
  let ?S = "set (q # x # R) \<union> A"
  have s: "h_ptr ?h = h_ptr h" "h_size ?h = (h_size h)(x := h_size h x - nu, p := nu)" "h_base ?h = h_base h" by (simp_all add: set_size_def)
  have ap: "separate (h_size h) ?S b" using c by (simp add: core_def)
  have x: "x \<in> ?S" by simp
  show out: "p \<notin> ?S" unfolding p_def by (rule separate_split(1) [OF ap x sz])
  have "separate ((h_size h)(x := h_size h x - nu, p := nu)) (insert p ?S) b" unfolding p_def by (rule separate_split(2) [OF ap x sz])
  then have ap2: "separate (h_size ?h) (insert p ?S) b" by (simp only: s)
  have "unat p = unat x + 8 * unat (h_size h x - nu)" unfolding p_def using sz(1)
    by (intro at_header_unat [OF ap x]) (simp add: unat_sub word_le_nat_alt word_less_nat_alt)
  moreover have "h_base h \<le> x" using c by (simp add: core_def)
  ultimately have "h_base h \<le> p" by (simp add: word_le_nat_alt)
  moreover have "h_base h \<noteq> x" "h_base h \<noteq> p" "x \<noteq> p" "x \<notin> A" using c sz out by (auto simp: core_def)
  ultimately show "core (insert p A) (q # x # R) ?h b" using c sz(2) out ap2 unfolding core_def s by auto
qed

lemma malloc_take:
  assumes c: "core A xs h b" and fp: "freep h = hd xs" and fit: "\<exists>x\<in>set xs. nu \<le> h_size h x" and nu: "0 < unat nu" and fuel: "length xs \<le> fuel"
  obtains p xs' h' where "malloc_loop fuel sbrk nu (freep h) (h_ptr h (freep h)) h w = Ok (p + 8, h', w)" and "p \<notin> A"
    and "core (insert p A) xs' h' b" and "freep h' = hd xs'" and "h_size h' p = nu" and "keeps A h h'"
proof -
  obtain us x vs R where e: "tl xs @ [hd xs] = us @ x # vs" and u: "\<forall>u\<in>set us. h_size h u < nu \<and> u \<noteq> hd xs" and x: "nu \<le> h_size h x"
    and r: "core A (last (hd xs # us) # x # R) h b" and l: "length us < length xs" by (rule first_fit [OF c fit nu])
  let ?q = "last (hd xs # us)"
  have "chain (h_ptr h) (hd xs # us) x" using c e by (intro chain_prefix) (auto simp: core_def ring_def)
  then have sc: "malloc_loop (length us + n) sbrk nu (freep h) (h_ptr h (freep h)) h w = malloc_loop n sbrk nu ?q x h w" for n
    unfolding fp using u fp by (intro malloc_scan) simp_all
  obtain k where "fuel = length us + Suc k" using l fuel by (metis add_Suc_right less_imp_Suc_add order_less_le_trans)
  then have m: "malloc_loop fuel sbrk nu (freep h) (h_ptr h (freep h)) h w = malloc_loop (Suc k) sbrk nu ?q x h w" using sc [of "Suc k"] by (simp only:)
  have xA: "x \<notin> A" using r by (auto simp: core_def)
  show thesis
  proof (cases "h_size h x = nu")
    case True
    let ?h = "(set_ptr ?q (h_ptr h x) h)\<lparr>freep := ?q\<rparr>"
    have "malloc_loop (Suc k) sbrk nu ?q x h w = Ok (x + 8, ?h, w)" using True by simp
    moreover have "core (insert x A) (?q # R) ?h b" using core_whole [OF r True nu] by simp
    ultimately show thesis using that [of x ?h "?q # R"] m xA True by (simp add: keeps_def set_ptr_def)
  next
    case False
    then have lt: "nu < h_size h x" using x by simp
    let ?s = "h_size h x - nu" let ?p = "at_header x ?s" let ?h = "(set_size ?p nu (set_size x ?s h))\<lparr>freep := ?q\<rparr>"
    have "malloc_loop (Suc k) sbrk nu ?q x h w = Ok (?p + 8, ?h, w)" using False x by (simp add: Let_def)
    moreover have "core (insert ?p A) (?q # x # R) ?h b" "?p \<notin> A" using core_tail [OF r lt nu] by simp_all
    moreover have "keeps A h ?h" using xA \<open>?p \<notin> A\<close> by (auto simp: keeps_def set_size_def)
    ultimately show thesis using that [of ?p ?h "?q # x # R"] m by (simp add: set_size_def)
  qed
qed

section \<open>The allocator\<close>

text \<open>What sbrk promises for a positive amount: it fails and moves nothing, or returns the old end of memory and moves the end up.\<close>

definition sbrk_ok :: "(uint \<Rightarrow> 'w \<Rightarrow> uint \<times> 'w) \<Rightarrow> ('w \<Rightarrow> nat) \<Rightarrow> bool" where
  "sbrk_ok sbrk brk \<longleftrightarrow> (\<forall>n w. 0 < unat n \<and> unat n < 2 ^ 31 \<longrightarrow>
     fst (sbrk n w) = - 1 \<and> brk (snd (sbrk n w)) = brk w \<or>
     fst (sbrk n w) = of_nat (brk w) \<and> brk (snd (sbrk n w)) = brk w + unat n \<and> brk (snd (sbrk n w)) < 2 ^ 32 - 1)"

definition listed :: "uint set \<Rightarrow> uint list \<Rightarrow> heap \<Rightarrow> nat \<Rightarrow> bool" where
  "listed A xs h b \<longleftrightarrow> core A xs h b \<and> freep h = hd xs"

lemma listed_hd: "listed A xs h b \<Longrightarrow> freep h \<noteq> 0 \<and> length xs \<le> 2 ^ 32 \<and> xs \<noteq> []"
  using ring_length [of "h_ptr h" xs] by (cases xs) (auto simp: listed_def core_def ring_def word_le_nat_alt unat_eq_0)

lemma core_new:
  assumes c: "core A xs h b" and nu: "0 < unat nu" "b + 8 * unat nu < 2 ^ 32"
  shows "of_nat b \<notin> A" and "core (insert (of_nat b) A) xs (set_size (of_nat b) nu h) (b + 8 * unat nu)"
proof -
  let ?p = "of_nat b :: uint" let ?h = "set_size ?p nu h"
  have ap: "separate (h_size h) (set xs \<union> A) b" using c by (simp add: core_def)
  have s: "h_ptr ?h = h_ptr h" "h_size ?h = (h_size h)(?p := nu)" "h_base ?h = h_base h" by (simp_all add: set_size_def)
  note n = separate_new [OF ap nu]
  have "unat ?p = b" using separateD(1) [OF ap] by (simp add: unat_of_nat)
  moreover have "unat (h_base h) < b" using c separateD(2) [OF ap] by (simp add: core_def)
  ultimately have "h_base h \<le> ?p" by (simp add: word_le_nat_alt)
  moreover have "h_base h \<noteq> ?p" using n(1) c by (auto simp: core_def)
  ultimately show "core (insert ?p A) xs ?h (b + 8 * unat nu)" using c n nu(1) unfolding core_def s by auto
  show "?p \<notin> A" using n(1) by simp
qed

lemma morecore_core:
  assumes l: "listed A xs h (brk w)" and sb: "sbrk_ok sbrk brk" and nu: "8 * unat nu < 2 ^ 31"
  shows "(\<exists>w'. morecore sbrk nu h w = Ok (0, h, w') \<and> brk w' = brk w) \<or>
    (\<exists>xs' h' w'. morecore sbrk nu h w = Ok (freep h', h', w') \<and> listed A xs' h' (brk w') \<and> keeps A h h' \<and> (\<exists>x\<in>set xs'. nu \<le> h_size h' x))"
proof -
  define n where "n = (if nu < 4096 then 4096 else nu)"
  have n: "0 < unat n" "8 * unat n < 2 ^ 31" "nu \<le> n" using nu by (auto simp: n_def word_less_nat_alt word_le_nat_alt)
  then have n8: "unat (n * 8) = 8 * unat n" by (simp add: unat_word_ariths)
  obtain p w' where e: "sbrk (n * 8) w = (p, w')" by fastforce
  have "p = - 1 \<and> brk w' = brk w \<or> p = of_nat (brk w) \<and> brk w' = brk w + 8 * unat n \<and> brk w' < 2 ^ 32 - 1"
    using sb [unfolded sbrk_ok_def, rule_format, of "n * 8" w] n n8 e by simp
  then show ?thesis
  proof (elim disjE conjE)
    assume "p = - 1" "brk w' = brk w"
    then show ?thesis using e by (simp add: morecore_def Let_def flip: n_def)
  next
    assume p: "p = of_nat (brk w)" and b: "brk w' = brk w + 8 * unat n" "brk w' < 2 ^ 32 - 1"
    have "unat p = brk w" using p b by (simp add: unat_of_nat)
    moreover have "unat (- 1 :: uint) = 2 ^ 32 - 1" by (simp add: unsigned_minus_1_eq_mask mask_eq_exp_minus_1)
    ultimately have p1: "p \<noteq> - 1" using b by auto
    have c: "core A xs h (brk w)" "freep h = hd xs" using l by (auto simp: listed_def)
    have "brk w + 8 * unat n < 2 ^ 32" using b by simp
    note cn = core_new [OF c(1) n(1) this]
    have cp: "core (insert p A) xs (set_size p n h) (brk w')" using cn(2) p b(1) by simp
    have fp: "freep (set_size p n h) = hd xs" using c(2) by (simp add: set_size_def)
    obtain xs' h' where f: "free (p + 8) (set_size p n h) = Ok h'" "core (insert p A - {p}) xs' h' (brk w')" "freep h' = hd xs'"
      "keeps (insert p A - {p}) (set_size p n h) h'" "\<exists>x\<in>set xs'. unat (h_size (set_size p n h) p) \<le> unat (h_size h' x)"
      by (rule free_core [OF cp fp insertI1])
    have A: "insert p A - {p} = A" using cn(1) p by simp
    have "morecore sbrk nu h w = Ok (freep h', h', w')" using e p1 f(1) by (simp add: morecore_def Let_def flip: n_def)
    moreover have "listed A xs' h' (brk w')" using f(2,3) A by (simp add: listed_def)
    moreover have "keeps A h h'" using f(4) cn(1) p unfolding A by (auto simp: keeps_def set_size_def)
    moreover have "\<exists>x\<in>set xs'. nu \<le> h_size h' x" using f(5) n(3) by (auto simp: set_size_def word_le_nat_alt intro: order_trans)
    ultimately show ?thesis by blast
  qed
qed

text \<open>The result of an allocation: no memory, or a new block of at least the size asked for.\<close>

definition alloc_ok :: "('w \<Rightarrow> nat) \<Rightarrow> uint set \<Rightarrow> uint \<Rightarrow> heap \<Rightarrow> uint \<Rightarrow> heap \<Rightarrow> 'w \<Rightarrow> bool" where
  "alloc_ok brk A nbytes h r h' w' \<longleftrightarrow> keeps A h h' \<and>
     (if r = 0 then \<exists>xs. listed A xs h' (brk w')
      else r - 8 \<notin> A \<and> unat nbytes \<le> 8 * (unat (h_size h' (r - 8)) - 1) \<and> (\<exists>xs. listed (insert (r - 8) A) xs h' (brk w')))"

lemma alloc_ok_block:
  assumes "core (insert p A) xs h' (brk w')" and "p \<notin> A" and "freep h' = hd xs" and "h_size h' p = units nbytes"
    and "keeps A h h'" and nb: "unat nbytes \<le> 2 ^ 31 - 16"
  shows "alloc_ok brk A nbytes h (p + 8) h' w'"
proof -
  have u: "unat nbytes \<le> 8 * (unat (units nbytes) - 1)" "0 < unat (units nbytes)" using units_ok [of nbytes] nb by auto
  have ap: "separate (h_size h') (set xs \<union> insert p A) (brk w')" using assms(1) by (simp add: core_def)
  have "unat p + 8 < 2 ^ 32" using separateD(1) [OF ap] separateD(3) [OF ap, of p] u(2) assms(4) by (simp add: blk_end_def)
  then have "unat (p + 8) = unat p + 8" by (simp add: unat_word_ariths)
  then have "p + 8 \<noteq> 0" by auto
  then show ?thesis using assms u by (auto simp: alloc_ok_def listed_def)
qed

lemma units_small: "unat nbytes \<le> 2 ^ 31 - 16 \<Longrightarrow> 8 * unat (units nbytes) < 2 ^ 31"
proof -
  assume a: "unat nbytes \<le> 2 ^ 31 - 16"
  have e: "nbytes + 8 - 1 = nbytes + 7" by simp
  have "unat (nbytes + 7) = unat nbytes + 7" using a by (simp add: unat_word_ariths)
  then have "unat ((nbytes + 7) div 8) = (unat nbytes + 7) div 8" by (simp add: unat_div)
  then have "unat (units nbytes) = (unat nbytes + 7) div 8 + 1" using a unfolding units_def e by (simp add: unat_word_ariths)
  then show ?thesis using a by simp
qed

lemma malloc_loop_core:
  assumes l: "listed A xs h (brk w)" and sb: "sbrk_ok sbrk brk" and nb: "unat nbytes \<le> 2 ^ 31 - 16"
  shows "\<exists>r h' w'. malloc_loop heap_fuel sbrk (units nbytes) (freep h) (h_ptr h (freep h)) h w = Ok (r, h', w') \<and> alloc_ok brk A nbytes h r h' w'"
proof -
  let ?nu = "units nbytes"
  have u: "0 < unat ?nu" using units_ok(2) [of nbytes] nb by auto
  have c: "core A xs h (brk w)" "freep h = hd xs" using l by (auto simp: listed_def)
  have len: "length xs \<le> 2 ^ 32" "xs \<noteq> []" using listed_hd [OF l] by auto
  show ?thesis
  proof (cases "\<exists>x\<in>set xs. ?nu \<le> h_size h x")
    case True
    have "length xs \<le> heap_fuel" using len(1) by (simp add: heap_fuel_def)
    then obtain p xs' h' where t: "malloc_loop heap_fuel sbrk ?nu (freep h) (h_ptr h (freep h)) h w = Ok (p + 8, h', w)" "p \<notin> A"
      "core (insert p A) xs' h' (brk w)" "freep h' = hd xs'" "h_size h' p = ?nu" "keeps A h h'" by (rule malloc_take [OF c True u])
    have "alloc_ok brk A nbytes h (p + 8) h' w" using alloc_ok_block [of p A xs' h' brk w nbytes h] t nb by blast
    then show ?thesis using t(1) by blast
  next
    case False
    define k where "k = heap_fuel - length xs"
    have k: "heap_fuel = length (tl xs) + Suc k" "2 ^ 32 \<le> k" using len by (cases xs; simp add: k_def heap_fuel_def)+
    have ch: "chain (h_ptr h) (hd xs # tl xs) (hd xs)" and d: "hd xs \<notin> set (tl xs)" and st: "hd xs \<in> set xs" "set (tl xs) \<subseteq> set xs"
      using c(1) len(2) by (cases xs; auto simp: core_def ring_def)+
    have "\<forall>v\<in>set (tl xs). h_size h v < ?nu \<and> v \<noteq> freep h" using False d st(2) c(2) by (auto simp: linorder_not_le)
    note sc = malloc_scan [OF ch this, of "Suc k" sbrk w]
    have m: "malloc_loop heap_fuel sbrk ?nu (freep h) (h_ptr h (freep h)) h w =
        obind (morecore sbrk ?nu h w) (\<lambda>(p, h, w). if p = 0 then Ok (0, h, w) else malloc_loop k sbrk ?nu p (h_ptr h p) h w)"
      unfolding k(1) c(2) sc using False st(1) c(2) by simp
    show ?thesis using morecore_core [OF l sb units_small [OF nb]]
    proof (elim disjE exE conjE)
      fix w' assume "morecore sbrk ?nu h w = Ok (0, h, w')" "brk w' = brk w"
      then show ?thesis using m l by (auto simp: alloc_ok_def keeps_def)
    next
      fix xs' h' w'
      assume a: "morecore sbrk ?nu h w = Ok (freep h', h', w')" "listed A xs' h' (brk w')" "keeps A h h'" "\<exists>x\<in>set xs'. ?nu \<le> h_size h' x"
      have c': "core A xs' h' (brk w')" "freep h' = hd xs'" using a(2) by (auto simp: listed_def)
      have "length xs' \<le> k" "freep h' \<noteq> 0" using listed_hd [OF a(2)] k(2) by auto
      then obtain p xs2 h2 where t: "malloc_loop k sbrk ?nu (freep h') (h_ptr h' (freep h')) h' w' = Ok (p + 8, h2, w')" "p \<notin> A"
        "core (insert p A) xs2 h2 (brk w')" "freep h2 = hd xs2" "h_size h2 p = ?nu" "keeps A h' h2" using malloc_take [OF c' a(4) u] by metis
      have "keeps A h h2" using t(6) a(3) by (simp add: keeps_def)
      then have "alloc_ok brk A nbytes h (p + 8) h2 w'" using alloc_ok_block [of p A xs2 h2 brk w' nbytes h] t nb by blast
      moreover have "malloc_loop heap_fuel sbrk ?nu (freep h) (h_ptr h (freep h)) h w = Ok (p + 8, h2, w')"
        unfolding m a(1) using t(1) \<open>freep h' \<noteq> 0\<close> by simp
      ultimately show ?thesis by blast
    qed
  qed
qed

text \<open>The heap before the first allocation, and later.\<close>

definition heap_inv :: "('w \<Rightarrow> nat) \<Rightarrow> heap \<Rightarrow> 'w \<Rightarrow> uint set \<Rightarrow> bool" where
  "heap_inv brk h w A \<longleftrightarrow> freep h = 0 \<and> A = {} \<and> h_base h \<noteq> 0 \<and> unat (h_base h) < brk w \<and> brk w < 2 ^ 32 \<or> (\<exists>xs. listed A xs h (brk w))"

lemma malloc_alloc_ok:
  assumes i: "heap_inv brk h w A" and sb: "sbrk_ok sbrk brk" and nb: "unat nbytes \<le> 2 ^ 31 - 16"
  shows "\<exists>r h' w'. malloc sbrk nbytes h w = Ok (r, h', w') \<and> alloc_ok brk A nbytes h r h' w'"
proof (cases "freep h = 0")
  case True
  let ?h = "(set_size (h_base h) 0 (set_ptr (h_base h) (h_base h) h))\<lparr>freep := h_base h\<rparr>"
  have a: "A = {}" "h_base h \<noteq> 0" "unat (h_base h) < brk w" "brk w < 2 ^ 32" using i True listed_hd by (auto simp: heap_inv_def)
  have "listed A [h_base h] ?h (brk w)"
    using a by (simp add: listed_def core_def ring_def next_ok_def separate_def blk_end_def set_size_def set_ptr_def)
  from malloc_loop_core [OF this sb nb] obtain r h' w' where
    m: "malloc_loop heap_fuel sbrk (units nbytes) (freep ?h) (h_ptr ?h (freep ?h)) ?h w = Ok (r, h', w')" "alloc_ok brk A nbytes ?h r h' w'" by blast
  have "malloc sbrk nbytes h w = Ok (r, h', w')" using m(1) True by (simp add: malloc_def Let_def)
  moreover have "alloc_ok brk A nbytes h r h' w'" using m(2) a(1) by (auto simp: alloc_ok_def keeps_def set_size_def set_ptr_def split: if_splits)
  ultimately show ?thesis by blast
next
  case False
  then obtain xs where "listed A xs h (brk w)" using i by (auto simp: heap_inv_def)
  from malloc_loop_core [OF this sb nb] show ?thesis using False by (simp add: malloc_def Let_def)
qed

lemma free_inv:
  assumes "heap_inv brk h w A" and "a \<in> A"
  shows "\<exists>h'. free (a + 8) h = Ok h' \<and> heap_inv brk h' w (A - {a})"
proof -
  obtain xs where c: "core A xs h (brk w)" "freep h = hd xs" using assms by (auto simp: heap_inv_def listed_def)
  obtain xs' h' where "free (a + 8) h = Ok h'" "core (A - {a}) xs' h' (brk w)" "freep h' = hd xs'" by (rule free_core [OF c assms(2)])
  then show ?thesis unfolding heap_inv_def listed_def by blast
qed

text \<open>A program that allocates and frees, with the set of the headers of the blocks it holds.\<close>

inductive um_step :: "(uint \<Rightarrow> 'w \<Rightarrow> uint \<times> 'w) \<Rightarrow> heap \<times> 'w \<times> uint set \<Rightarrow> heap \<times> 'w \<times> uint set \<Rightarrow> bool" for sbrk where
  um_malloc: "unat nbytes \<le> 2 ^ 31 - 16 \<Longrightarrow> malloc sbrk nbytes h w = Ok (r, h', w') \<Longrightarrow>
    um_step sbrk (h, w, A) (h', w', if r = 0 then A else insert (r - 8) A)"
| um_free: "a \<in> A \<Longrightarrow> free (a + 8) h = Ok h' \<Longrightarrow> um_step sbrk (h, w, A) (h', w, A - {a})"

lemma alloc_ok_inv: "alloc_ok brk A nbytes h r h' w' \<Longrightarrow> heap_inv brk h' w' (if r = 0 then A else insert (r - 8) A)"
  unfolding alloc_ok_def heap_inv_def by (cases "r = 0") simp_all

lemma alloc_ok_new: "alloc_ok brk A nbytes h r h' w' \<Longrightarrow>
  (\<forall>x\<in>A. h_size h' x = h_size h x) \<and> (r = 0 \<or> r - 8 \<notin> A \<and> unat nbytes \<le> 8 * (unat (h_size h' (r - 8)) - 1))"
  unfolding alloc_ok_def keeps_def by (cases "r = 0") simp_all

lemma heap_inv_blocks:
  assumes "heap_inv brk h w A"
  shows "x \<in> A \<Longrightarrow> y \<in> A \<Longrightarrow> x \<noteq> y \<Longrightarrow> before (h_size h) x y \<or> before (h_size h) y x"
    and "x \<in> A \<Longrightarrow> h_base h < x \<and> blk_end (h_size h) x \<le> brk w"
proof -
  obtain xs where c: "A = {} \<or> core A xs h (brk w)" using assms unfolding heap_inv_def listed_def by blast
  show "before (h_size h) x y \<or> before (h_size h) y x" if "x \<in> A" "y \<in> A" "x \<noteq> y"
  proof -
    have "separate (h_size h) (set xs \<union> A) (brk w)" using c that(1) unfolding core_def by blast
    then show ?thesis by (rule separateD(4)) (use that in simp_all)
  qed
  show "h_base h < x \<and> blk_end (h_size h) x \<le> brk w" if "x \<in> A"
  proof -
    have cc: "core A xs h (brk w)" using c that by blast
    then have "h_base h \<le> x" "h_base h \<noteq> x" using that unfolding core_def by blast+
    moreover have "separate (h_size h) (set xs \<union> A) (brk w)" using cc unfolding core_def by blast
    then have "blk_end (h_size h) x \<le> brk w" by (rule separateD(3)) (simp add: that)
    ultimately show ?thesis by (simp add: order_less_le)
  qed
qed

lemma um_step_inv:
  assumes "um_step sbrk s t" and "sbrk_ok sbrk brk" and "heap_inv brk (fst s) (fst (snd s)) (snd (snd s))"
  shows "heap_inv brk (fst t) (fst (snd t)) (snd (snd t))"
  using assms(1)
proof cases
  case (um_malloc nbytes h w r h' w' A)
  have "heap_inv brk h w A" using assms(3) um_malloc(1) by simp
  from malloc_alloc_ok [OF this assms(2) um_malloc(3)] um_malloc(4) have "alloc_ok brk A nbytes h r h' w'" by simp
  then show ?thesis unfolding um_malloc(2) by (simp add: alloc_ok_inv)
next
  case (um_free a A h h' w)
  have "heap_inv brk h w A" using assms(3) um_free(1) by simp
  from free_inv [OF this um_free(3)] um_free(4) show ?thesis unfolding um_free(2) by simp
qed

lemma um_run_inv:
  assumes "(um_step sbrk)\<^sup>*\<^sup>* s t" and "sbrk_ok sbrk brk" and "heap_inv brk (fst s) (fst (snd s)) (snd (snd s))"
  shows "heap_inv brk (fst t) (fst (snd t)) (snd (snd t))"
  using assms(1) by (induction rule: rtranclp_induct) (use assms(2,3) um_step_inv in blast)+

text \<open>C40. Whatever a program allocates and frees, the blocks it holds never overlap and lie between base and the end of its memory;
  every further allocation of less than 2 GB returns, either no memory or a block it does not hold yet that has room for the bytes asked
  for, and keeps the sizes of the blocks in use; and every block it holds can be freed.\<close>

theorem malloc_blocks_apart:
  assumes "sbrk_ok sbrk brk" and "freep h0 = 0" and "h_base h0 \<noteq> 0" and "unat (h_base h0) < brk w0" and "brk w0 < 2 ^ 32"
    and "(um_step sbrk)\<^sup>*\<^sup>* (h0, w0, {}) (h, w, A)"
  shows "(\<forall>x\<in>A. \<forall>y\<in>A. x \<noteq> y \<longrightarrow> before (h_size h) x y \<or> before (h_size h) y x)
    \<and> (\<forall>x\<in>A. h_base h < x \<and> blk_end (h_size h) x \<le> brk w)
    \<and> (\<forall>nbytes. unat nbytes \<le> 2 ^ 31 - 16 \<longrightarrow> (\<exists>r h' w'. malloc sbrk nbytes h w = Ok (r, h', w') \<and> (\<forall>x\<in>A. h_size h' x = h_size h x) \<and>
        (r = 0 \<or> r - 8 \<notin> A \<and> unat nbytes \<le> 8 * (unat (h_size h' (r - 8)) - 1))))
    \<and> (\<forall>x\<in>A. \<exists>h'. free (x + 8) h = Ok h')"
proof -
  have "heap_inv brk h0 w0 {}" using assms(2-5) by (simp add: heap_inv_def)
  then have i: "heap_inv brk h w A" using um_run_inv [OF assms(6,1)] by simp
  have "\<exists>r h' w'. malloc sbrk nbytes h w = Ok (r, h', w') \<and> (\<forall>x\<in>A. h_size h' x = h_size h x) \<and>
      (r = 0 \<or> r - 8 \<notin> A \<and> unat nbytes \<le> 8 * (unat (h_size h' (r - 8)) - 1))" if nb: "unat nbytes \<le> 2 ^ 31 - 16" for nbytes
  proof -
    obtain r h' w' where m: "malloc sbrk nbytes h w = Ok (r, h', w')" "alloc_ok brk A nbytes h r h' w'"
      using malloc_alloc_ok [OF i assms(1) nb] by (elim exE conjE)
    show ?thesis by (rule exI [of _ r], rule exI [of _ h'], rule exI [of _ w'], rule conjI [OF m(1)], rule alloc_ok_new [OF m(2)])
  qed
  then show ?thesis using heap_inv_blocks [OF i] free_inv [OF i] by meson
qed

definition sample_sbrk :: "uint \<Rightarrow> nat \<Rightarrow> uint \<times> nat" where
  "sample_sbrk n b = (if b + unat n < 65536 then (of_nat b, b + unat n) else (- 1, b))"

definition sample_heap :: heap where
  "sample_heap = \<lparr>h_ptr = (\<lambda>_. 0), h_size = (\<lambda>_. 0), h_base = 8, freep = 0\<rparr>"

theorem malloc_blocks_apart_witness:
  "\<exists>r h w. malloc sample_sbrk 100 sample_heap 4096 = Ok (r, h, w) \<and>
    (r = 0 \<or> 100 \<le> 8 * (unat (h_size h (r - 8)) - 1) \<and> h_base h < r - 8 \<and> (\<exists>h'. free r h = Ok h'))"
proof -
  have s: "sbrk_ok sample_sbrk id" by (simp add: sbrk_ok_def sample_sbrk_def)
  have p: "freep sample_heap = 0" "h_base sample_heap \<noteq> 0" "unat (h_base sample_heap) < id 4096" "id (4096::nat) < 2 ^ 32"
    by (simp_all add: sample_heap_def)
  note t = malloc_blocks_apart [OF s p]
  have "unat (100 :: uint) \<le> 2 ^ 31 - 16" by simp
  from t [OF rtranclp.rtrancl_refl, THEN conjunct2, THEN conjunct2, THEN conjunct1, THEN spec, THEN mp, OF this]
  obtain r h w where m: "malloc sample_sbrk 100 sample_heap 4096 = Ok (r, h, w)"
    and r: "r = 0 \<or> r - 8 \<notin> {} \<and> unat (100 :: uint) \<le> 8 * (unat (h_size h (r - 8)) - 1)" by (elim exE conjE)
  have "um_step sample_sbrk (sample_heap, 4096, {}) (h, w, if r = 0 then {} else insert (r - 8) {})" by (rule um_malloc [OF _ m]) simp
  note u = t [OF r_into_rtranclp [of "um_step sample_sbrk", OF this]]
  have "h_base h < r - 8 \<and> (\<exists>h'. free (r - 8 + 8) h = Ok h')" if "r \<noteq> 0"
    using u [THEN conjunct2, THEN conjunct1] u [THEN conjunct2, THEN conjunct2, THEN conjunct2] that by simp
  moreover have "r - 8 + 8 = r" by simp
  ultimately have "r = 0 \<or> 100 \<le> 8 * (unat (h_size h (r - 8)) - 1) \<and> h_base h < r - 8 \<and> (\<exists>h'. free r h = Ok h')"
    using r by (cases "r = 0") simp_all
  then show ?thesis using m by (intro exI conjI)
qed

end
