(* ===== verification/Mp.thy ===== *)
theory Mp
  imports Kalloc
begin

text \<open>
  The search for the processors of the machine (\<^verbatim>\<open>mp.c\<close>) in the tables that the firmware leaves in memory. An address is a kernel
  address; the fields of the tables are read at their offsets.
\<close>

section \<open>Definitions\<close>

definition NCPU :: nat where "NCPU = 8"

definition load16 :: "mem \<Rightarrow> uint \<Rightarrow> ushort" where
  "load16 m a = bytes_u16 [m a, m (a + 1)]"

text \<open>The sum of bytes, cut to a byte.\<close>

fun mp_sum :: "mem \<Rightarrow> uint \<Rightarrow> nat \<Rightarrow> byte" where
  "mp_sum m a 0 = 0"
| "mp_sum m a (Suc n) = m a + mp_sum m (a + 1) n"

definition has_sig :: "mem \<Rightarrow> uint \<Rightarrow> byte list \<Rightarrow> bool" where
  "has_sig m a sig \<longleftrightarrow> map (\<lambda>i. m (a + of_nat i)) [0..<4] = sig"

text \<open>Addresses at steps of the size of \<^verbatim>\<open>struct mp\<close>, sixteen bytes; 0 when there is no structure.\<close>

definition mpsearch1 :: "mem \<Rightarrow> uint \<Rightarrow> nat \<Rightarrow> uint" where
  "mpsearch1 m a len =
     (case find (\<lambda>p. has_sig m p [95, 77, 80, 95] \<and> mp_sum m p 16 = 0)
         (map (\<lambda>i. P2V a + of_nat (16 * i)) [0..<(len + 15) div 16]) of
        None \<Rightarrow> 0 | Some p \<Rightarrow> p)"

definition mpsearch :: "mem \<Rightarrow> uint" where
  "mpsearch m =
     (let bda = P2V 0x400;
          p = push_bit 4 (push_bit 8 (ucast (m (bda + 0x0F))) OR ucast (m (bda + 0x0E))) :: uint;
          q = (push_bit 8 (ucast (m (bda + 0x14))) OR ucast (m (bda + 0x13))) * 1024 :: uint;
          mp = (if p \<noteq> 0 then mpsearch1 m p 1024 else mpsearch1 m (q - 1024) 1024)
      in if mp \<noteq> 0 then mp else mpsearch1 m 0xF0000 0x10000)"

text \<open>The floating pointer structure and the configuration table.\<close>

definition mpconfig :: "mem \<Rightarrow> (uint \<times> uint) option" where
  "mpconfig m =
     (let mp = mpsearch m in
      if mp = 0 \<or> load32 m (mp + 4) = 0 then None
      else let conf = P2V (load32 m (mp + 4)) in
        if \<not> has_sig m conf [80, 67, 77, 80] then None
        else if m (conf + 6) \<noteq> 1 \<and> m (conf + 6) \<noteq> 4 then None
        else if mp_sum m conf (unat (load16 m (conf + 4))) \<noteq> 0 then None
        else Some (mp, conf))"

record mpstate =
  mp_cpus :: "byte list"     \<comment> \<open>the interrupt controller of each processor found\<close>
  mp_ioapicid :: byte
  mp_lapic :: uint
  mp_ismp :: bool

text \<open>The loop over the entries. An entry of an unknown type clears \<open>ismp\<close> and leaves the position where it is: the \<^verbatim>\<open>break\<close> leaves the switch only.\<close>

fun mp_loop :: "nat \<Rightarrow> mem \<Rightarrow> uint \<Rightarrow> uint \<Rightarrow> mpstate \<Rightarrow> mpstate outcome" where
  "mp_loop 0 m e p s = Diverge"
| "mp_loop (Suc fuel) m e p s =
     (if \<not> p < e then Ok s
      else if m p = 0 then
        mp_loop fuel m e (p + 20) (if length (mp_cpus s) < NCPU then s\<lparr>mp_cpus := mp_cpus s @ [m (p + 1)]\<rparr> else s)
      else if m p = 2 then mp_loop fuel m e (p + 8) (s\<lparr>mp_ioapicid := m (p + 1)\<rparr>)
      else if m p = 1 \<or> m p = 3 \<or> m p = 4 then mp_loop fuel m e (p + 8) s
      else mp_loop fuel m e p (s\<lparr>mp_ismp := False\<rparr>))"

text \<open>The second component of the result says whether the interrupt mode register is set.\<close>

definition mpinit :: "nat \<Rightarrow> mem \<Rightarrow> mpstate \<Rightarrow> (mpstate \<times> bool) outcome" where
  "mpinit fuel m s =
     (case mpconfig m of None \<Rightarrow> Panic ''Expect to run on an SMP''
      | Some (mp, conf) \<Rightarrow>
          obind (mp_loop fuel m (conf + ucast (load16 m (conf + 4))) (conf + 44)
            (s\<lparr>mp_ismp := True, mp_lapic := load32 m (conf + 36)\<rparr>)) (\<lambda>s.
          if \<not> mp_ismp s then Panic ''Didn't find a suitable machine'' else Ok (s, m (mp + 12) \<noteq> 0)))"

section \<open>Tables\<close>

text \<open>The entries of a table by their type and their second byte.\<close>

definition entry_size :: "byte \<Rightarrow> uint" where
  "entry_size t = (if t = 0 then 20 else 8)"

fun laid :: "mem \<Rightarrow> uint \<Rightarrow> uint \<Rightarrow> (byte \<times> byte) list \<Rightarrow> uint \<Rightarrow> bool" where
  "laid m e p [] q \<longleftrightarrow> p = q"
| "laid m e p ((t, d) # es) q \<longleftrightarrow> p < e \<and> t \<le> 4 \<and> m p = t \<and> m (p + 1) = d \<and> laid m e (p + entry_size t) es q"

definition cpu_ids :: "(byte \<times> byte) list \<Rightarrow> byte list" where
  "cpu_ids es = map snd (filter (\<lambda>e. fst e = 0) es)"

lemma byte_le4: "(t :: byte) \<le> 4 \<Longrightarrow> t = 0 \<or> t = 1 \<or> t = 2 \<or> t = 3 \<or> t = 4"
proof -
  assume "t \<le> 4"
  then have "unat t \<le> 4" by (simp add: word_le_nat_alt)
  then have "unat t = 0 \<or> unat t = 1 \<or> unat t = 2 \<or> unat t = 3 \<or> unat t = 4" by auto
  then show ?thesis unfolding word_unat_eq_iff by simp
qed

text \<open>The effect of one known entry.\<close>

definition add_entry :: "byte \<times> byte \<Rightarrow> mpstate \<Rightarrow> mpstate" where
  "add_entry e s =
     (if fst e = 0 then if length (mp_cpus s) < NCPU then s\<lparr>mp_cpus := mp_cpus s @ [snd e]\<rparr> else s
      else if fst e = 2 then s\<lparr>mp_ioapicid := snd e\<rparr> else s)"

lemma mp_loop_known:
  assumes "p < e" and "m p \<le> 4"
  shows "mp_loop (Suc n) m e p s = mp_loop n m e (p + entry_size (m p)) (add_entry (m p, m (p + 1)) s)"
  using assms(1) byte_le4 [OF assms(2)] by (auto simp: entry_size_def add_entry_def)

lemma mp_loop_laid: "laid m e p es q \<Longrightarrow> mp_loop (length es + n) m e p s = mp_loop n m e q (fold add_entry es s)"
proof (induction es arbitrary: p s)
  case (Cons x es)
  obtain t d where x: "x = (t, d)" by (cases x)
  have a: "p < e" "m p \<le> 4" "m p = t" "m (p + 1) = d" "laid m e (p + entry_size t) es q" using Cons.prems x by auto
  show ?case using mp_loop_known [of p e m "length es + n" s, OF a(1,2)] Cons.IH [OF a(5)] a(3,4) by (simp add: x del: mp_loop.simps)
qed simp

lemma fold_add_entry:
  "length (mp_cpus s) \<le> NCPU \<Longrightarrow> mp_cpus (fold add_entry es s) = take NCPU (mp_cpus s @ cpu_ids es) \<and> mp_ismp (fold add_entry es s) = mp_ismp s"
proof (induction es arbitrary: s)
  case Nil
  then show ?case by (simp add: cpu_ids_def)
next
  case (Cons x es)
  then show ?case by (cases "length (mp_cpus s) < NCPU") (auto simp: add_entry_def cpu_ids_def take_Cons')
qed

lemma mp_loop_stuck: "q < e \<Longrightarrow> 4 < m q \<Longrightarrow> mp_loop n m e q s = Diverge"
proof (induction n arbitrary: s)
  case (Suc n)
  have "m q \<noteq> 0 \<and> m q \<noteq> 1 \<and> m q \<noteq> 2 \<and> m q \<noteq> 3 \<and> m q \<noteq> 4" using Suc.prems(2) by auto
  then show ?case using Suc by simp
qed simp

section \<open>Properties\<close>

text \<open>C37. The loop over the processor table ends on a table of known entries and finds its processors: when the entries
  fill the table, the loop returns, records the processors of the table in order up to \<open>NCPU\<close> of them and leaves \<open>ismp\<close> set.
  When an entry of an unknown type follows, the loop does not end, whatever its fuel, and the panic
  that is meant for this case is never reached.\<close>

theorem mp_table:
  assumes "laid m e p es q" and "length (mp_cpus s) \<le> NCPU"
  shows "(\<not> q < e \<longrightarrow> (\<exists>n s'. mp_loop n m e p s = Ok s' \<and> mp_cpus s' = take NCPU (mp_cpus s @ cpu_ids es) \<and> mp_ismp s' = mp_ismp s)) \<and>
    (q < e \<and> 4 < m q \<longrightarrow> (\<forall>n. mp_loop (length es + n) m e p s = Diverge))"
proof (intro conjI impI allI)
  assume "\<not> q < e"
  then have "mp_loop (length es + 1) m e p s = Ok (fold add_entry es s)" using mp_loop_laid [OF assms(1), of 1 s] by simp
  then show "\<exists>n s'. mp_loop n m e p s = Ok s' \<and> mp_cpus s' = take NCPU (mp_cpus s @ cpu_ids es) \<and> mp_ismp s' = mp_ismp s"
    using fold_add_entry [OF assms(2)] by blast
next
  fix n
  assume "q < e \<and> 4 < m q"
  then show "mp_loop (length es + n) m e p s = Diverge" using mp_loop_laid [OF assms(1), of n s] mp_loop_stuck by simp
qed

text \<open>Two processors and an interrupt controller, and behind them an entry of type 9.\<close>

definition sample_table :: mem where
  "sample_table = (\<lambda>_. 0)(101 := 7, 121 := 8, 140 := 2, 141 := 3, 148 := 9)"

definition sample_mp :: mpstate where
  "sample_mp = \<lparr>mp_cpus = [], mp_ioapicid = 0, mp_lapic = 0, mp_ismp = True\<rparr>"

theorem mp_table_witness:
  "(\<exists>n s'. mp_loop n sample_table 148 100 sample_mp = Ok s' \<and> mp_cpus s' = [7, 8]) \<and> (\<forall>n. mp_loop (3 + n) sample_table 200 100 sample_mp = Diverge)"
proof -
  have l: "laid sample_table e 100 [(0, 7), (0, 8), (2, 3)] 148" if "148 \<le> e" for e
  proof -
    have "100 < e" "120 < e" "140 < e" using that by (auto intro: less_le_trans [OF _ that])
    then show ?thesis by (simp add: sample_table_def entry_size_def)
  qed
  have s: "length (mp_cpus sample_mp) \<le> NCPU" by (simp add: sample_mp_def)
  have "\<exists>n s'. mp_loop n sample_table 148 100 sample_mp = Ok s' \<and> mp_cpus s' = [7, 8]"
    using mp_table [OF l s, of 148] by (auto simp: cpu_ids_def sample_mp_def NCPU_def)
  moreover have "\<forall>n. mp_loop (3 + n) sample_table 200 100 sample_mp = Diverge"
    using mp_table [OF l s, of 200] by (simp add: sample_table_def numeral_3_eq_3 del: mp_loop.simps)
  ultimately show ?thesis by simp
qed

end
