(* ===== verification/Apic.thy ===== *)
theory Apic
  imports Xv6_Prelude
begin

text \<open>
  The interrupt controllers and the clock chip (\<^verbatim>\<open>lapic.c\<close>, \<^verbatim>\<open>ioapic.c\<close>, \<^verbatim>\<open>picirq.c\<close>) and the set-up of the serial port
  (\<^verbatim>\<open>uart.c\<close>). What the kernel does to a device is the list of its writes, in order; what it reads from one is an argument.
\<close>

unbundle bit_operations_syntax

section \<open>Local interrupt controller\<close>

datatype dev_write =
    Outb ushort byte             \<comment> \<open>a port\<close>
  | Store16 uint ushort          \<comment> \<open>a physical address\<close>
  | Lapicw nat uint              \<comment> \<open>a register of the local controller\<close>
  | Ioapicw nat uint             \<comment> \<open>a register of the input-output controller\<close>

definition lapicw :: "nat \<Rightarrow> uint \<Rightarrow> dev_write list" where
  "lapicw i v = [Lapicw (i div 4) v]"

text \<open>\<open>ver\<close> is the version register and \<open>icr\<close> the values that the command register shows one after the other.\<close>

definition lapicinit :: "bool \<Rightarrow> uint \<Rightarrow> uint list \<Rightarrow> dev_write list outcome" where
  "lapicinit present ver icr =
     (if \<not> present then Ok []
      else let ws = lapicw 0x00F0 (0x00000100 OR (32 + 31)) @ lapicw 0x03E0 0x0000000B @ lapicw 0x0320 (0x00020000 OR (32 + 0)) @
             lapicw 0x0380 10000000 @ lapicw 0x0350 0x00010000 @ lapicw 0x0360 0x00010000 @
             (if 4 \<le> drop_bit 16 ver AND 0xFF then lapicw 0x0340 0x00010000 else []) @ lapicw 0x0370 (32 + 19) @
             lapicw 0x0280 0 @ lapicw 0x0280 0 @ lapicw 0x00B0 0 @ lapicw 0x0310 0 @
             lapicw 0x0300 (0x00080000 OR 0x00000500 OR 0x00008000)
        in if \<exists>v \<in> set icr. v AND 0x00001000 = 0 then Ok (ws @ lapicw 0x0080 0) else Diverge)"

definition lapicid :: "bool \<Rightarrow> uint \<Rightarrow> uint" where
  "lapicid present ident = (if \<not> present then 0 else drop_bit 24 ident)"

definition lapiceoi :: "bool \<Rightarrow> dev_write list" where
  "lapiceoi present = (if present then lapicw 0x00B0 0 else [])"

definition lapicstartap :: "byte \<Rightarrow> uint \<Rightarrow> dev_write list" where
  "lapicstartap apicid addr =
     (let hi = lapicw 0x0310 (push_bit 24 (ucast apicid)); st = hi @ lapicw 0x0300 (0x00000600 OR drop_bit 12 addr)
      in [Outb 0x70 0xF, Outb 0x71 0x0A, Store16 0x467 0, Store16 0x469 (ucast (drop_bit 4 addr))] @
         hi @ lapicw 0x0300 (0x00000500 OR 0x00008000 OR 0x00004000) @ lapicw 0x0300 (0x00000500 OR 0x00008000) @ st @ st)"

section \<open>The clock\<close>

record rtcdate =
  second :: uint
  minute :: uint
  hour :: uint
  day :: uint
  month :: uint
  year :: uint

text \<open>\<open>rtc k r\<close> is what the \<open>k\<close>th read of the chip gives when it asks for register \<open>r\<close>.\<close>

definition fill_rtcdate :: "(nat \<Rightarrow> uint \<Rightarrow> byte) \<Rightarrow> nat \<Rightarrow> rtcdate \<times> nat" where
  "fill_rtcdate rtc k =
     (\<lparr>second = ucast (rtc k 0), minute = ucast (rtc (k + 1) 2), hour = ucast (rtc (k + 2) 4), day = ucast (rtc (k + 3) 7),
       month = ucast (rtc (k + 4) 8), year = ucast (rtc (k + 5) 9)\<rparr>, k + 6)"

text \<open>Read twice until nothing changes in between and no update is in progress.\<close>

fun stable_date :: "nat \<Rightarrow> (nat \<Rightarrow> uint \<Rightarrow> byte) \<Rightarrow> nat \<Rightarrow> rtcdate outcome" where
  "stable_date 0 rtc k = Diverge"
| "stable_date (Suc fuel) rtc k =
     (let (t1, k) = fill_rtcdate rtc k in
      if rtc k 0x0a AND 0x80 \<noteq> 0 then stable_date fuel rtc (k + 1)
      else let (t2, k) = fill_rtcdate rtc (k + 1) in if t1 = t2 then Ok t1 else stable_date fuel rtc k)"

definition conv :: "uint \<Rightarrow> uint" where
  "conv x = drop_bit 4 x * 10 + (x AND 0xf)"

definition cmostime :: "nat \<Rightarrow> (nat \<Rightarrow> uint \<Rightarrow> byte) \<Rightarrow> rtcdate outcome" where
  "cmostime fuel rtc =
     (let bcd = (rtc 0 0x0b AND 4 = 0) in
      obind (stable_date fuel rtc 1) (\<lambda>t.
      let t = (if bcd then \<lparr>second = conv (second t), minute = conv (minute t), hour = conv (hour t), day = conv (day t),
                 month = conv (month t), year = conv (year t)\<rparr> else t)
      in Ok (t\<lparr>year := year t + 2000\<rparr>)))"

section \<open>Input-output interrupt controller\<close>

type_synonym ioregs = "nat \<Rightarrow> uint"

definition ioapicwrite :: "nat \<Rightarrow> uint \<Rightarrow> ioregs \<Rightarrow> ioregs" where
  "ioapicwrite r v io = io(r := v)"

text \<open>The result says whether the controller has the number that the processor table gives.\<close>

definition ioapicinit :: "uint \<Rightarrow> ioregs \<Rightarrow> bool \<times> ioregs" where
  "ioapicinit ioapicid io =
     (let maxintr = unat (drop_bit 16 (io 1) AND 0xFF)
      in (drop_bit 24 (io 0) = ioapicid,
          fold (\<lambda>i io. ioapicwrite (16 + 2 * i + 1) 0 (ioapicwrite (16 + 2 * i) (0x00010000 OR (32 + of_nat i)) io)) [0..<maxintr + 1] io))"

definition ioapicenable :: "nat \<Rightarrow> uint \<Rightarrow> ioregs \<Rightarrow> ioregs" where
  "ioapicenable irq cpunum io =
     ioapicwrite (16 + 2 * irq + 1) (push_bit 24 cpunum) (ioapicwrite (16 + 2 * irq) (32 + of_nat irq) io)"

definition picinit :: "dev_write list" where
  "picinit = [Outb 0x21 0xFF, Outb 0xA1 0xFF]"

section \<open>Serial port\<close>

text \<open>The writes up to the test of the status, and whether there is a port.\<close>

definition uartinit :: "byte \<Rightarrow> dev_write list \<times> bool" where
  "uartinit status =
     ([Outb 0x3fa 0, Outb 0x3fb 0x80, Outb 0x3f8 12, Outb 0x3f9 0, Outb 0x3fb 0x03, Outb 0x3fc 0, Outb 0x3f9 0x01] @
      (if status = 0xFF then []
       else [Ioapicw (16 + 2 * 4) (32 + 4), Ioapicw (16 + 2 * 4 + 1) 0] @
         map (Outb 0x3f8) [0x78, 0x76, 0x36, 0x2e, 0x2e, 0x2e, 0x0a]),
      status \<noteq> 0xFF)"

definition uartgetc :: "bool \<Rightarrow> byte \<Rightarrow> byte \<Rightarrow> int" where
  "uartgetc present lsr c = (if \<not> present \<or> lsr AND 1 = 0 then - 1 else uint c)"

section \<open>Laws\<close>

text \<open>The binary-coded decimal of a number below one hundred.\<close>

definition bcd :: "nat \<Rightarrow> byte" where
  "bcd n = of_nat (n div 10 * 16 + n mod 10)"

lemma conv_bcd: "n < 100 \<Longrightarrow> conv (ucast (bcd n)) = of_nat n"
proof -
  assume "n < 100"
  then have "n \<in> set [0..<100]" by simp
  moreover have "list_all (\<lambda>n. conv (ucast (bcd n)) = of_nat n) [0..<100]" by code_simp
  ultimately show ?thesis unfolding list_all_iff by blast
qed

lemma ioapicinit_loop:
  "fold (\<lambda>i io. ioapicwrite (16 + 2 * i + 1) 0 (ioapicwrite (16 + 2 * i) (0x00010000 OR (32 + of_nat i)) io)) [0..<n] io (16 + 2 * i) =
     (if i < n then 0x00010000 OR (32 + of_nat i) else io (16 + 2 * i)) \<and>
   fold (\<lambda>i io. ioapicwrite (16 + 2 * i + 1) 0 (ioapicwrite (16 + 2 * i) (0x00010000 OR (32 + of_nat i)) io)) [0..<n] io (16 + 2 * i + 1) =
     (if i < n then 0 else io (16 + 2 * i + 1))"
proof (induction n)
  case (Suc n)
  have "16 + 2 * i \<noteq> 16 + 2 * n + 1" "16 + 2 * i + 1 \<noteq> 16 + 2 * n" by arith+
  then show ?case using Suc by (auto simp: ioapicwrite_def)
qed simp

section \<open>Decoding the clock and enabling interrupts\<close>

text \<open>The clock is read and decoded correctly: when the chip shows one date in binary-coded decimal for the whole time and no update
  is in progress, \<open>cmostime\<close> returns this date, with the year in the twenty-first century.\<close>

theorem cmostime_decodes:
  assumes "\<forall>k. rtc k 0 = bcd s \<and> rtc k 2 = bcd m \<and> rtc k 4 = bcd h \<and> rtc k 7 = bcd d \<and> rtc k 8 = bcd mo \<and> rtc k 9 = bcd y"
    and "\<forall>k. rtc k 0x0a AND 0x80 = 0" and "rtc 0 0x0b AND 4 = 0"
    and "s < 100" "m < 100" "h < 100" "d < 100" "mo < 100" "y < 100"
  shows "cmostime (Suc n) rtc = Ok \<lparr>second = of_nat s, minute = of_nat m, hour = of_nat h, day = of_nat d, month = of_nat mo, year = of_nat (2000 + y)\<rparr>"
  using assms by (simp add: cmostime_def fill_rtcdate_def conv_bcd Let_def)

theorem cmostime_decodes_witness:
  "cmostime 1 (\<lambda>k r. if r = 0 then 0x59 else if r = 2 then 0x30 else if r = 4 then 0x23 else if r = 7 then 0x31 else if r = 8 then 0x12
     else if r = 9 then 0x19 else 0) =
   Ok \<lparr>second = 59, minute = 30, hour = 23, day = 31, month = 12, year = 2019\<rparr>"
  using cmostime_decodes [of "\<lambda>k r. if r = 0 then 0x59 else if r = 2 then 0x30 else if r = 4 then 0x23 else if r = 7 then 0x31 else if r = 8 then 0x12
     else if r = 9 then 0x19 else 0" 59 30 23 31 12 19 0] by (simp add: bcd_def)

text \<open>Enabling one interrupt leaves the others masked: after \<open>ioapicinit\<close> and \<open>ioapicenable\<close>, the entry of the given interrupt is enabled and
  routed to the given processor, and every other interrupt of the controller is disabled and routed to none.\<close>

theorem ioapic_enables_one:
  assumes "i \<le> unat (drop_bit 16 (io 1) AND 0xFF)" and "io' = ioapicenable irq cpunum (snd (ioapicinit ident io))"
  shows "io' (16 + 2 * i) = (if i = irq then 32 + of_nat irq else 0x00010000 OR (32 + of_nat i)) \<and>
    io' (16 + 2 * i + 1) = (if i = irq then push_bit 24 cpunum else 0)"
proof -
  have ne: "16 + 2 * i \<noteq> 16 + 2 * irq + 1" "16 + 2 * i + 1 \<noteq> 16 + 2 * irq" by arith+
  show ?thesis using assms(1) ne ioapicinit_loop [of "Suc (unat (drop_bit 16 (io 1) AND 0xFF))" io i]
    unfolding assms(2) ioapicinit_def Let_def ioapicenable_def by (auto simp: ioapicwrite_def)
qed

theorem ioapic_enables_one_witness:
  "ioapicenable 1 0 (snd (ioapicinit 0 (\<lambda>r. if r = 1 then 0x170000 else 0))) 18 = 33 \<and>
   ioapicenable 1 0 (snd (ioapicinit 0 (\<lambda>r. if r = 1 then 0x170000 else 0))) 20 = 0x00010000 OR 34"
  using ioapic_enables_one [of 1 "\<lambda>r. if r = 1 then 0x170000 else 0" _ 1 0 0, OF _ refl]
    ioapic_enables_one [of 2 "\<lambda>r. if r = 1 then 0x170000 else 0" _ 1 0 0, OF _ refl] by simp

end
