(* ===== verification/Boot.thy ===== *)
theory Boot
  imports Kalloc
begin

unbundle bit_operations_syntax

text \<open>
  The boot loader (\<^verbatim>\<open>bootmain.c\<close>), the descriptors of segments and interrupt gates (\<^verbatim>\<open>mmu.h\<close>) with the tables that seginit and tvinit fill with
  them, and the page directory that the kernel starts with. The drive is a parameter: the bytes of the sector whose number was written to its registers.
\<close>

section \<open>The boot loader\<close>

definition SECTSIZE :: uint where "SECTSIZE = 512"
definition ELF_MAGIC_boot :: uint where "ELF_MAGIC_boot = 0x464C457F"

primrec insb :: "byte list \<Rightarrow> uint \<Rightarrow> mem \<Rightarrow> mem" where
  "insb [] a m = m"
| "insb (b # bs) a m = insb bs (a + 1) (m(a := b))"

definition readsect :: "(uint \<Rightarrow> byte list) \<Rightarrow> uint \<Rightarrow> uint \<Rightarrow> mem \<Rightarrow> mem" where
  "readsect drive dst off m = insb (take (unat SECTSIZE) (drive off)) dst m"

fun readseg_loop :: "nat \<Rightarrow> (uint \<Rightarrow> byte list) \<Rightarrow> uint \<Rightarrow> uint \<Rightarrow> uint \<Rightarrow> mem \<Rightarrow> mem outcome" where
  "readseg_loop 0 drive epa pa off m = (if pa < epa then Diverge else Ok m)"
| "readseg_loop (Suc n) drive epa pa off m =
     (if pa < epa then readseg_loop n drive epa (pa + SECTSIZE) (off + 1) (readsect drive pa off m) else Ok m)"

text \<open>No loop without wrap-around passes more sectors than the address space has.\<close>

definition boot_fuel :: nat where "boot_fuel = 2 ^ 23"

definition readseg :: "(uint \<Rightarrow> byte list) \<Rightarrow> uint \<Rightarrow> uint \<Rightarrow> uint \<Rightarrow> mem \<Rightarrow> mem outcome" where
  "readseg drive pa count off m =
     (let epa = pa + count; pa = pa - off mod SECTSIZE; off = off div SECTSIZE + 1 in readseg_loop boot_fuel drive epa pa off m)"

text \<open>The loop over the program headers, which it reads from the memory that it also loads into.\<close>

fun boot_segs :: "nat \<Rightarrow> (uint \<Rightarrow> byte list) \<Rightarrow> uint \<Rightarrow> uint \<Rightarrow> mem \<Rightarrow> mem outcome" where
  "boot_segs 0 drive ph eph m = (if ph < eph then Diverge else Ok m)"
| "boot_segs (Suc n) drive ph eph m =
     (if ph < eph then
        let pa = load32 m (ph + 12); filesz = load32 m (ph + 16) in
        obind (readseg drive pa filesz (load32 m (ph + 4)) m) (\<lambda>m.
        let memsz = load32 m (ph + 20); filesz = load32 m (ph + 16);
            m = (if memsz > filesz then stosb (unat (memsz - filesz)) (pa + filesz) 0 m else m)
        in boot_segs n drive (ph + 32) eph m)
      else Ok m)"

text \<open>Where the loader jumps, or None when the image is not an ELF file.\<close>

definition bootmain :: "(uint \<Rightarrow> byte list) \<Rightarrow> mem \<Rightarrow> (uint option \<times> mem) outcome" where
  "bootmain drive m =
     (let elf = 0x10000 in
      obind (readseg drive elf 4096 0 m) (\<lambda>m.
      if load32 m elf \<noteq> ELF_MAGIC_boot then Ok (None, m)
      else
        let ph = elf + load32 m (elf + 28); phnum = unat (bytes_u16 [m (elf + 44), m (elf + 45)]); eph = ph + 32 * of_nat phnum in
        obind (boot_segs phnum drive ph eph m) (\<lambda>m. Ok (Some (load32 m (elf + 24)), m))))"

section \<open>Descriptors\<close>

record segdesc =
  lim_15_0 :: "16 word"
  base_15_0 :: "16 word"
  base_23_16 :: "8 word"
  sd_type :: "4 word"
  sd_s :: "1 word"
  sd_dpl :: "2 word"
  sd_p :: "1 word"
  lim_19_16 :: "4 word"
  sd_avl :: "1 word"
  sd_rsv1 :: "1 word"
  sd_db :: "1 word"
  sd_g :: "1 word"
  base_31_24 :: "8 word"

definition SEG :: "4 word \<Rightarrow> uint \<Rightarrow> uint \<Rightarrow> 2 word \<Rightarrow> segdesc" where
  "SEG ty b lim dpl = \<lparr>lim_15_0 = ucast (drop_bit 12 lim AND 0xffff), base_15_0 = ucast (b AND 0xffff),
     base_23_16 = ucast (drop_bit 16 b AND 0xff), sd_type = ty, sd_s = 1, sd_dpl = dpl, sd_p = 1, lim_19_16 = ucast (drop_bit 28 lim),
     sd_avl = 0, sd_rsv1 = 0, sd_db = 1, sd_g = 1, base_31_24 = ucast (drop_bit 24 b)\<rparr>"

definition SEG16 :: "4 word \<Rightarrow> uint \<Rightarrow> uint \<Rightarrow> 2 word \<Rightarrow> segdesc" where
  "SEG16 ty b lim dpl = \<lparr>lim_15_0 = ucast (lim AND 0xffff), base_15_0 = ucast (b AND 0xffff),
     base_23_16 = ucast (drop_bit 16 b AND 0xff), sd_type = ty, sd_s = 1, sd_dpl = dpl, sd_p = 1, lim_19_16 = ucast (drop_bit 16 lim),
     sd_avl = 0, sd_rsv1 = 0, sd_db = 1, sd_g = 0, base_31_24 = ucast (drop_bit 24 b)\<rparr>"

record gatedesc =
  off_15_0 :: "16 word"
  gd_cs :: "16 word"
  gd_args :: "5 word"
  gd_rsv1 :: "3 word"
  gd_type :: "4 word"
  gd_s :: "1 word"
  gd_dpl :: "2 word"
  gd_p :: "1 word"
  off_31_16 :: "16 word"

definition SETGATE :: "bool \<Rightarrow> 16 word \<Rightarrow> uint \<Rightarrow> 2 word \<Rightarrow> gatedesc" where
  "SETGATE istrap sel off d = \<lparr>off_15_0 = ucast (off AND 0xffff), gd_cs = sel, gd_args = 0, gd_rsv1 = 0,
     gd_type = (if istrap then 0xF else 0xE), gd_s = 0, gd_dpl = d, gd_p = 1, off_31_16 = ucast (drop_bit 16 off)\<rparr>"

definition seginit :: "segdesc list \<Rightarrow> segdesc list outcome" where
  "seginit gdt =
     obind (aset gdt 1 (SEG 0xA 0 0xffffffff 0)) (\<lambda>gdt.
     obind (aset gdt 2 (SEG 2 0 0xffffffff 0)) (\<lambda>gdt.
     obind (aset gdt 3 (SEG 0xA 0 0xffffffff 3)) (\<lambda>gdt.
     aset gdt 4 (SEG 2 0 0xffffffff 3))))"

definition T_SYSCALL_gate :: nat where "T_SYSCALL_gate = 64"

definition tvinit :: "(nat \<Rightarrow> uint) \<Rightarrow> gatedesc list" where
  "tvinit vectors = (map (\<lambda>i. SETGATE False 8 (vectors i) 0) [0..<256])[T_SYSCALL_gate := SETGATE True 8 (vectors T_SYSCALL_gate) 3]"

definition entrypgdir :: "uint list" where
  "entrypgdir = (replicate 1024 0)[0 := 0x83, unat (drop_bit 22 (KERNBASE :: uint)) := 0x83]"

section \<open>What the processor reads\<close>

definition gate_off :: "gatedesc \<Rightarrow> uint" where
  "gate_off g = ucast (off_15_0 g) OR push_bit 16 (ucast (off_31_16 g))"

definition seg_base :: "segdesc \<Rightarrow> uint" where
  "seg_base d = ucast (base_15_0 d) OR push_bit 16 (ucast (base_23_16 d)) OR push_bit 24 (ucast (base_31_24 d))"

text \<open>The address of the last byte of a segment that counts its limit in pages.\<close>

definition seg_last :: "segdesc \<Rightarrow> uint" where
  "seg_last d = push_bit 12 (ucast (lim_15_0 d) OR push_bit 16 (ucast (lim_19_16 d))) OR 0xfff"

lemma low_masks: "(0xffff :: uint) = mask 16" "(0xff :: uint) = mask 8"
  by (simp_all add: mask_eq_exp_minus_1)

lemma gate_off_SETGATE: "gate_off (SETGATE t sel off d) = off"
proof (rule bit_word_eqI)
  fix n assume "n < LENGTH(32)"
  then show "bit (gate_off (SETGATE t sel off d)) n = bit off n"
    by (cases "n < 16") (auto simp: gate_off_def SETGATE_def low_masks bit_simps)
qed

lemma seg_base_SEG: "seg_base (SEG ty b lim dpl) = b" "seg_base (SEG16 ty b lim dpl) = b"
proof -
  have "bit (ucast (ucast (b AND mask 16) :: 16 word) OR push_bit 16 (ucast (ucast (drop_bit 16 b AND mask 8) :: 8 word))
      OR push_bit 24 (ucast (ucast (drop_bit 24 b) :: 8 word)) :: uint) n = bit b n" if "n < 32" for n
    using that by (cases "n < 16"; cases "n < 24") (auto simp: bit_simps)
  then have "ucast (ucast (b AND mask 16) :: 16 word) OR push_bit 16 (ucast (ucast (drop_bit 16 b AND mask 8) :: 8 word))
      OR push_bit 24 (ucast (ucast (drop_bit 24 b) :: 8 word)) = b" by (intro bit_word_eqI) simp
  then show "seg_base (SEG ty b lim dpl) = b" "seg_base (SEG16 ty b lim dpl) = b"
    by (simp_all add: seg_base_def SEG_def SEG16_def low_masks)
qed

text \<open>Every interrupt enters the kernel at its own vector, in the code segment of the kernel; a program can raise only the system call, and only
  the system call leaves interrupts enabled.\<close>

lemma tvinit_gates:
  assumes "i < 256"
  shows "gate_off (tvinit vectors ! i) = vectors i" and "gd_cs (tvinit vectors ! i) = 8"
    and "gd_dpl (tvinit vectors ! i) = 3 \<longleftrightarrow> i = 64" and "gd_type (tvinit vectors ! i) = 0xF \<longleftrightarrow> i = 64"
proof -
  have n: "tvinit vectors ! i = SETGATE (i = 64) 8 (vectors i) (if i = 64 then 3 else 0)"
    using assms by (simp add: tvinit_def T_SYSCALL_gate_def nth_list_update)
  show "gate_off (tvinit vectors ! i) = vectors i" by (simp add: n gate_off_SETGATE)
  show "gd_cs (tvinit vectors ! i) = 8" "gd_dpl (tvinit vectors ! i) = 3 \<longleftrightarrow> i = 64" "gd_type (tvinit vectors ! i) = 0xF \<longleftrightarrow> i = 64"
    by (simp_all add: n SETGATE_def)
qed

text \<open>The four segments cover the whole address space; the privilege level of two of them is that of user programs.\<close>

lemma seginit_flat:
  assumes "seginit gdt = Ok gdt'" and "i \<in> {1, 2, 3, 4}"
  shows "seg_base (gdt' ! i) = 0" and "seg_last (gdt' ! i) = - 1" and "sd_dpl (gdt' ! i) = 3 \<longleftrightarrow> i \<ge> 3"
proof -
  have "gdt' = gdt[1 := SEG 0xA 0 0xffffffff 0, 2 := SEG 2 0 0xffffffff 0, 3 := SEG 0xA 0 0xffffffff 3, 4 := SEG 2 0 0xffffffff 3]" "4 < length gdt"
    using assms(1) by (auto simp: seginit_def aset_def split: if_splits elim!: obind_OkE)
  then have "gdt' ! i = SEG (if odd i then 0xA else 2) 0 0xffffffff (if i \<ge> 3 then 3 else 0)" using assms(2) by auto
  then show "seg_base (gdt' ! i) = 0" and "seg_last (gdt' ! i) = - 1" and "sd_dpl (gdt' ! i) = 3 \<longleftrightarrow> i \<ge> 3"
    by (simp_all add: seg_base_SEG) (simp_all add: seg_last_def SEG_def)
qed

section \<open>What the loader loads\<close>

lemma insb_bytes:
  "unat a + length bs \<le> 2 ^ 32 \<Longrightarrow>
   insb bs a m x = (if unat a \<le> unat x \<and> unat x < unat a + length bs then bs ! (unat x - unat a) else m x)"
proof (induction bs arbitrary: a m)
  case (Cons b bs)
  show ?case
  proof (cases "bs = []")
    case True
    then show ?thesis by (auto simp: word_unat_eq_iff)
  next
    case False
    then have "unat a + 1 < 2 ^ 32" using Cons.prems by (cases bs) auto
    then have a: "unat (a + 1) = unat a + 1" by (simp add: unat_word_ariths)
    have p1: "unat (a + 1) + length bs \<le> 2 ^ 32" using Cons.prems a by simp
    have ih: "insb (b # bs) a m x =
        (if unat a + 1 \<le> unat x \<and> unat x < unat a + 1 + length bs then bs ! (unat x - (unat a + 1)) else (m(a := b)) x)"
      by (simp only: insb.simps Cons.IH [OF p1] a)
    show ?thesis
    proof (cases "unat x \<le> unat a")
      case True
      then show ?thesis unfolding ih by (auto simp: word_unat_eq_iff)
    next
      case False
      then have "unat x - unat a = Suc (unat x - (unat a + 1))" by simp
      then show ?thesis using False unfolding ih by (auto simp: word_unat_eq_iff)
    qed
  qed
qed auto

lemma readseg_loop_loads:
  assumes "\<And>n. length (drive n) = 512" and "unat epa + 512 \<le> 2 ^ 32" and "unat epa \<le> unat pa + 512 * n"
  shows "\<exists>m'. readseg_loop n drive epa pa off m = Ok m' \<and> (\<forall>x. unat x < unat pa \<longrightarrow> m' x = m x) \<and>
    (\<forall>x. unat pa \<le> unat x \<and> unat x < unat epa \<longrightarrow>
      m' x = drive (off + of_nat ((unat x - unat pa) div 512)) ! ((unat x - unat pa) mod 512))"
  using assms(3)
proof (induction n arbitrary: pa off m)
  case 0
  then show ?case by (auto simp: word_less_nat_alt)
next
  case (Suc n)
  show ?case
  proof (cases "pa < epa")
    case False
    then show ?thesis by (auto simp: word_less_nat_alt)
  next
    case True
    then have lt: "unat pa < unat epa" by (simp add: word_less_nat_alt)
    let ?m = "readsect drive pa off m" and ?pa = "pa + SECTSIZE"
    have p: "unat ?pa = unat pa + 512" using lt assms(2) by (simp add: SECTSIZE_def unat_word_ariths)
    have "unat epa \<le> unat ?pa + 512 * n" using Suc.prems p by simp
    from Suc.IH [OF this, of "off + 1" ?m] obtain m' where m': "readseg_loop n drive epa ?pa (off + 1) ?m = Ok m'"
      and lo: "\<And>x. unat x < unat pa + 512 \<Longrightarrow> m' x = ?m x"
      and hi: "\<And>x. unat pa + 512 \<le> unat x \<Longrightarrow> unat x < unat epa \<Longrightarrow>
        m' x = drive (off + 1 + of_nat ((unat x - (unat pa + 512)) div 512)) ! ((unat x - (unat pa + 512)) mod 512)"
      unfolding p by blast
    have r: "?m x = (if unat pa \<le> unat x \<and> unat x < unat pa + 512 then drive off ! (unat x - unat pa) else m x)" for x
      using insb_bytes [of pa "drive off" m x] lt assms(1,2) by (simp add: readsect_def SECTSIZE_def)
    have "m' x = drive (off + of_nat ((unat x - unat pa) div 512)) ! ((unat x - unat pa) mod 512)" if "unat pa \<le> unat x" "unat x < unat epa" for x
    proof (cases "unat x < unat pa + 512")
      case True
      then show ?thesis using lo [OF True] r [of x] that by simp
    next
      case False
      define k where "k = unat x - (unat pa + 512)"
      have "unat x - unat pa = k + 512" using False by (simp add: k_def)
      moreover have "(k + 512) div 512 = Suc (k div 512)" by simp
      ultimately show ?thesis using hi [of x] False that by (simp add: ac_simps flip: k_def)
    qed
    moreover have "m' x = m x" if "unat x < unat pa" for x using lo [of x] r [of x] that by simp
    ultimately show ?thesis using m' True by simp
  qed
qed

text \<open>The byte \<open>k\<close> of the kernel image, which starts at sector 1.\<close>

definition image_byte :: "(uint \<Rightarrow> byte list) \<Rightarrow> nat \<Rightarrow> byte" where
  "image_byte drive k = drive (of_nat (k div 512) + 1) ! (k mod 512)"

lemma readseg_loads:
  assumes "\<And>n. length (drive n) = 512" and "unat pa + unat count + 512 \<le> 2 ^ 32" and "unat off mod 512 \<le> unat pa"
  shows "\<exists>m'. readseg drive pa count off m = Ok m' \<and> (\<forall>i < unat count. m' (pa + of_nat i) = image_byte drive (unat off + i))"
proof -
  let ?epa = "pa + count" and ?pa = "pa - off mod SECTSIZE" and ?r = "unat off mod 512"
  have e: "unat ?epa = unat pa + unat count" using assms(2) by (simp add: unat_word_ariths)
  have o: "unat (off mod SECTSIZE) = ?r" "unat (off div SECTSIZE) = unat off div 512" by (simp_all add: SECTSIZE_def unat_mod unat_div)
  have p: "unat ?pa = unat pa - ?r" using assms(3) by (simp add: unat_sub word_le_nat_alt o)
  have "unat ?epa + 512 \<le> 2 ^ 32" "unat ?epa \<le> unat ?pa + 512 * boot_fuel" using e assms(2) by (simp_all add: boot_fuel_def)
  from readseg_loop_loads [where drive = drive, OF assms(1) this, where off = "off div SECTSIZE + 1" and m = m]
  obtain m' where m: "readseg_loop boot_fuel drive ?epa ?pa (off div SECTSIZE + 1) m = Ok m'"
    and h: "\<And>x. unat ?pa \<le> unat x \<Longrightarrow> unat x < unat ?epa \<Longrightarrow>
      m' x = drive (off div SECTSIZE + 1 + of_nat ((unat x - unat ?pa) div 512)) ! ((unat x - unat ?pa) mod 512)" by blast
  have "m' (pa + of_nat i) = image_byte drive (unat off + i)" if "i < unat count" for i
  proof -
    have x: "unat (pa + of_nat i) = unat pa + i" using that assms(2) by (simp add: unat_word_ariths unat_of_nat)
    have d: "unat pa + i - (unat pa - ?r) = ?r + i" using assms(3) by simp
    have "unat off + i = ?r + i + 512 * (unat off div 512)" by simp
    then have k: "(unat off + i) div 512 = unat off div 512 + (?r + i) div 512" "(unat off + i) mod 512 = (?r + i) mod 512"
      by (simp_all only: div_mult_self2 mod_mult_self2)
    have q: "off div SECTSIZE = of_nat (unat off div 512)" by (simp flip: o(2))
    have "m' (pa + of_nat i) = drive (off div SECTSIZE + 1 + of_nat ((?r + i) div 512)) ! ((?r + i) mod 512)"
      using h [of "pa + of_nat i"] that unfolding x p d e by (simp only: le_trans [OF diff_le_self le_add1] add_less_cancel_left)
    then show ?thesis unfolding image_byte_def k q of_nat_add by (simp only: ac_simps)
  qed
  then show ?thesis unfolding readseg_def Let_def using m by blast
qed

end
