(* ===== verification/User_Lib.thy ===== *)
theory User_Lib
  imports Cstring Console
begin

text \<open>
  The formatted output of user programs (\<^verbatim>\<open>printf.c\<close>) and the system call \<^verbatim>\<open>read\<close> as user programs see it. The
  argument words of \<^verbatim>\<open>printf\<close> are those of the kernel's formatter; a pointer is given by the string it points to.
  An argument of the wrong sort, or a missing one, is undefined.
\<close>

section \<open>Formatted output\<close>

definition u_digit :: "nat \<Rightarrow> byte" where
  "u_digit d = (if d < 10 then 48 + of_nat d else 55 + of_nat d)"

text \<open>The digits in the order of the buffer, the lowest first; the number is the room left in the buffer.\<close>

fun u_digits :: "nat \<Rightarrow> nat \<Rightarrow> uint \<Rightarrow> byte list outcome" where
  "u_digits 0 base x = Undef"
| "u_digits (Suc n) base x =
     (if unat x div base \<noteq> 0
      then obind (u_digits n base (of_nat (unat x div base))) (\<lambda>ds. Ok (u_digit (unat x mod base) # ds))
      else Ok [u_digit (unat x mod base)])"

definition u_printint :: "uint \<Rightarrow> nat \<Rightarrow> bool \<Rightarrow> byte list outcome" where
  "u_printint xx base sgnd =
     (let neg = sgnd \<and> sint xx < 0 in
      obind (u_digits 16 base (if neg then - xx else xx)) (\<lambda>buf.
      if neg then if length buf < 16 then Ok (rev (buf @ [45])) else Undef else Ok (rev buf)))"

text \<open>The loop over the format; the flag is the state after a percent sign.\<close>

fun u_printf :: "bool \<Rightarrow> byte list \<Rightarrow> parg list \<Rightarrow> byte list outcome" where
  "u_printf st [] ap = Ok []"
| "u_printf False (c # fmt) ap =
     (if c = 37 then u_printf True fmt ap else obind (u_printf False fmt ap) (\<lambda>r. Ok (c # r)))"
| "u_printf True (c # fmt) ap =
     (if c = 100 then (case ap of Num n # ap \<Rightarrow> obind (u_printint n 10 True) (\<lambda>d. obind (u_printf False fmt ap) (\<lambda>r. Ok (d @ r))) | _ \<Rightarrow> Undef)
      else if c = 120 \<or> c = 112 then (case ap of Num n # ap \<Rightarrow> obind (u_printint n 16 False) (\<lambda>d. obind (u_printf False fmt ap) (\<lambda>r. Ok (d @ r))) | _ \<Rightarrow> Undef)
      else if c = 115 then (case ap of Str t # ap \<Rightarrow>
          obind (u_printf False fmt ap) (\<lambda>r. Ok ((case t of None \<Rightarrow> [40, 110, 117, 108, 108, 41] | Some t \<Rightarrow> t) @ r)) | _ \<Rightarrow> Undef)
      else if c = 99 then (case ap of Num n # ap \<Rightarrow> obind (u_printf False fmt ap) (\<lambda>r. Ok (ucast n # r)) | _ \<Rightarrow> Undef)
      else if c = 37 then obind (u_printf False fmt ap) (\<lambda>r. Ok (c # r))
      else obind (u_printf False fmt ap) (\<lambda>r. Ok (37 # c # r)))"

definition bytes_of :: "string \<Rightarrow> byte list" where
  "bytes_of t = map (\<lambda>c. of_nat (of_char c)) t"

definition say :: "string \<Rightarrow> parg list \<Rightarrow> byte list outcome" where
  "say fmt ap = u_printf False (bytes_of fmt) ap"

section \<open>Reading\<close>

text \<open>The result of \<^verbatim>\<open>read\<close> for at most \<open>n\<close> bytes: the bytes, none of them at the end of the file, or an error.\<close>

type_synonym 'w reader = "nat \<Rightarrow> 'w \<Rightarrow> byte list option \<times> 'w"

text \<open>Reading a file by its remaining bytes.\<close>

definition file_read :: "byte list reader" where
  "file_read n w = (Some (take n w), drop n w)"

text \<open>A source delivers some bytes in pieces of any size and then ends.\<close>

inductive delivers :: "'w reader \<Rightarrow> nat \<Rightarrow> 'w \<Rightarrow> byte list \<Rightarrow> bool" for rd n where
  delivers_end: "rd n w = (Some [], w') \<Longrightarrow> delivers rd n w []"
| delivers_more: "rd n w = (Some bs, w') \<Longrightarrow> bs \<noteq> [] \<Longrightarrow> delivers rd n w' ds \<Longrightarrow> delivers rd n w (bs @ ds)"

lemma file_delivers: "0 < n \<Longrightarrow> delivers file_read n ds ds"
proof (induction "length ds" arbitrary: ds rule: less_induct)
  case less
  show ?case
  proof (cases "ds = []")
    case True
    then show ?thesis by (simp add: delivers_end file_read_def)
  next
    case False
    then have "length (drop n ds) < length ds" using less.prems by (cases ds) auto
    then have "delivers file_read n (drop n ds) (drop n ds)" using less by blast
    then have "delivers file_read n ds (take n ds @ drop n ds)"
      using False less.prems by (intro delivers_more) (simp_all add: file_read_def)
    then show ?thesis by simp
  qed
qed

section \<open>Decimal numbers\<close>

definition decimal :: "byte list \<Rightarrow> bool" where
  "decimal ds \<longleftrightarrow> (\<forall>d \<in> set ds. 48 \<le> d \<and> d \<le> 57)"

abbreviation add_digit :: "uint \<Rightarrow> byte \<Rightarrow> uint" where
  "add_digit a c \<equiv> a * 10 + ucast c - 48"

lemma u_digit_decimal: "d < 10 \<Longrightarrow> 48 \<le> u_digit d \<and> u_digit d \<le> 57 \<and> ucast (u_digit d) = (48 + of_nat d :: uint)"
proof -
  assume "d < 10"
  then have "d \<in> {0, 1, 2, 3, 4, 5, 6, 7, 8, 9}" by auto
  then show ?thesis by (auto simp: u_digit_def)
qed

lemma word_div_mod_10: "of_nat (unat x div 10) * 10 + of_nat (unat x mod 10) = (x :: uint)"
proof -
  have "of_nat (unat x div 10) * 10 + of_nat (unat x mod 10) = (of_nat (unat x div 10 * 10 + unat x mod 10) :: uint)"
    by (simp only: of_nat_add of_nat_mult of_nat_numeral)
  also have "\<dots> = x" unfolding div_mult_mod_eq by simp
  finally show ?thesis .
qed

lemma u_digits_value:
  "unat x < 10 ^ Suc n \<Longrightarrow> \<exists>ds. u_digits (Suc n) 10 x = Ok ds \<and> decimal ds \<and> foldl add_digit 0 (rev ds) = x"
proof (induction n arbitrary: x)
  case 0
  then have "unat x < 10" by simp
  then show ?case using u_digit_decimal [of "unat x"] by (simp add: decimal_def)
next
  case (Suc n)
  let ?y = "of_nat (unat x div 10) :: uint"
  have y: "unat ?y = unat x div 10" 
    using unat_bound [of x] by (simp add: unat_of_nat take_bit_nat_eq_self)
  have d: "unat x mod 10 < 10" by simp
  have e: "foldl add_digit 0 (rev ds) * 10 + (48 + of_nat (unat x mod 10)) - 48 = x" if "foldl add_digit 0 (rev ds) = ?y" for ds
    unfolding that using word_div_mod_10 [of x] by simp
  show ?case
  proof (cases "unat x div 10 = 0")
    case True
    then have "?y = 0" by simp
    then show ?thesis using True u_digit_decimal [OF d] e [of "[]"] by (simp add: decimal_def)
  next
    case False
    have "unat ?y < 10 ^ Suc n" unfolding y using Suc.prems by (simp add: less_mult_imp_div_less)
    then obtain ds where "u_digits (Suc n) 10 ?y = Ok ds" "decimal ds" "foldl add_digit 0 (rev ds) = ?y" using Suc.IH by blast
    then show ?thesis using False u_digit_decimal [OF d] e [of ds] by (simp add: decimal_def)
  qed
qed

lemma atoi_loop_digits: "decimal ds \<Longrightarrow> cstr m s ds \<Longrightarrow> atoi_loop m s n = Some (foldl add_digit n ds)"
proof (induction ds arbitrary: s n)
  case Nil
  then show ?case by (subst atoi_loop.simps) simp
next
  case (Cons d ds)
  then show ?case by (subst atoi_loop.simps) (simp add: decimal_def)
qed

section \<open>Properties\<close>



end
