(* ===== verification/Grep.thy ===== *)
theory Grep
  imports User_Lib
begin

text \<open>
  The pattern matcher and the line filter of \<^verbatim>\<open>grep.c\<close>. A C string is the list of its bytes before the NUL.
  The matcher is compared with the language of the pattern, and the filter with the lines of the file.
\<close>

section \<open>The matcher\<close>

function matchhere :: "byte list \<Rightarrow> byte list \<Rightarrow> bool"
  and matchstar :: "byte \<Rightarrow> byte list \<Rightarrow> byte list \<Rightarrow> bool" where
  "matchhere re tx =
     (case re of [] \<Rightarrow> True
      | c # re' \<Rightarrow>
          if re' \<noteq> [] \<and> hd re' = 42 then matchstar c (tl re') tx
          else if c = 36 \<and> re' = [] then tx = []
          else (case tx of [] \<Rightarrow> False | t # ts \<Rightarrow> if c = 46 \<or> c = t then matchhere re' ts else False))"
| "matchstar c re tx =
     (if matchhere re tx then True
      else (case tx of [] \<Rightarrow> False | t # ts \<Rightarrow> if t = c \<or> c = 46 then matchstar c re ts else False))"
  by pat_completeness auto

termination
  by (relation "measure (\<lambda>x. case x of Inl (re, t) \<Rightarrow> 2 * (length re + length t) | Inr (c, re, t) \<Rightarrow> 2 * (length re + length t) + 1)")
    (auto simp: neq_Nil_conv)

declare matchhere.simps [simp del] matchstar.simps [simp del]

text \<open>The loop of \<open>match\<close> that tries every position of the tx, its end included.\<close>

fun match_from :: "byte list \<Rightarrow> byte list \<Rightarrow> bool" where
  "match_from re [] = matchhere re []"
| "match_from re (t # ts) = (if matchhere re (t # ts) then True else match_from re ts)"

definition match :: "byte list \<Rightarrow> byte list \<Rightarrow> bool" where
  "match re tx = (if re \<noteq> [] \<and> hd re = 94 then matchhere (tl re) tx else match_from re tx)"

section \<open>The filter\<close>

definition BUFSZ :: nat where "BUFSZ = 1024"

text \<open>The loop over the complete lines in the buffer: what is printed and what remains. The search for the end of a line stops at a NUL.\<close>

lemma drop_less: "10 \<in> set (takeWhile (\<lambda>c. c \<noteq> 0) p) \<Longrightarrow> length p - Suc n < length (p :: byte list)"
  by (cases p) auto

function grep_scan :: "byte list \<Rightarrow> byte list \<Rightarrow> byte list \<times> byte list" where
  "grep_scan re p =
     (if 10 \<in> set (takeWhile (\<lambda>c. c \<noteq> 0) p) then
        let line = takeWhile (\<lambda>c. c \<noteq> 10) p;
            (out, rest) = grep_scan re (drop (length line + 1) p)
        in ((if match re line then line @ [10] else []) @ out, rest)
      else ([], p))"
  by pat_completeness auto

termination by (relation "measure (\<lambda>(re, p). length p)") (auto simp: drop_less)

declare grep_scan.simps [simp del]

fun grep :: "nat \<Rightarrow> 'w reader \<Rightarrow> byte list \<Rightarrow> byte list \<Rightarrow> 'w \<Rightarrow> (byte list \<times> 'w) outcome" where
  "grep 0 rd re buf w = Diverge"
| "grep (Suc fuel) rd re buf w =
     (let (r, w) = rd (BUFSZ - length buf - 1) w in
      case r of None \<Rightarrow> Ok ([], w)
      | Some bs \<Rightarrow>
          if bs = [] then Ok ([], w)
          else let b = buf @ bs; (out, p) = grep_scan re b
            in obind (grep fuel rd re (if p = b then [] else p) w) (\<lambda>(r, w). Ok (out @ r, w)))"

section \<open>The language of a pattern\<close>

datatype item = Char byte | Rep byte

definition fits :: "byte \<Rightarrow> byte \<Rightarrow> bool" where
  "fits c t \<longleftrightarrow> c = 46 \<or> c = t"

text \<open>The items of a pattern without its anchor at the front, and whether a dollar sign anchors it at the end.\<close>

fun items :: "byte list \<Rightarrow> item list \<times> bool" where
  "items [] = ([], False)"
| "items [c] = (if c = 36 then ([], True) else ([Char c], False))"
| "items (c # d # re) =
     (if d = 42 then apfst (Cons (Rep c)) (items re) else apfst (Cons (Char c)) (items (d # re)))"

primrec lang :: "item list \<Rightarrow> byte list set" where
  "lang [] = {[]}"
| "lang (i # is) = (case i of
     Char c \<Rightarrow> {t # w | t w. fits c t \<and> w \<in> lang is}
   | Rep c \<Rightarrow> {u @ w | u w. (\<forall>t \<in> set u. fits c t) \<and> w \<in> lang is})"

text \<open>A tx matches at its front: one of its prefixes is in the language, the whole tx if the pattern is anchored at its end.\<close>

definition starts :: "item list \<times> bool \<Rightarrow> byte list \<Rightarrow> bool" where
  "starts p tx \<longleftrightarrow> (\<exists>v w. tx = v @ w \<and> v \<in> lang (fst p) \<and> (snd p \<longrightarrow> w = []))"

lemma starts_Nil: "starts ([], e) tx \<longleftrightarrow> e \<longrightarrow> tx = []"
  by (auto simp: starts_def)

lemma starts_Char:
  "starts (apfst (Cons (Char c)) p) tx \<longleftrightarrow> (\<exists>t ts. tx = t # ts \<and> fits c t \<and> starts p ts)"
proof
  assume "starts (apfst (Cons (Char c)) p) tx"
  then obtain v w where v: "tx = v @ w" "v \<in> lang (Char c # fst p)" "snd p \<longrightarrow> w = []" unfolding starts_def by auto
  then obtain t u where "v = t # u" "fits c t" "u \<in> lang (fst p)" by auto
  then show "\<exists>t ts. tx = t # ts \<and> fits c t \<and> starts p ts"
    unfolding starts_def using v(1,3) by (intro exI [of _ t] exI [of _ "u @ w"]) auto
next
  assume "\<exists>t ts. tx = t # ts \<and> fits c t \<and> starts p ts"
  then obtain t v w where "tx = (t # v) @ w" "fits c t" "v \<in> lang (fst p)" "snd p \<longrightarrow> w = []"
    unfolding starts_def by auto
  then show "starts (apfst (Cons (Char c)) p) tx"
    unfolding starts_def by (intro exI [of _ "t # v"] exI [of _ w]) simp
qed

lemma starts_Rep_iff:
  "starts (apfst (Cons (Rep c)) p) tx \<longleftrightarrow>
     (\<exists>u v. tx = u @ v \<and> (\<forall>t \<in> set u. fits c t) \<and> starts p v)"
proof
  assume "starts (apfst (Cons (Rep c)) p) tx"
  then obtain x w where x: "tx = x @ w" "x \<in> lang (Rep c # fst p)" "snd p \<longrightarrow> w = []" unfolding starts_def by auto
  then obtain u v where "x = u @ v" "\<forall>t \<in> set u. fits c t" "v \<in> lang (fst p)" by auto
  with x(1,3) have "tx = (u @ v) @ w" "\<forall>t \<in> set u. fits c t" "v \<in> lang (fst p)" "snd p \<longrightarrow> w = []" by simp_all
  then show "\<exists>u v. tx = u @ v \<and> (\<forall>t \<in> set u. fits c t) \<and> starts p v"
    unfolding starts_def by (intro exI [of _ u] exI [of _ "v @ w"]) auto
next
  assume "\<exists>u v. tx = u @ v \<and> (\<forall>t \<in> set u. fits c t) \<and> starts p v"
  then obtain u v w where "tx = u @ v @ w" "\<forall>t \<in> set u. fits c t" "v \<in> lang (fst p)" "snd p \<longrightarrow> w = []"
    unfolding starts_def by blast
  then show "starts (apfst (Cons (Rep c)) p) tx"
    unfolding starts_def by (intro exI [of _ "u @ v"] exI [of _ w]) auto
qed

lemma starts_Rep:
  "starts (apfst (Cons (Rep c)) p) tx \<longleftrightarrow> starts p tx \<or> (\<exists>t ts. tx = t # ts \<and> fits c t \<and> starts (apfst (Cons (Rep c)) p) ts)"
proof
  assume "starts (apfst (Cons (Rep c)) p) tx"
  then obtain u v where t: "tx = u @ v" "\<forall>t \<in> set u. fits c t" "starts p v" unfolding starts_Rep_iff by blast
  then show "starts p tx \<or> (\<exists>t ts. tx = t # ts \<and> fits c t \<and> starts (apfst (Cons (Rep c)) p) ts)"
    unfolding starts_Rep_iff by (cases u) auto
next
  assume "starts p tx \<or> (\<exists>t ts. tx = t # ts \<and> fits c t \<and> starts (apfst (Cons (Rep c)) p) ts)"
  then show "starts (apfst (Cons (Rep c)) p) tx"
  proof (elim disjE exE conjE)
    assume "starts p tx"
    then show ?thesis unfolding starts_Rep_iff by (intro exI [of _ "[]"] exI [of _ tx]) simp
  next
    fix t ts
    assume a: "tx = t # ts" "fits c t" "starts (apfst (Cons (Rep c)) p) ts"
    then obtain u v where "ts = u @ v" "\<forall>t \<in> set u. fits c t" "starts p v" unfolding starts_Rep_iff by blast
    then show ?thesis unfolding starts_Rep_iff using a(1,2) by (intro exI [of _ "t # u"] exI [of _ v]) simp
  qed
qed

lemma starts_one: "starts ([Char c], False) tx \<longleftrightarrow> (\<exists>t ts. tx = t # ts \<and> fits c t)"
  using starts_Char [of c "([], False)" tx] by (simp add: starts_Nil)

lemma matchhere_one: "matchhere [c] tx \<longleftrightarrow> starts (items [c]) tx"
proof (cases tx)
  case Nil
  then show ?thesis by (simp add: matchhere.simps starts_one starts_Nil)
next
  case (Cons t ts)
  moreover have "matchhere [] ts" by (simp add: matchhere.simps)
  ultimately show ?thesis by (subst matchhere.simps) (simp add: starts_one starts_Nil fits_def)
qed

lemma matchhere_char:
  assumes "d \<noteq> 42"
  shows "matchhere (c # d # re) tx \<longleftrightarrow> (\<exists>t ts. tx = t # ts \<and> fits c t \<and> matchhere (d # re) ts)"
  using assms by (subst matchhere.simps, cases tx) (auto simp: fits_def)

lemma matchhere_star: "matchhere (c # 42 # re) tx \<longleftrightarrow> matchstar c re tx"
  by (subst matchhere.simps) simp

lemma matchstar_step:
  "matchstar c re tx \<longleftrightarrow> matchhere re tx \<or> (\<exists>t ts. tx = t # ts \<and> fits c t \<and> matchstar c re ts)"
  by (subst matchstar.simps) (auto simp: fits_def split: list.split)

lemma matchstar_starts:
  assumes "\<And>tx. matchhere re tx \<longleftrightarrow> starts (items re) tx"
  shows "matchstar c re tx \<longleftrightarrow> starts (apfst (Cons (Rep c)) (items re)) tx"
proof (induction tx)
  case Nil
  then show ?case unfolding matchstar_step [of c re "[]"] starts_Rep [of c "items re" "[]"] assms by simp
next
  case (Cons t ts)
  then show ?case unfolding matchstar_step [of c re "t # ts"] starts_Rep [of c "items re" "t # ts"] assms by simp
qed

lemma matchhere_starts: "matchhere re tx \<longleftrightarrow> starts (items re) tx"
proof (induction re arbitrary: tx rule: items.induct)
  case 1
  then show ?case by (simp add: matchhere.simps starts_Nil)
next
  case (2 c)
  then show ?case by (rule matchhere_one)
next
  case (3 c d re)
  show ?case
  proof (cases "d = 42")
    case True
    show ?thesis unfolding True matchhere_star matchstar_starts [OF "3.IH"(1) [OF True]] by simp
  next
    case False
    show ?thesis unfolding matchhere_char [OF False] "3.IH"(2) [OF False] by (simp add: False starts_Char)
  qed
qed

lemma match_from_starts: "match_from re tx \<longleftrightarrow> (\<exists>u v. tx = u @ v \<and> starts (items re) v)"
proof (induction tx)
  case Nil
  then show ?case by (simp add: matchhere_starts)
next
  case (Cons t ts)
  show ?case unfolding match_from.simps matchhere_starts Cons.IH
    by (auto simp: Cons_eq_append_conv intro: exI [of _ "[]"])
qed

text \<open>A pattern is found in a text: some part of the text is in the language of the pattern; with the anchors the part begins where the text
  begins and ends where it ends.\<close>

definition found :: "byte list \<Rightarrow> byte list \<Rightarrow> bool" where
  "found re tx = (let front = (re \<noteq> [] \<and> hd re = 94); (its, back) = items (if front then tl re else re) in
     \<exists>u v w. tx = u @ v @ w \<and> v \<in> lang its \<and> (front \<longrightarrow> u = []) \<and> (back \<longrightarrow> w = []))"

section \<open>Lines\<close>

definition unlines :: "byte list list \<Rightarrow> byte list" where
  "unlines ls = concat (map (\<lambda>l. l @ [10]) ls)"

lemma unlines_simps [simp]: "unlines [] = []" "unlines (l # ls) = l @ 10 # unlines ls"
  by (simp_all add: unlines_def)

lemma takeWhile_line: "10 \<notin> set l \<Longrightarrow> takeWhile (\<lambda>c. c \<noteq> 10) (l @ 10 # r) = l"
  by (induction l) auto

lemma nul_free_line: "0 \<notin> set l \<Longrightarrow> 10 \<in> set (takeWhile (\<lambda>c. c \<noteq> 0) (l @ 10 # (r :: byte list)))"
  by (induction l) auto

definition good_line :: "byte list \<Rightarrow> bool" where
  "good_line l \<longleftrightarrow> 10 \<notin> set l \<and> 0 \<notin> set l \<and> length l < BUFSZ - 1"

lemma grep_scan_lines:
  assumes "\<forall>l \<in> set ls. good_line l" and "10 \<notin> set r"
  shows "grep_scan re (unlines ls @ r) = (unlines (filter (match re) ls), r)"
  using assms
proof (induction ls)
  case Nil
  then have "10 \<notin> set (takeWhile (\<lambda>c. c \<noteq> 0) r)" by (auto dest: set_takeWhileD)
  then show ?case by (simp add: grep_scan.simps)
next
  case (Cons l ls)
  have l: "10 \<notin> set l" "0 \<notin> set l" using Cons.prems by (simp_all add: good_line_def)
  show ?case using Cons nul_free_line [OF l(2)]
    by (subst grep_scan.simps) (simp add: takeWhile_line [OF l(1)] Let_def)
qed

lemma take_unlines:
  assumes "\<forall>l \<in> set ls. 10 \<notin> set l"
  shows "\<exists>ls1 r ls2. ls = ls1 @ ls2 \<and> take k (unlines ls) = unlines ls1 @ r \<and> 10 \<notin> set r \<and> r @ drop k (unlines ls) = unlines ls2 \<and>
    (ls \<noteq> [] \<and> length (hd ls) < k \<longrightarrow> ls1 \<noteq> [])"
  using assms
proof (induction ls arbitrary: k)
  case (Cons l ls)
  show ?case
  proof (cases "length l < k")
    case True
    then obtain n where k: "k = length l + Suc n" using less_iff_Suc_add by auto
    obtain ls1 r ls2 where "ls = ls1 @ ls2" "take n (unlines ls) = unlines ls1 @ r" "10 \<notin> set r" "r @ drop n (unlines ls) = unlines ls2"
      using Cons.IH [of n] Cons.prems by auto
    then show ?thesis by (intro exI [of _ "l # ls1"] exI [of _ r] exI [of _ ls2]) (simp add: k)
  next
    case False
    have "10 \<notin> set (take k l)" using Cons.prems by (auto dest: in_set_takeD)
    then show ?thesis using False
      by (intro exI [of _ "[]"] exI [of _ "take k l"] exI [of _ "l # ls"]) simp
  qed
qed simp

lemma partial_line_short:
  assumes "r @ d = unlines ls" and "10 \<notin> set r" and "\<forall>l \<in> set ls. good_line l"
  shows "length r < BUFSZ - 1"
proof (cases ls)
  case Nil
  then show ?thesis using assms(1) by (simp add: BUFSZ_def)
next
  case (Cons l ls')
  have "length r \<le> length l"
  proof (rule ccontr)
    assume "\<not> length r \<le> length l"
    then have n: "length l < length r" by simp
    have "(r @ d) ! length l = 10" unfolding assms(1) Cons by simp
    then have "r ! length l = 10" using n by (simp add: nth_append)
    then show False using assms(2) n nth_mem by metis
  qed
  then show ?thesis using assms(3) Cons by (simp add: good_line_def)
qed

lemma grep_file:
  assumes "buf @ data = unlines ls" and "10 \<notin> set buf" and "\<forall>l \<in> set ls. good_line l"
  shows "\<exists>n. grep n file_read re buf data = Ok (unlines (filter (match re) ls), [])"
  using assms
proof (induction "length data" arbitrary: buf data ls rule: less_induct)
  case less
  have short: "length buf < BUFSZ - 1" by (rule partial_line_short [OF less.prems])
  show ?case
  proof (cases "data = []")
    case True
    then have "ls = []" using less.prems(1,2) by (cases ls) auto
    then show ?thesis using True by (intro exI [of _ 1]) (simp add: file_read_def)
  next
    case False
    let ?n = "BUFSZ - length buf - 1"
    have k: "buf @ take ?n data = take (BUFSZ - 1) (unlines ls)" "drop ?n data = drop (BUFSZ - 1) (unlines ls)"
      using less.prems(1) [symmetric] short by simp_all
    obtain ls1 r ls2 where ls: "ls = ls1 @ ls2" "take (BUFSZ - 1) (unlines ls) = unlines ls1 @ r" "10 \<notin> set r"
      "r @ drop (BUFSZ - 1) (unlines ls) = unlines ls2" "ls \<noteq> [] \<and> length (hd ls) < BUFSZ - 1 \<longrightarrow> ls1 \<noteq> []"
      using take_unlines [of ls "BUFSZ - 1"] less.prems(3) by (auto simp: good_line_def)
    have "ls \<noteq> []" using False less.prems(1) by auto
    then have ne: "ls1 \<noteq> []" using ls(5) less.prems(3) by (cases ls) (auto simp: good_line_def)
    have scan: "grep_scan re (buf @ take ?n data) = (unlines (filter (match re) ls1), r)"
      unfolding k(1) ls(2) by (rule grep_scan_lines) (use ls less.prems(3) in auto)
    have "r \<noteq> buf @ take ?n data" unfolding k(1) ls(2) using ne by (cases ls1) auto
    moreover have "\<exists>m. grep m file_read re r (drop ?n data) = Ok (unlines (filter (match re) ls2), [])"
    proof (rule less.hyps)
      show "length (drop ?n data) < length data" using False short by (cases data) auto
      show "r @ drop ?n data = unlines ls2" unfolding k(2) by (rule ls(4))
      show "10 \<notin> set r" by (rule ls(3))
      show "\<forall>l \<in> set ls2. good_line l" using less.prems(3) ls(1) by simp
    qed
    then obtain m where "grep m file_read re r (drop ?n data) = Ok (unlines (filter (match re) ls2), [])" by (rule exE)
    moreover have "\<not> BUFSZ \<le> Suc (length buf)" using short by linarith
    ultimately show ?thesis using False scan ls(1)
      by (intro exI [of _ "Suc m"]) (simp add: file_read_def unlines_def)
  qed
qed

section \<open>Properties\<close>

text \<open>C33. The matcher decides the language of its patterns: \<open>match\<close> accepts a text exactly when the pattern, read as
  a sequence of characters, dots and starred characters with optional anchors, is found in it.\<close>

theorem match_found: "match re tx \<longleftrightarrow> found re tx"
proof -
  have s: "starts p v \<longleftrightarrow> (\<exists>x w. v = x @ w \<and> x \<in> lang (fst p) \<and> (snd p \<longrightarrow> w = []))" for p v by (rule starts_def)
  show ?thesis
  proof (cases "re \<noteq> [] \<and> hd re = 94")
    case True
    then show ?thesis by (simp add: match_def found_def matchhere_starts s split: prod.split)
  next
    case False
    then have "match re tx \<longleftrightarrow> (\<exists>u v. tx = u @ v \<and> starts (items re) v)" unfolding match_def match_from_starts by (simp only: if_False)
    then show ?thesis using False unfolding found_def s by (cases "items re") (simp add: Let_def, blast)
  qed
qed

text \<open>C34. On a file whose lines end in a newline, have no NUL and fit the buffer, \<open>grep\<close> ends and prints exactly the lines
  in which the pattern is found, in order.\<close>

theorem grep_prints_matches:
  assumes "\<forall>l \<in> set ls. good_line l"
  shows "\<exists>n. grep n file_read re [] (unlines ls) = Ok (unlines (filter (match re) ls), [])"
  using grep_file [of "[]" "unlines ls" ls re] assms by simp

theorem grep_prints_matches_witness:
  "\<exists>n. grep n file_read [94, 97] [] (unlines [[98, 97], [97, 98]]) = Ok (unlines [[97, 98]], [])"
  using grep_prints_matches [of "[[98, 97], [97, 98]]" "[94, 97]"]
  by (simp add: good_line_def BUFSZ_def match_def matchhere.simps)

text \<open>A last line without a newline is lost, whatever the pattern.\<close>

theorem grep_drops_last_line:
  assumes "10 \<notin> set l" and "length l < BUFSZ"
  shows "grep 3 file_read re [] l = Ok ([], [])"
  using assms by (simp add: grep_scan.simps numeral_3_eq_3 file_read_def) (auto dest: set_takeWhileD)

end
