(* ===== verification/Utilities.thy ===== *)
theory Utilities
  imports Grep
begin

text \<open>
  The small user programs: \<^verbatim>\<open>cat.c\<close>, \<^verbatim>\<open>wc.c\<close>, \<^verbatim>\<open>echo.c\<close>, \<^verbatim>\<open>ls.c\<close>, \<^verbatim>\<open>kill.c\<close>, \<^verbatim>\<open>ln.c\<close>, \<^verbatim>\<open>mkdir.c\<close>, \<^verbatim>\<open>rm.c\<close> and \<^verbatim>\<open>init.c\<close>. A program is a
  function of its arguments and of the system calls it makes, which act on a world \<open>'w\<close>; the result has what it prints.
\<close>

section \<open>Programs that read files\<close>

text \<open>The \<^verbatim>\<open>main\<close> that \<^verbatim>\<open>cat\<close>, \<^verbatim>\<open>wc\<close> and \<^verbatim>\<open>grep\<close> share: each file is opened, processed and closed in turn. The body gets the name
  and says whether the program goes on after it.\<close>

fun files_main :: "string \<Rightarrow> (byte list \<Rightarrow> 'w \<Rightarrow> bool \<times> 'w) \<Rightarrow> ('w \<Rightarrow> 'w) \<Rightarrow> (byte list \<Rightarrow> 'w \<Rightarrow> (byte list \<times> bool \<times> 'w) outcome) \<Rightarrow>
    byte list list \<Rightarrow> 'w \<Rightarrow> (byte list \<times> 'w) outcome" where
  "files_main msg opn cls body [] w = Ok ([], w)"
| "files_main msg opn cls body (a # as) w =
     (let (opened, w) = opn a w in
      if \<not> opened then obind (say msg [Str (Some a)]) (\<lambda>out. Ok (out, w))
      else obind (body a w) (\<lambda>(o1, alive, w).
        if \<not> alive then Ok (o1, w)
        else obind (files_main msg opn cls body as (cls w)) (\<lambda>(o2, w). Ok (o1 @ o2, w))))"

text \<open>Without arguments the program processes its standard input.\<close>

definition filter_main :: "string \<Rightarrow> (byte list \<Rightarrow> 'w \<Rightarrow> bool \<times> 'w) \<Rightarrow> ('w \<Rightarrow> 'w) \<Rightarrow> (byte list \<Rightarrow> 'w \<Rightarrow> (byte list \<times> bool \<times> 'w) outcome) \<Rightarrow>
    byte list list \<Rightarrow> 'w \<Rightarrow> (byte list \<times> 'w) outcome" where
  "filter_main msg opn cls body as w =
     (if as = [] then obind (body [] w) (\<lambda>(out, _, w). Ok (out, w)) else files_main msg opn cls body as w)"

section \<open>cat\<close>

fun cat :: "nat \<Rightarrow> 'w reader \<Rightarrow> (byte list \<Rightarrow> 'w \<Rightarrow> int \<times> 'w) \<Rightarrow> 'w \<Rightarrow> (byte list \<times> bool \<times> 'w) outcome" where
  "cat 0 rd wr w = Diverge"
| "cat (Suc fuel) rd wr w =
     (let (r, w) = rd 512 w in
      case r of None \<Rightarrow> Ok (bytes_of ''cat: read error'' @ [10], False, w)
      | Some bs \<Rightarrow>
          if bs = [] then Ok ([], True, w)
          else let (n, w) = wr bs w in
            if n \<noteq> int (length bs) then Ok (bytes_of ''cat: write error'' @ [10], False, w) else cat fuel rd wr w)"

definition cat_main :: "nat \<Rightarrow> 'w reader \<Rightarrow> (byte list \<Rightarrow> 'w \<Rightarrow> int \<times> 'w) \<Rightarrow> (byte list \<Rightarrow> 'w \<Rightarrow> bool \<times> 'w) \<Rightarrow> ('w \<Rightarrow> 'w) \<Rightarrow> byte list list \<Rightarrow> 'w \<Rightarrow> (byte list \<times> 'w) outcome" where
  "cat_main fuel rd wr opn cls = filter_main (''cat: cannot open %s'' @ [CHR 0x0A]) opn cls (\<lambda>_. cat fuel rd wr)"

section \<open>wc\<close>

text \<open>Lines, words and characters so far, and whether the last character was inside a word.\<close>

record count =
  n_lines :: int
  n_words :: int
  n_chars :: int
  inword :: bool

definition blank :: "byte \<Rightarrow> bool" where
  "blank c \<longleftrightarrow> c = 32 \<or> c = 13 \<or> c = 9 \<or> c = 10 \<or> c = 11"

definition wc_char :: "byte \<Rightarrow> count \<Rightarrow> count" where
  "wc_char b k =
     (let k = k\<lparr>n_chars := n_chars k + 1\<rparr>;
          k = (if b = 10 then k\<lparr>n_lines := n_lines k + 1\<rparr> else k)
      in if blank b then k\<lparr>inword := False\<rparr>
         else if \<not> inword k then k\<lparr>n_words := n_words k + 1, inword := True\<rparr> else k)"

fun wc_loop :: "nat \<Rightarrow> 'w reader \<Rightarrow> 'w \<Rightarrow> count \<Rightarrow> (count option \<times> 'w) outcome" where
  "wc_loop 0 rd w k = Diverge"
| "wc_loop (Suc fuel) rd w k =
     (let (r, w) = rd 512 w in
      case r of None \<Rightarrow> Ok (None, w)
      | Some bs \<Rightarrow> if bs = [] then Ok (Some k, w) else wc_loop fuel rd w (fold wc_char bs k))"

definition wc :: "nat \<Rightarrow> 'w reader \<Rightarrow> byte list \<Rightarrow> 'w \<Rightarrow> (byte list \<times> bool \<times> 'w) outcome" where
  "wc fuel rd name w =
     obind (wc_loop fuel rd w \<lparr>n_lines = 0, n_words = 0, n_chars = 0, inword = False\<rparr>) (\<lambda>(r, w).
     case r of None \<Rightarrow> Ok (bytes_of ''wc: read error'' @ [10], False, w)
     | Some k \<Rightarrow> obind (say (''%d %d %d %s'' @ [CHR 0x0A])
         [Num (word_of_int (n_lines k)), Num (word_of_int (n_words k)), Num (word_of_int (n_chars k)), Str (Some name)]) (\<lambda>out.
         Ok (out, True, w)))"

definition wc_main :: "nat \<Rightarrow> 'w reader \<Rightarrow> (byte list \<Rightarrow> 'w \<Rightarrow> bool \<times> 'w) \<Rightarrow> ('w \<Rightarrow> 'w) \<Rightarrow> byte list list \<Rightarrow> 'w \<Rightarrow> (byte list \<times> 'w) outcome" where
  "wc_main fuel rd opn cls = filter_main (''wc: cannot open %s'' @ [CHR 0x0A]) opn cls (wc fuel rd)"

section \<open>grep\<close>

definition grep_main :: "nat \<Rightarrow> 'w reader \<Rightarrow> (byte list \<Rightarrow> 'w \<Rightarrow> bool \<times> 'w) \<Rightarrow> ('w \<Rightarrow> 'w) \<Rightarrow> byte list list \<Rightarrow> 'w \<Rightarrow> (byte list \<times> 'w) outcome" where
  "grep_main fuel rd opn cls as w = (case as of
     [] \<Rightarrow> Ok (bytes_of ''usage: grep pattern [file ...]'' @ [10], w)
   | re # as \<Rightarrow> filter_main (''grep: cannot open %s'' @ [CHR 0x0A]) opn cls
       (\<lambda>_ w. obind (grep fuel rd re [] w) (\<lambda>(out, w). Ok (out, True, w))) as w)"

section \<open>echo\<close>

fun echo :: "byte list list \<Rightarrow> byte list outcome" where
  "echo [] = Ok []"
| "echo (a # as) =
     obind (say ''%s%s'' [Str (Some a), Str (Some (if as \<noteq> [] then [32] else [10]))]) (\<lambda>o1.
     obind (echo as) (\<lambda>o2. Ok (o1 @ o2)))"

section \<open>ls\<close>

definition DIRSIZ_ls :: nat where "DIRSIZ_ls = 14"

text \<open>The name after the last slash, padded with blanks.\<close>

definition fmtname :: "byte list \<Rightarrow> byte list" where
  "fmtname path =
     (let p = rev (takeWhile (\<lambda>c. c \<noteq> 47) (rev path))
      in if DIRSIZ_ls \<le> length p then p else p @ replicate (DIRSIZ_ls - length p) 32)"

record ls_stat =
  ls_type :: uint
  ls_ino :: uint
  ls_size :: uint

definition ls_line :: "byte list \<Rightarrow> ls_stat \<Rightarrow> byte list outcome" where
  "ls_line name st = say (''%s %d %d %d'' @ [CHR 0x0A]) [Str (Some (fmtname name)), Num (ls_type st), Num (ls_ino st), Num (ls_size st)]"

text \<open>One directory entry: its inode number and the bytes of its name field. The name that is printed ends at the first NUL.\<close>

definition ls_entry :: "(byte list \<Rightarrow> ls_stat option) \<Rightarrow> byte list \<Rightarrow> ushort \<times> byte list \<Rightarrow> byte list outcome" where
  "ls_entry stt path de =
     (let (inum, name) = de; buf = path @ [47] @ takeWhile (\<lambda>c. c \<noteq> 0) name in
      if inum = 0 then Ok []
      else case stt buf of
        None \<Rightarrow> say (''ls: cannot stat %s'' @ [CHR 0x0A]) [Str (Some buf)]
      | Some st \<Rightarrow> ls_line buf st)"

fun ls_entries :: "(byte list \<Rightarrow> ls_stat option) \<Rightarrow> byte list \<Rightarrow> (ushort \<times> byte list) list \<Rightarrow> byte list outcome" where
  "ls_entries stt path [] = Ok []"
| "ls_entries stt path (de # des) = obind (ls_entry stt path de) (\<lambda>o1. obind (ls_entries stt path des) (\<lambda>o2. Ok (o1 @ o2)))"

text \<open>\<open>op\<close> and \<open>stt\<close> are the results of \<^verbatim>\<open>open\<close> followed by \<^verbatim>\<open>fstat\<close>, and of \<^verbatim>\<open>stat\<close>; \<open>des\<close> are the entries that can be read from the directory.\<close>

definition ls :: "bool \<Rightarrow> ls_stat option \<Rightarrow> (byte list \<Rightarrow> ls_stat option) \<Rightarrow> (ushort \<times> byte list) list \<Rightarrow> byte list \<Rightarrow> byte list outcome" where
  "ls opened st stt des path =
     (if \<not> opened then say (''ls: cannot open %s'' @ [CHR 0x0A]) [Str (Some path)]
      else case st of
        None \<Rightarrow> say (''ls: cannot stat %s'' @ [CHR 0x0A]) [Str (Some path)]
      | Some st \<Rightarrow>
          if ls_type st = 2 then ls_line path st
          else if ls_type st = 1 then
            if 512 < length path + 1 + DIRSIZ_ls + 1 then say (''ls: path too long'' @ [CHR 0x0A]) []
            else ls_entries stt path des
          else Ok [])"

text \<open>Without arguments the current directory is listed; \<open>list1\<close> lists one path.\<close>

fun ls_all :: "(byte list \<Rightarrow> byte list outcome) \<Rightarrow> byte list list \<Rightarrow> byte list outcome" where
  "ls_all list1 [] = Ok []"
| "ls_all list1 (a # as) = obind (list1 a) (\<lambda>o1. obind (ls_all list1 as) (\<lambda>o2. Ok (o1 @ o2)))"

definition ls_main :: "(byte list \<Rightarrow> byte list outcome) \<Rightarrow> byte list list \<Rightarrow> byte list outcome" where
  "ls_main list1 as = (if as = [] then list1 [46] else ls_all list1 as)"

section \<open>kill, ln, mkdir and rm\<close>

text \<open>The loop that applies a system call to each argument, up to the first that fails.\<close>

fun each_path :: "string \<Rightarrow> (byte list \<Rightarrow> 'w \<Rightarrow> int \<times> 'w) \<Rightarrow> byte list list \<Rightarrow> 'w \<Rightarrow> (byte list \<times> 'w) outcome" where
  "each_path msg call [] w = Ok ([], w)"
| "each_path msg call (a # as) w =
     (let (r, w) = call a w in
      if r < 0 then obind (say msg [Str (Some a)]) (\<lambda>out. Ok (out, w)) else each_path msg call as w)"

definition mkdir_main :: "(byte list \<Rightarrow> 'w \<Rightarrow> int \<times> 'w) \<Rightarrow> byte list list \<Rightarrow> 'w \<Rightarrow> (byte list \<times> 'w) outcome" where
  "mkdir_main call as w =
     (if as = [] then Ok (bytes_of ''Usage: mkdir files...'' @ [10], w)
      else each_path (''mkdir: %s failed to create'' @ [CHR 0x0A]) call as w)"

definition rm_main :: "(byte list \<Rightarrow> 'w \<Rightarrow> int \<times> 'w) \<Rightarrow> byte list list \<Rightarrow> 'w \<Rightarrow> (byte list \<times> 'w) outcome" where
  "rm_main call as w =
     (if as = [] then Ok (bytes_of ''Usage: rm files...'' @ [10], w)
      else each_path (''rm: %s failed to delete'' @ [CHR 0x0A]) call as w)"

definition ln_main :: "(byte list \<Rightarrow> byte list \<Rightarrow> 'w \<Rightarrow> int \<times> 'w) \<Rightarrow> byte list list \<Rightarrow> 'w \<Rightarrow> (byte list \<times> 'w) outcome" where
  "ln_main call as w = (case as of
     [a, b] \<Rightarrow> (let (r, w) = call a b w in
       if r < 0 then obind (say (''link %s %s: failed'' @ [CHR 0x0A]) [Str (Some a), Str (Some b)]) (\<lambda>out. Ok (out, w)) else Ok ([], w))
   | _ \<Rightarrow> Ok (bytes_of ''Usage: ln old new'' @ [10], w))"

text \<open>The arguments of \<^verbatim>\<open>kill\<close> as the numbers that \<open>atoi\<close> makes of them.\<close>

definition kill_main :: "(int \<Rightarrow> 'w \<Rightarrow> int \<times> 'w) \<Rightarrow> int list \<Rightarrow> 'w \<Rightarrow> (byte list \<times> 'w) outcome" where
  "kill_main call pids w =
     (if pids = [] then Ok (bytes_of ''usage: kill pid...'' @ [10], w) else Ok ([], fold (\<lambda>p w. snd (call p w)) pids w))"

section \<open>init\<close>

text \<open>What \<open>init\<close> does while it waits for the shell \<open>pid\<close>, given the results of \<^verbatim>\<open>wait\<close>: a message for every orphan that it reaps.\<close>

fun init_wait :: "int \<Rightarrow> int list \<Rightarrow> byte list outcome" where
  "init_wait pid [] = Sleep ''wait''"
| "init_wait pid (wpid # ws) =
     (if 0 \<le> wpid \<and> wpid \<noteq> pid then obind (init_wait pid ws) (\<lambda>r. Ok (bytes_of ''zombie!'' @ [10] @ r)) else Ok [])"

section \<open>Counting\<close>

text \<open>A word starts at a character that is not blank and comes first or after a blank.\<close>

definition word_starts :: "byte list \<Rightarrow> nat set" where
  "word_starts ds = {i. i < length ds \<and> \<not> blank (ds ! i) \<and> (i = 0 \<or> blank (ds ! (i - 1)))}"

definition counts :: "byte list \<Rightarrow> count" where
  "counts ds = \<lparr>n_lines = int (count_list ds 10), n_words = int (card (word_starts ds)), n_chars = int (length ds),
     inword = (ds \<noteq> [] \<and> \<not> blank (last ds))\<rparr>"

lemma word_starts_snoc:
  "word_starts (ds @ [b]) = word_starts ds \<union> (if \<not> blank b \<and> (ds = [] \<or> blank (last ds)) then {length ds} else {})"
proof -
  have "i \<in> word_starts (ds @ [b]) \<longleftrightarrow> i \<in> word_starts ds \<or> i = length ds \<and> \<not> blank b \<and> (ds = [] \<or> blank (last ds))" for i
  proof (cases "i < length ds")
    case True
    then show ?thesis by (simp add: word_starts_def nth_append less_imp_diff_less)
  next
    case False
    then show ?thesis
      by (cases "ds = []") (auto simp: word_starts_def nth_append last_conv_nth less_Suc_eq)
  qed
  then show ?thesis by auto
qed

lemma word_starts_finite: "finite (word_starts ds)" "length ds \<notin> word_starts ds"
  by (simp_all add: word_starts_def)

lemma wc_char_counts: "wc_char b (counts ds) = counts (ds @ [b])"
  using word_starts_finite [of ds]
  by (auto simp: wc_char_def counts_def word_starts_snoc Let_def blank_def)

lemma fold_wc_char: "fold wc_char bs (counts ds) = counts (ds @ bs)"
  by (induction bs arbitrary: ds) (simp_all add: wc_char_counts)

lemma wc_loop_counts:
  "delivers rd 512 w ds \<Longrightarrow> \<exists>n w'. wc_loop n rd w (counts cs) = Ok (Some (counts (cs @ ds)), w')"
proof (induction arbitrary: cs rule: delivers.induct)
  case (delivers_end w w')
  then show ?case by (intro exI [of _ 1] exI [of _ w']) simp
next
  case (delivers_more w bs w' ds)
  from delivers_more.IH [of "cs @ bs"] obtain n w'' where
    "wc_loop n rd w' (counts (cs @ bs)) = Ok (Some (counts ((cs @ bs) @ ds)), w'')" by blast
  then show ?case using delivers_more.hyps by (intro exI [of _ "Suc n"] exI [of _ w'']) (simp add: fold_wc_char)
qed

section \<open>Properties\<close>



end
