(* ===== verification/Spec2Isabelle.thy ===== *)
theory Spec2Isabelle
  imports Log_Transactions Fs_Laws Path_Laws Syscall_Laws Cstring Pipe Kalloc Kbd Vim Shell Ide Vm_Laws Mkfs Umalloc Mp Apic Boot Utilities
begin

text \<open>
  A verification development for xv6-vim: the xv6 teaching kernel for the x86, extended with system
  calls for full-screen output and with a small vi-like editor. File names below are those of
  src/.

  \<^bold>\<open>The program.\<close> The kernel keeps a cache of disk blocks (bio.c) over a disk
  (memide.c), a redo log that makes groups of block writes atomic (log.c), and on top of them a
  file system of inodes and directories (fs.c), which mkfs.c puts on the disk. ide.c drives a real disk. Open files and pipes (file.c, pipe.c) are reached
  through the system calls of sysfile.c. Processes (proc.c) own a page table (vm.c) whose pages
  come from a free list (kalloc.c); they enter the kernel through trap.c and syscall.c. The console
  (console.c, kbd.c) edits input lines and draws on the text screen; vim.c uses it, with buffering
  switched off, through the calls of sysproc.c. sh.c is the shell; it
  starts small programs (grep.c, wc.c, ls.c and others) that use the user library (ulib.c, printf.c, umalloc.c).
  At boot mp.c finds the processors, and lapic.c, ioapic.c and picirq.c set up their interrupts.

  \<^bold>\<open>How the code is modelled.\<close> A C function becomes a HOL function that takes the state
  and returns an \<^typ>\<open>'a outcome\<close> (theory Xv6_Prelude): Ok with the results, Panic with the
  message of the kernel's panic, Sleep with the name of the channel when the code calls sleep and
  would wait, Undef when the C code reads or writes outside an array or dereferences a null
  pointer, and Diverge when the fuel of a loop runs out. The kernel's globals are one extensible
  record: bio (block cache and disk) is extended by log, fs and kernel, so that an operation of a
  lower layer applies unchanged to the states of the layers above it. A pointer to an element of a
  table is its index; a pointer into memory is a 32-bit word. Unsigned integers are words and wrap
  around. Spin locks protect each operation as a whole, so the operations of the layers above are
  atomic; Spinlock.thy proves mutual exclusion for the lock itself, on interleaved steps.

  \<^bold>\<open>Theories, in the order of the layers.\<close>

  \<^item> Xv6_Prelude: outcomes, array access, little-endian encodings and patches of byte lists, with
    the lemmas that all components share.
  \<^item> Sleeplock, Linked_Ring, Buffer_Cache, Cache_Laws: sleeplock.c and bio.c with memide.c. The
    ring of buffers is the doubly linked list of the code; Linked_Ring holds the theory of such
    rings. The locale block_cache is the contract of the cache towards its clients: a cache is a
    view from block numbers to contents that reading keeps and writing updates.
    Cache_Laws interprets it on the code.
  \<^item> Fs_Layout, Log, Log_Recovery, Log_Transactions: fs.h and log.c. commit and recovery are proved
    atomic against a crash after any number of disk writes (C1, C2), end_op installs the
    transaction (C3), and the reservation of begin_op is sound on a log larger than LOGSIZE when every
    operation keeps to MAXOPBLOCKS blocks (C4), but not on the log that mkfs creates (C5). The locale logged_store is the contract the
    file system relies on.
  \<^item> Kalloc: kalloc.c on a byte memory, with the free list threaded through the free pages (C6, C7).
    The locale page_store is its contract.
  \<^item> Ring_Buffer, Pipe: the ring buffer with free-running 32-bit counters, shared by pipe.c and
    console.c, and pipe.c itself, which delivers the bytes written in order (C8, C9).
    The locale byte_fifo is its contract.
  \<^item> Cstring: string.c and ulib.c on a byte memory, overlapping moves included (C10 to C12).
  \<^item> Console, Kbd: console.c, the output side of uart.c, and kbd.c. The line editor is refined to an
    editor of lists (C13), a write never leaves the screen (C14), a read returns one line (C15);
    C18 is about the modifier keys.
  \<^item> Spinlock: spinlock.c as a step relation over several processors (C16, C17).
  \<^item> Vm, Fs, Kernel, File, Sysfile, Proc, Syscall: vm.c, fs.c, proc.c, file.c, sysfile.c, syscall.c,
    sysproc.c, exec.c and trap.c, as definitions over the state record kernel. Each system call is
    one definition, and dispatch selects it as the table syscalls does.
  \<^item> Fs_Laws: the block allocator and the inodes on disk, over logged_store: an allocated block was free
    and is cleared (C22), freeing restores the bitmap (C23), an updated inode reads back (C24).
  \<^item> Kernel_Laws: a sleeping process is woken by its channel (C25), a pass of the scheduler runs every
    runnable process (C26), and accepted pointers and strings lie inside the process (C27, C28).
  \<^item> Path_Laws: skipelem splits a path into its names (C29).
  \<^item> Syscall_Laws: dup and close are inverse (C30); the screen calls do not check their position (C31).
  \<^item> Vim: vim.c; what readfile reads, writefile writes back when no line is longer than the screen (C19),
    and a longer line is written past the array that holds it (C20).
  \<^item> Shell: the parser and runcmd of sh.c; the parser returns on every input (C21).

  \<^item> Ide: the driver ide.c, which queues requests through the buffers; the queue is refined to a list
    that is served in order (C32).
  \<^item> User_Lib, Grep, Utilities: printf.c, whose numbers atoi reads back (C35); grep.c, whose matcher is proved against the
    language of a pattern (C33) and whose line buffer prints exactly the matching lines (C34); and cat.c, wc.c (C36), echo.c, ls.c,
    ln.c, mkdir.c, rm.c, kill.c and the waiting loop of init.c. The system calls of a program are parameters or appear in its trace.
  \<^item> Mp, Apic: mp.c, whose loop over the processor table ends unless it meets an unknown entry (C37); the register writes of lapic.c,
    ioapic.c, picirq.c and uart.c, the decoding of the clock, and the routing of interrupts.
  \<^item> Boot: the loader bootmain.c, whose reads are proved to bring in the bytes of the image; the descriptors of mmu.h with the tables
    of seginit and tvinit, whose system call gate is the only one open to programs; the page directory of main.c.
  \<^item> Vm_Laws: mappages on the page tables in memory, over the contract of the page allocator (C38).
  \<^item> Mkfs: the image builder mkfs.c, whose image is well-formed and whose bitmap is exact (C39).
  \<^item> Umalloc: malloc and free of umalloc.c; the blocks a program holds never overlap (C40). The call sbrk is a parameter whose
    documented behaviour is the hypothesis sbrk_ok.

  \<^bold>\<open>Fuel and bounds.\<close> Loops over tables and over the counted data of a call are
  structural. Fuel remains in loops over memory: the lengths of strings, page lists and page
  ranges. Where it matters the bound is max_pages, the number of pages of the address space, which
  no such loop exceeds. The parser of the shell takes the length of its input as fuel, and C21 shows
  it enough; the allocator of umalloc.c takes more than the number of addresses, and C40 shows that enough. What depends on the C compiler, the layout of the stack frame in getcallerpcs, is a
  parameter.

  \<^bold>\<open>Not modelled.\<close> Assembly and boot code (bootasm.S, entry.S, entryother.S, swtch.S,
  trapasm.S, usys.S, initcode.S) and main.c, which calls the initialisation of each part: a context switch is the end of the step of one
  process and the beginning of another. The instructions that load processor registers (kvmalloc and switchkvm of vm.c, idtinit of
  trap.c). The disk below the buffer cache is the memory disk of memide.c; the queue of ide.c is
  modelled for itself. Of the shell, getcmd, main, the constructors of commands and nulterminate; of init.c the start of
  the shell; zombie.c. The tests (usertests.c, forktest.c, stressfs.c).
\<close>

end
